(* ===== verification/Prelude.thy ===== *)
theory Prelude
  imports Main "HOL-Library.Word"
begin

text \<open>
  Prelude of the development: the C integer types, the outcome type of a kernel routine with
  its sequencing operator and its two weakest-precondition predicates, and the generic facts on
  lists and words that the component theories share.

  A kernel routine is a HOL function from a state to an outcome. It returns (\<open>Ret\<close>), it
  calls \<open>panic\<close> (\<open>Panic\<close>, kernel/printf.c), it gives up the processor in
  \<open>sleep\<close> (\<open>Sleep\<close>, kernel/proc.c) with the channel it sleeps on and the state it
  leaves behind, its process exits (\<open>Exited\<close>) and the routine never goes on, one of its loops runs past the bound given to it (\<open>Diverge\<close>), or it does
  what C leaves undefined (\<open>Undef\<close>): it indexes an array out of its bounds or follows a null
  pointer.
\<close>

unbundle bit_operations_syntax

section \<open>Machine types\<close>

type_synonym u8 = "8 word"
type_synonym u16 = "16 word"
type_synonym u32 = "32 word"
type_synonym u64 = "64 word"

section \<open>Sleep channels\<close>

text \<open>
  The kernel sleeps on addresses of its own objects. The addresses it uses as channels are
  kept symbolic, one constructor per object: a process slot (\<open>wait\<close>), the sleep lock of a
  buffer or of an inode, a buffer that waits for the disk, the log, the tick counter, the two
  counters of a pipe (named by the pipe's page), the console, the UART and the disk driver.
\<close>

datatype chan =
    ChProc nat
  | ChBufLock nat
  | ChInodeLock nat
  | ChBuf nat
  | ChLog
  | ChTicks
  | ChPipeRead u64
  | ChPipeWrite u64
  | ChCons
  | ChUartTx
  | ChDiskFree

section \<open>Outcomes of kernel routines\<close>

datatype ('a, 's) run =
    Ret 'a 's
  | Panic string
  | Sleep chan 's
  | Exited 's
  | Diverge
  | Undef

primrec bnd :: "('a, 's) run \<Rightarrow> ('a \<Rightarrow> 's \<Rightarrow> ('b, 's) run) \<Rightarrow> ('b, 's) run" where
  "bnd (Ret x s) f = f x s"
| "bnd (Panic m) f = Panic m"
| "bnd (Sleep c s) f = Sleep c s"
| "bnd (Exited s) f = Exited s"
| "bnd Diverge f = Diverge"
| "bnd Undef f = Undef"

text \<open>
  \<open>returns r Q\<close>: the routine returns, and \<open>Q\<close> holds of its result and final state (total
  correctness). \<open>meets r Q W\<close>: the same, but it may also panic, and where it sleeps or
  exits \<open>W\<close> holds of the state it leaves.
\<close>

primrec returns :: "('a, 's) run \<Rightarrow> ('a \<Rightarrow> 's \<Rightarrow> bool) \<Rightarrow> bool" where
  "returns (Ret x s) Q = Q x s"
| "returns (Panic m) Q = False"
| "returns (Sleep c s) Q = False"
| "returns (Exited s) Q = False"
| "returns Diverge Q = False"
| "returns Undef Q = False"

primrec meets :: "('a, 's) run \<Rightarrow> ('a \<Rightarrow> 's \<Rightarrow> bool) \<Rightarrow> ('s \<Rightarrow> bool) \<Rightarrow> bool" where
  "meets (Ret x s) Q W = Q x s"
| "meets (Panic m) Q W = True"
| "meets (Sleep c s) Q W = W s"
| "meets (Exited s) Q W = W s"
| "meets Diverge Q W = False"
| "meets Undef Q W = False"

named_theorems run_simps \<open>characterisations of outcomes\<close>

lemma bnd_eq_Ret [run_simps]:
  "bnd r f = Ret y t \<longleftrightarrow> (\<exists>x s. r = Ret x s \<and> f x s = Ret y t)"
  by (cases r) auto

lemma bnd_eq_Panic [run_simps]:
  "bnd r f = Panic m \<longleftrightarrow> r = Panic m \<or> (\<exists>x s. r = Ret x s \<and> f x s = Panic m)"
  by (cases r) auto

lemma bnd_eq_Sleep [run_simps]:
  "bnd r f = Sleep c t \<longleftrightarrow> r = Sleep c t \<or> (\<exists>x s. r = Ret x s \<and> f x s = Sleep c t)"
  by (cases r) auto

lemma bnd_eq_Undef [run_simps]:
  "bnd r f = Undef \<longleftrightarrow> r = Undef \<or> (\<exists>x s. r = Ret x s \<and> f x s = Undef)"
  by (cases r) auto

lemma bnd_assoc: "bnd (bnd r f) g = bnd r (\<lambda>x s. bnd (f x s) g)"
  by (cases r) auto

lemma returns_bnd [simp]: "returns (bnd r f) Q = returns r (\<lambda>x s. returns (f x s) Q)"
  by (cases r) auto

lemma meets_bnd [simp]: "meets (bnd r f) Q W = meets r (\<lambda>x s. meets (f x s) Q W) W"
  by (cases r) auto

lemma returns_iff: "returns r Q \<longleftrightarrow> (\<exists>x s. r = Ret x s \<and> Q x s)"
  by (cases r) auto

lemma returnsE:
  assumes "returns r Q"
  obtains x s where "r = Ret x s" and "Q x s"
  using assms by (cases r) auto

lemma returns_mono:
  "returns r P \<Longrightarrow> (\<And>x s. P x s \<Longrightarrow> Q x s) \<Longrightarrow> returns r Q"
  by (cases r) auto

lemma meets_mono:
  "meets r P V \<Longrightarrow> (\<And>x s. P x s \<Longrightarrow> Q x s) \<Longrightarrow> (\<And>s. V s \<Longrightarrow> W s) \<Longrightarrow> meets r Q W"
  by (cases r) auto

lemma returns_meets: "returns r Q \<Longrightarrow> meets r Q W"
  by (cases r) auto

section \<open>Loops\<close>

text \<open>
  \<open>loop k body l s\<close> runs \<open>body\<close> on the loop's local variables \<open>l\<close> and the state: \<open>Inl\<close>
  goes round again with new locals, \<open>Inr\<close> leaves the loop with a result. After \<open>k\<close> rounds it is
  \<open>Diverge\<close>; \<open>loop_returns\<close> is the total-correctness rule, an invariant and a measure.
\<close>

primrec loop :: "nat \<Rightarrow> ('l \<Rightarrow> 's \<Rightarrow> ('l + 'a, 's) run) \<Rightarrow> 'l \<Rightarrow> 's \<Rightarrow> ('a, 's) run" where
  "loop 0 body l s = Diverge"
| "loop (Suc k) body l s =
     bnd (body l s) (\<lambda>r t. case r of Inl l' \<Rightarrow> loop k body l' t | Inr x \<Rightarrow> Ret x t)"

lemma loop_unfold:
  "0 < k \<Longrightarrow> loop k body l s =
     bnd (body l s) (\<lambda>r t. case r of Inl l' \<Rightarrow> loop (k - 1) body l' t | Inr x \<Rightarrow> Ret x t)"
  by (cases k) (simp_all cong: sum.case_cong)

lemma loop_returns:
  assumes "I l s" and "\<mu> l s < k"
    and step: "\<And>l s. I l s \<Longrightarrow> returns (body l s) (\<lambda>r t. case r of
                  Inl l' \<Rightarrow> I l' t \<and> \<mu> l' t < (\<mu> l s :: nat) | Inr x \<Rightarrow> Q x t)"
  shows "returns (loop k body l s) Q"
  using assms(1,2)
proof (induction k arbitrary: l s)
  case 0
  then show ?case by simp
next
  case (Suc k)
  from step [OF Suc.prems(1)] obtain r t where r: "body l s = Ret r t"
    and post: "case r of Inl l' \<Rightarrow> I l' t \<and> \<mu> l' t < \<mu> l s | Inr x \<Rightarrow> Q x t"
    by (rule returnsE)
  show ?case
  proof (cases r)
    case (Inl l')
    with post Suc.prems(2) have "I l' t" "\<mu> l' t < k" by auto
    then have "returns (loop k body l' t) Q" by (rule Suc.IH)
    with r Inl show ?thesis by simp
  next
    case (Inr x)
    with r post show ?thesis by simp
  qed
qed

lemma loop_meets:
  assumes "I l s" and "\<mu> l s < k"
    and step: "\<And>l s. I l s \<Longrightarrow> meets (body l s) (\<lambda>r t. case r of
                  Inl l' \<Rightarrow> I l' t \<and> \<mu> l' t < (\<mu> l s :: nat) | Inr x \<Rightarrow> Q x t) W"
  shows "meets (loop k body l s) Q W"
  using assms(1,2)
proof (induction k arbitrary: l s)
  case 0
  then show ?case by simp
next
  case (Suc k)
  note body = step [OF Suc.prems(1)]
  show ?case
  proof (cases "body l s")
    case (Ret r t)
    with body Suc show ?thesis by (cases r) auto
  qed (use body in auto)
qed

text \<open>\<open>each f xs s\<close> runs \<open>f\<close> on the elements of \<open>xs\<close> in order: a loop with a fixed range.\<close>

primrec each :: "('x \<Rightarrow> 's \<Rightarrow> (unit, 's) run) \<Rightarrow> 'x list \<Rightarrow> 's \<Rightarrow> (unit, 's) run" where
  "each f [] s = Ret () s"
| "each f (x # xs) s = bnd (f x s) (\<lambda>_ s. each f xs s)"

lemma each_upt:
  assumes "I 0 s" and "\<And>i t. i < n \<Longrightarrow> I i t \<Longrightarrow> returns (f i t) (\<lambda>_ u. I (Suc i) u)"
  shows "returns (each f [0..<n] s) (\<lambda>_ t. I n t)"
proof -
  have "returns (each f [k..<n] t) (\<lambda>_ u. I n u)" if "I k t" "k \<le> n" for k t
    using that
  proof (induction "n - k" arbitrary: k t)
    case (Suc d)
    then have k: "[k..<n] = k # [Suc k..<n]" "k < n" by (simp_all add: upt_conv_Cons)
    from assms(2) [OF this(2) Suc.prems(1)] show ?case
      using Suc k by (auto simp: returns_iff)
  qed simp
  then show ?thesis using assms(1) by simp
qed

text \<open>\<open>index xs i f\<close>: an access to element \<open>i\<close> of an array, undefined out of bounds.\<close>

definition index :: "'x list \<Rightarrow> nat \<Rightarrow> ('x \<Rightarrow> ('a, 's) run) \<Rightarrow> ('a, 's) run" where
  "index xs i f = (if i < length xs then f (xs ! i) else Undef)"

lemma index_in [simp]: "i < length xs \<Longrightarrow> index xs i f = f (xs ! i)"
  by (simp add: index_def)

section \<open>First-match search in a table\<close>

text \<open>
  The kernel's tables are arrays scanned from slot 0. \<open>first_slot P xs\<close> is the index the scan
  \<open>for(p = tbl; p < &tbl[N]; p++) if(P(p)) ...\<close> stops at.
\<close>

fun first_slot_from :: "nat \<Rightarrow> ('a \<Rightarrow> bool) \<Rightarrow> 'a list \<Rightarrow> nat option" where
  "first_slot_from i P [] = None"
| "first_slot_from i P (x # xs) = (if P x then Some i else first_slot_from (Suc i) P xs)"

definition first_slot :: "('a \<Rightarrow> bool) \<Rightarrow> 'a list \<Rightarrow> nat option" where
  "first_slot P xs = first_slot_from 0 P xs"

lemma first_slot_from_Some:
  "first_slot_from k P xs = Some i \<longleftrightarrow>
     k \<le> i \<and> i < k + length xs \<and> P (xs ! (i - k)) \<and> (\<forall>j < i - k. \<not> P (xs ! j))"
proof (induction xs arbitrary: k)
  case Nil
  then show ?case by simp
next
  case (Cons x xs)
  show ?case
  proof (cases "P x")
    case True
    then have "(k \<le> i \<and> i < k + length (x # xs) \<and> P ((x # xs) ! (i - k)) \<and> (\<forall>j < i - k. \<not> P ((x # xs) ! j)))
      \<longleftrightarrow> i = k"
      by (cases "i - k") auto
    with True show ?thesis by auto
  next
    case False
    have "first_slot_from k P (x # xs) = Some i \<longleftrightarrow> first_slot_from (Suc k) P xs = Some i"
      using False by simp
    also have "\<dots> \<longleftrightarrow> Suc k \<le> i \<and> i < Suc k + length xs \<and> P (xs ! (i - Suc k)) \<and> (\<forall>j < i - Suc k. \<not> P (xs ! j))"
      by (rule Cons.IH)
    also have "\<dots> \<longleftrightarrow> k \<le> i \<and> i < k + length (x # xs) \<and> P ((x # xs) ! (i - k)) \<and> (\<forall>j < i - k. \<not> P ((x # xs) ! j))"
    proof (cases "k < i")
      case True
      then obtain d where d: "i - k = Suc d" by (metis Suc_diff_Suc)
      then have "i - Suc k = d" by simp
      with d True False show ?thesis
        by (auto simp: All_less_Suc2)
    next
      case notless: False
      with False show ?thesis by auto
    qed
    finally show ?thesis .
  qed
qed

lemma first_slot_from_None:
  "first_slot_from k P xs = None \<longleftrightarrow> (\<forall>x \<in> set xs. \<not> P x)"
  by (induction xs arbitrary: k) auto

lemma first_slot_Some:
  "first_slot P xs = Some i \<longleftrightarrow> i < length xs \<and> P (xs ! i) \<and> (\<forall>j < i. \<not> P (xs ! j))"
  by (simp add: first_slot_def first_slot_from_Some)

lemma first_slot_None: "first_slot P xs = None \<longleftrightarrow> (\<forall>x \<in> set xs. \<not> P x)"
  by (simp add: first_slot_def first_slot_from_None)

lemma first_slot_None_nth: "first_slot P xs = None \<longleftrightarrow> (\<forall>i < length xs. \<not> P (xs ! i))"
  by (auto simp: first_slot_None all_set_conv_all_nth)

lemma first_slot_from_snoc:
  "first_slot_from k P (xs @ [x]) =
     (case first_slot_from k P xs of Some i \<Rightarrow> Some i | None \<Rightarrow> if P x then Some (k + length xs) else None)"
  by (induction xs arbitrary: k) (auto split: option.splits)

lemma first_slot_Nil [simp]: "first_slot P [] = None"
  by (simp add: first_slot_def)

lemma first_slot_snoc:
  "first_slot P (xs @ [x]) =
     (case first_slot P xs of Some i \<Rightarrow> Some i | None \<Rightarrow> if P x then Some (length xs) else None)"
  by (simp add: first_slot_def first_slot_from_snoc split: option.splits)

lemma first_slot_take_Suc:
  "n < length xs \<Longrightarrow> first_slot P (take (Suc n) xs) =
     (case first_slot P (take n xs) of Some i \<Rightarrow> Some i | None \<Rightarrow> if P (xs ! n) then Some n else None)"
  by (simp add: take_Suc_conv_app_nth first_slot_snoc split: option.splits)


section \<open>Routines that may sleep\<close>

text \<open>
  \<open>ends r Q W\<close>: the routine returns with \<open>Q\<close> or sleeps on a channel and in a state that satisfy \<open>W\<close>;
  nothing else happens. The rule for loops is that of total correctness.
\<close>

primrec ends :: "('a, 's) run \<Rightarrow> ('a \<Rightarrow> 's \<Rightarrow> bool) \<Rightarrow> (chan \<Rightarrow> 's \<Rightarrow> bool) \<Rightarrow> bool" where
  "ends (Ret x s) Q W = Q x s"
| "ends (Panic m) Q W = False"
| "ends (Sleep c s) Q W = W c s"
| "ends (Exited s) Q W = False"
| "ends Diverge Q W = False"
| "ends Undef Q W = False"

lemma ends_bnd [simp]: "ends (bnd r f) Q W = ends r (\<lambda>x s. ends (f x s) Q W) W"
  by (cases r) auto

lemma ends_mono:
  "ends r P V \<Longrightarrow> (\<And>x s. P x s \<Longrightarrow> Q x s) \<Longrightarrow> (\<And>c s. V c s \<Longrightarrow> W c s) \<Longrightarrow> ends r Q W"
  by (cases r) auto

lemma returns_ends: "returns r Q \<Longrightarrow> ends r Q W"
  by (cases r) auto

lemma loop_ends:
  assumes "I l s" and "\<mu> l s < k"
    and step: "\<And>l s. I l s \<Longrightarrow> ends (body l s) (\<lambda>r t. case r of
                  Inl l' \<Rightarrow> I l' t \<and> \<mu> l' t < (\<mu> l s :: nat) | Inr x \<Rightarrow> Q x t) W"
  shows "ends (loop k body l s) Q W"
  using assms(1,2)
proof (induction k arbitrary: l s)
  case (Suc k)
  show ?case
  proof (simp, rule ends_mono [OF step [OF Suc.prems(1)]])
    fix r t
    assume "case r of Inl l' \<Rightarrow> I l' t \<and> \<mu> l' t < \<mu> l s | Inr x \<Rightarrow> Q x t"
    with Suc show "ends (case r of Inl l' \<Rightarrow> loop k body l' t | Inr x \<Rightarrow> Ret x t) Q W"
      by (cases r) auto
  qed simp
qed simp

end
