(* ===== verification/Machine.thy ===== *)
theory Machine
  imports Prelude
begin

text \<open>
  The numeric parameters of the kernel (kernel/param.h), the page and page-table-entry macros
  (kernel/riscv.h) and the address-space layout (kernel/memlayout.h), with the arithmetic facts
  the allocator, the virtual-memory code and \<open>exec\<close> rest on: rounding to pages, the round trip
  of a physical address through a page-table entry, and the decomposition of a virtual address
  into page-table indices. Addresses are 64-bit words, so every sum wraps as it does in C.
\<close>

section \<open>Kernel parameters (kernel/param.h)\<close>

named_theorems params \<open>the kernel's numeric parameters\<close>

definition NPROC :: nat where [params]: "NPROC = 256"
definition NCPU :: nat where [params]: "NCPU = 8"
definition NOFILE :: nat where [params]: "NOFILE = 16"
definition NFILE :: nat where [params]: "NFILE = 100"
definition NINODE :: nat where [params]: "NINODE = 50"
definition NDEV :: nat where [params]: "NDEV = 10"
definition ROOTDEV :: u32 where [params]: "ROOTDEV = 1"
definition MAXARG :: nat where [params]: "MAXARG = 32"
definition MAXOPBLOCKS :: nat where [params]: "MAXOPBLOCKS = 10"
definition LOGSIZE :: nat where [params]: "LOGSIZE = MAXOPBLOCKS * 3"
definition NBUF :: nat where [params]: "NBUF = MAXOPBLOCKS * 3"
definition FSSIZE :: nat where [params]: "FSSIZE = 2000"
definition MAXPATH :: nat where [params]: "MAXPATH = 128"
definition USERSTACK :: nat where [params]: "USERSTACK = 1"

section \<open>Pages and page-table entries (kernel/riscv.h)\<close>

definition PGSIZE :: u64 where [params]: "PGSIZE = 4096"

definition PGROUNDUP :: "u64 \<Rightarrow> u64" where
  "PGROUNDUP sz = (sz + PGSIZE - 1) AND NOT (PGSIZE - 1)"

definition PGROUNDDOWN :: "u64 \<Rightarrow> u64" where
  "PGROUNDDOWN a = a AND NOT (PGSIZE - 1)"

definition PTE_V :: u64 where [params]: "PTE_V = 1"
definition PTE_R :: u64 where [params]: "PTE_R = 2"
definition PTE_W :: u64 where [params]: "PTE_W = 4"
definition PTE_X :: u64 where [params]: "PTE_X = 8"
definition PTE_U :: u64 where [params]: "PTE_U = 16"

definition PA2PTE :: "u64 \<Rightarrow> u64" where
  "PA2PTE pa = push_bit 10 (drop_bit 12 pa)"

definition PTE2PA :: "u64 \<Rightarrow> u64" where
  "PTE2PA pte = push_bit 12 (drop_bit 10 pte)"

definition PTE_FLAGS :: "u64 \<Rightarrow> u64" where
  "PTE_FLAGS pte = pte AND 0x3FF"

definition PXSHIFT :: "nat \<Rightarrow> nat" where
  "PXSHIFT level = 12 + 9 * level"

definition PX :: "nat \<Rightarrow> u64 \<Rightarrow> u64" where
  "PX level va = drop_bit (PXSHIFT level) va AND 0x1FF"

definition MAXVA :: u64 where
  "MAXVA = push_bit (9 + 9 + 9 + 12 - 1) 1"

section \<open>Memory layout (kernel/memlayout.h)\<close>

definition KERNBASE :: u64 where [params]: "KERNBASE = 0x80000000"
definition PHYSTOP :: u64 where [params]: "PHYSTOP = KERNBASE + 128 * 1024 * 1024"
definition TRAMPOLINE :: u64 where "TRAMPOLINE = MAXVA - PGSIZE"
definition KSTACK :: "nat \<Rightarrow> u64" where
  "KSTACK p = TRAMPOLINE - (of_nat p + 1) * 2 * PGSIZE"
definition TRAPFRAME :: u64 where "TRAPFRAME = TRAMPOLINE - PGSIZE"

section \<open>Facts on the page macros\<close>

lemma MAXVA_val [params]: "MAXVA = 0x4000000000"
  by (simp add: MAXVA_def)

lemma and_not_mask: "w AND NOT (mask n) = push_bit n (drop_bit n w)" for w :: "'a::len word"
  by (rule bit_word_eqI) (auto simp: bit_simps)

lemma PGROUNDDOWN_push: "PGROUNDDOWN a = push_bit 12 (drop_bit 12 a)"
proof -
  have "PGSIZE - 1 = mask 12" by (simp add: params mask_eq_exp_minus_1)
  then show ?thesis by (simp add: PGROUNDDOWN_def and_not_mask)
qed

lemma unat_round: "unat (push_bit n (drop_bit n w)) = unat w div 2 ^ n * 2 ^ n" for w :: "'a::len word"
proof -
  have "unat (push_bit n (drop_bit n w)) = take_bit LENGTH('a) (unat w div 2 ^ n * 2 ^ n)"
    by (simp add: unsigned_push_bit_eq unat_drop_bit_eq flip: push_bit_eq_mult drop_bit_eq_div)
  also have "\<dots> = unat w div 2 ^ n * 2 ^ n"
    by (metis div_times_less_eq_dividend order_le_less_trans take_bit_nat_eq_self_iff unsigned_less)
  finally show ?thesis .
qed

lemma unat_PGROUNDDOWN: "unat (PGROUNDDOWN a) = unat a div 4096 * 4096"
  using unat_round [of 12 a] by (simp add: PGROUNDDOWN_push)

lemma PGROUNDUP_down: "PGROUNDUP sz = PGROUNDDOWN (sz + 4095)"
  by (simp add: PGROUNDUP_def PGROUNDDOWN_def params algebra_simps)

lemma unat_PGROUNDUP:
  assumes "unat sz + 4095 < 2 ^ 64"
  shows "unat (PGROUNDUP sz) = (unat sz + 4095) div 4096 * 4096"
proof -
  have "unat (sz + 4095) = unat sz + 4095"
    using assms by (simp add: unat_word_ariths)
  then show ?thesis
    by (simp add: PGROUNDUP_down unat_PGROUNDDOWN)
qed

definition page_aligned :: "u64 \<Rightarrow> bool" where
  "page_aligned a \<longleftrightarrow> a mod PGSIZE = 0"

lemma page_aligned_unat: "page_aligned a \<longleftrightarrow> unat a mod 4096 = 0"
  by (simp add: page_aligned_def params unat_mod unat_eq_zero [symmetric] del: unat_eq_zero)

lemma page_aligned_PGROUNDDOWN [simp]: "page_aligned (PGROUNDDOWN a)"
  by (simp add: page_aligned_unat unat_PGROUNDDOWN)

lemma page_aligned_PGROUNDUP [simp]: "page_aligned (PGROUNDUP a)"
  by (simp add: PGROUNDUP_down)

lemma PGROUNDDOWN_aligned: "page_aligned a \<Longrightarrow> PGROUNDDOWN a = a"
  by (rule word_unat_eq_iff [THEN iffD2]) (auto simp: unat_PGROUNDDOWN page_aligned_unat)

lemma PGROUNDDOWN_le: "PGROUNDDOWN a \<le> a"
  by (simp add: word_le_nat_alt unat_PGROUNDDOWN)

lemma unat_page_offset: "unat (a - PGROUNDDOWN a) = unat a mod 4096"
  using PGROUNDDOWN_le [of a]
  by (simp add: unat_sub unat_PGROUNDDOWN minus_div_mult_eq_mod)

subsection \<open>Page-table entries\<close>

lemma not_bit_ge: "w < 2 ^ m \<Longrightarrow> m \<le> k \<Longrightarrow> \<not> bit w k" for w :: "'a::len word"
proof -
  assume "w < 2 ^ m" and mk: "m \<le> k"
  show ?thesis
  proof (cases "k < LENGTH('a)")
    case True
    with mk have "unat (of_nat (2 ^ m) :: 'a word) = 2 ^ m"
      by (simp add: unsigned_of_nat take_bit_eq_mod del: of_nat_power)
    then have "unat (2 ^ m :: 'a word) = 2 ^ m" by simp
    with \<open>w < 2 ^ m\<close> have "unat w < 2 ^ m"
      by (simp add: word_less_nat_alt)
    also have "(2::nat) ^ m \<le> 2 ^ k" using mk by (rule power_increasing) simp
    finally have "\<not> bit (unat w) k" by (simp add: bit_iff_odd)
    then show ?thesis by (simp add: bit_unsigned_iff)
  next
    case False
    then show ?thesis by (auto dest: bit_imp_le_length)
  qed
qed

lemma not_bit_aligned: "page_aligned a \<Longrightarrow> k < 12 \<Longrightarrow> \<not> bit a k"
proof -
  assume "page_aligned a" and k: "k < 12"
  then have "take_bit 12 a = 0"
    by (simp add: page_aligned_def params take_bit_eq_mod)
  with k show ?thesis
    by (metis bit_0_eq bit_take_bit_iff bot_apply bot_bool_def)
qed

lemma page_aligned_bits: "page_aligned a \<longleftrightarrow> (\<forall>k < 12. \<not> bit a k)"
proof
  assume "\<forall>k < 12. \<not> bit a k"
  then have "take_bit 12 a = 0"
    by (intro bit_word_eqI) (auto simp: bit_simps)
  then show "page_aligned a"
    by (simp add: page_aligned_def params take_bit_eq_mod)
qed (auto dest: not_bit_aligned)

lemma PTE2PA_PA2PTE:
  assumes "page_aligned pa" and "pa < 2 ^ 56" and "f < 2 ^ 10"
  shows "PTE2PA (PA2PTE pa OR f) = pa"
proof (rule bit_word_eqI)
  fix n assume n: "n < LENGTH(64)"
  show "bit (PTE2PA (PA2PTE pa OR f)) n = bit pa n"
  proof (cases "n < 12")
    case True
    then show ?thesis
      using not_bit_aligned [OF assms(1), of n] by (simp add: PTE2PA_def bit_simps)
  next
    case False
    then obtain k where k: "n = k + 12" by (metis add.commute le_add_diff_inverse linorder_not_less)
    have "\<not> bit f (k + 10)" using not_bit_ge [OF assms(3)] by simp
    then show ?thesis
      using n k not_bit_ge [OF assms(2), of n]
      by (auto simp: PTE2PA_def PA2PTE_def bit_simps add.commute)
  qed
qed

lemma PTE_FLAGS_PA2PTE:
  assumes "f < 2 ^ 10"
  shows "PTE_FLAGS (PA2PTE pa OR f) = f"
proof (rule bit_word_eqI)
  fix n assume n: "n < LENGTH(64)"
  have m: "(0x3FF :: u64) = mask 10" by (simp add: mask_eq_exp_minus_1)
  show "bit (PTE_FLAGS (PA2PTE pa OR f)) n = bit f n"
    using n not_bit_ge [OF assms, of n]
    by (cases "n < 10") (auto simp: PTE_FLAGS_def PA2PTE_def m bit_simps)
qed

lemma page_aligned_PTE2PA [simp]: "page_aligned (PTE2PA pte)"
  by (auto simp: page_aligned_bits PTE2PA_def bit_simps)

lemma PX_take: "PX level va = take_bit 9 (drop_bit (PXSHIFT level) va)"
proof -
  have "(0x1FF :: u64) = mask 9" by (simp add: mask_eq_exp_minus_1)
  then show ?thesis by (simp add: PX_def take_bit_eq_mask)
qed

lemma unat_PX: "unat (PX level va) = unat va div 2 ^ PXSHIFT level mod 512"
proof -
  have "unat (PX level va) = take_bit 9 (drop_bit (PXSHIFT level) (unat va))"
    by (simp only: PX_take unsigned_take_bit_eq unat_drop_bit_eq)
  then show ?thesis by (simp add: take_bit_eq_mod drop_bit_eq_div)
qed

lemma PX_less: "PX level va < 512"
  by (simp add: word_less_nat_alt unat_PX)

text \<open>
  The three 9-bit indices and the page offset identify a virtual address below
  \<open>MAXVA\<close>: no two pages share a page-table slot.
\<close>

lemma PX_recompose:
  assumes "va < MAXVA"
  shows "unat va = unat (PX 2 va) * 2 ^ 30 + unat (PX 1 va) * 2 ^ 21 + unat (PX 0 va) * 2 ^ 12
           + unat va mod 2 ^ 12"
proof -
  have lt: "unat va < 2 ^ 38"
    using assms by (simp add: word_less_nat_alt params)
  define q where "q = unat va div 2 ^ 12"
  have q: "unat va = q * 2 ^ 12 + unat va mod 2 ^ 12"
    unfolding q_def by (rule div_mult_mod_eq [symmetric])
  define r where "r = q div 2 ^ 9"
  have r: "q = r * 2 ^ 9 + q mod 2 ^ 9"
    unfolding r_def by (rule div_mult_mod_eq [symmetric])
  define t where "t = r div 2 ^ 9"
  have t: "r = t * 2 ^ 9 + r mod 2 ^ 9"
    unfolding t_def by (rule div_mult_mod_eq [symmetric])
  have dr: "unat va div 2 ^ 21 = r" and dt: "unat va div 2 ^ 30 = t"
    by (simp_all add: r_def q_def t_def flip: div_mult2_eq)
  have "t < 2 ^ 8"
    using lt unfolding dt [symmetric] by (simp add: less_mult_imp_div_less)
  then have "t mod 512 = t" by simp
  then have "unat (PX 2 va) = t" "unat (PX 1 va) = r mod 2 ^ 9" "unat (PX 0 va) = q mod 2 ^ 9"
    using dr dt by (simp_all add: unat_PX PXSHIFT_def q_def)
  then show ?thesis
    using q r t by simp
qed

lemma PX_inj_page:
  assumes "va < MAXVA" "vb < MAXVA" "page_aligned va" "page_aligned vb"
    and "PX 2 va = PX 2 vb" "PX 1 va = PX 1 vb" "PX 0 va = PX 0 vb"
  shows "va = vb"
  using PX_recompose [OF assms(1)] PX_recompose [OF assms(2)] assms(3-7)
  by (simp add: page_aligned_unat word_unat_eq_iff)

end
