(* ===== verification/Memory.thy ===== *)
theory Memory
  imports Machine
begin

text \<open>
  Physical memory as a function from 64-bit addresses to bytes, little-endian 64-bit loads and
  stores on it (the accesses to page-table entries, free-list links and trap frames), and the
  facts that keep the pages of memory apart.
\<close>

type_synonym mem = "u64 \<Rightarrow> u8"

section \<open>64-bit loads and stores\<close>

definition byte_of :: "u64 \<Rightarrow> nat \<Rightarrow> u8" where
  "byte_of v i = ucast (drop_bit (8 * i) v)"

definition load64 :: "mem \<Rightarrow> u64 \<Rightarrow> u64" where
  "load64 m a =
     ucast (m a) OR push_bit 8 (ucast (m (a + 1))) OR push_bit 16 (ucast (m (a + 2)))
     OR push_bit 24 (ucast (m (a + 3))) OR push_bit 32 (ucast (m (a + 4)))
     OR push_bit 40 (ucast (m (a + 5))) OR push_bit 48 (ucast (m (a + 6)))
     OR push_bit 56 (ucast (m (a + 7)))"

definition store64 :: "mem \<Rightarrow> u64 \<Rightarrow> u64 \<Rightarrow> mem" where
  "store64 m a v = (\<lambda>x. if x - a < 8 then byte_of v (unat (x - a)) else m x)"

lemma bytes_of_word:
  "ucast (byte_of v 0) OR push_bit 8 (ucast (byte_of v 1)) OR push_bit 16 (ucast (byte_of v 2))
   OR push_bit 24 (ucast (byte_of v 3)) OR push_bit 32 (ucast (byte_of v 4))
   OR push_bit 40 (ucast (byte_of v 5)) OR push_bit 48 (ucast (byte_of v 6))
   OR push_bit 56 (ucast (byte_of v 7)) = v"
proof (rule bit_word_eqI)
  fix n assume n: "n < LENGTH(64)"
  then have n64: "n < 64" by simp
  show "bit (ucast (byte_of v 0) OR push_bit 8 (ucast (byte_of v 1)) OR push_bit 16 (ucast (byte_of v 2))
     OR push_bit 24 (ucast (byte_of v 3)) OR push_bit 32 (ucast (byte_of v 4))
     OR push_bit 40 (ucast (byte_of v 5)) OR push_bit 48 (ucast (byte_of v 6))
     OR push_bit 56 (ucast (byte_of v 7)) :: u64) n = bit v n"
  proof (cases "bit v n")
    case True
    obtain k r where n_eq: "n = 8 * k + r" and "r < 8"
      using mult_div_mod_eq [of 8 n] mod_less_divisor [of 8 n] by (metis zero_less_numeral)
    with n64 have "k < 8" by simp
    then consider "k = 0" | "k = 1" | "k = 2" | "k = 3" | "k = 4" | "k = 5" | "k = 6" | "k = 7"
      by linarith
    then show ?thesis
      using True n_eq \<open>r < 8\<close>
      by cases (simp_all add: byte_of_def bit_or_iff bit_push_bit_iff bit_ucast_iff bit_drop_bit_eq)
  next
    case False
    then show ?thesis
      using n64 by (simp add: byte_of_def bit_or_iff bit_push_bit_iff bit_ucast_iff bit_drop_bit_eq)
  qed
qed

lemma load64_store64_same [simp]: "load64 (store64 m a v) a = v"
  using bytes_of_word [of v] by (simp add: load64_def store64_def)

lemma load64_cong: "(\<And>i. i < 8 \<Longrightarrow> m (a + i) = m' (a + i)) \<Longrightarrow> load64 m a = load64 m' a"
proof -
  assume eq: "\<And>i. i < 8 \<Longrightarrow> m (a + i) = m' (a + i)"
  have "m a = m' a" using eq [of 0] by simp
  with eq show ?thesis by (simp add: load64_def)
qed

definition aligned8 :: "u64 \<Rightarrow> bool" where
  "aligned8 a \<longleftrightarrow> unat a mod 8 = 0"

lemma aligned8_disjoint:
  assumes "aligned8 a" "aligned8 b" "a \<noteq> b" "i < 8"
  shows "\<not> b + i - a < 8"
proof
  assume l: "b + i - a < 8"
  define j where "j = b + i - a"
  have eq: "b + i = a + j" by (simp add: j_def)
  have nat: "unat (x + k) = unat x + unat k" if "aligned8 x" "k < 8" for x k :: u64
  proof -
    have "unat x mod 8 = 0" "unat x < 18446744073709551616"
      using that(1) unsigned_less [of x] by (auto simp: aligned8_def)
    then have "unat x + 7 < 18446744073709551616" by presburger
    moreover have "unat k \<le> 7" using that(2) by (simp add: word_less_nat_alt)
    ultimately show ?thesis by (simp add: unat_word_ariths)
  qed
  have lj: "j < 8" unfolding j_def by (rule l)
  have "unat b + unat i = unat a + unat j"
    using nat [OF assms(2,4)] nat [OF assms(1) lj] eq by simp
  moreover have "unat i < 8" "unat j < 8" using assms(4) lj by (simp_all add: word_less_nat_alt)
  moreover obtain p q where "unat a = 8 * p" "unat b = 8 * q"
    using assms(1,2) unfolding aligned8_def by (auto simp: mod_eq_0_iff_dvd elim!: dvdE)
  ultimately have "(8 * q + unat i) div 8 = (8 * p + unat j) div 8" and ij: "unat i < 8" "unat j < 8"
    by simp_all
  with \<open>unat a = 8 * p\<close> \<open>unat b = 8 * q\<close> have "unat a = unat b" by simp
  with assms(3) show False by (simp add: word_unat_eq_iff)
qed

lemma load64_store64_other:
  "aligned8 a \<Longrightarrow> aligned8 b \<Longrightarrow> a \<noteq> b \<Longrightarrow> load64 (store64 m a v) b = load64 m b"
  by (rule load64_cong) (simp add: store64_def aligned8_disjoint)

lemma load64_store64:
  "aligned8 a \<Longrightarrow> aligned8 b \<Longrightarrow> load64 (store64 m a v) b = (if a = b then v else load64 m b)"
  by (simp add: load64_store64_other)

section \<open>Buffers and pages\<close>

text \<open>\<open>in_buf a d n\<close>: address \<open>a\<close> is one of the \<open>n\<close> bytes at \<open>d\<close>.\<close>

definition in_buf :: "u64 \<Rightarrow> u64 \<Rightarrow> nat \<Rightarrow> bool" where
  "in_buf a d n \<longleftrightarrow> unat (a - d) < n"

lemma in_buf_0 [simp]: "\<not> in_buf a d 0"
  by (simp add: in_buf_def)

lemma in_buf_Suc: "n < 2 ^ 64 \<Longrightarrow> in_buf a d (Suc n) \<longleftrightarrow> a = d + of_nat n \<or> in_buf a d n"
proof -
  assume n: "n < 2 ^ 64"
  have "unat (of_nat n :: u64) = n" using n by (simp add: unsigned_of_nat take_bit_eq_mod)
  then have "unat (a - d) = n \<longleftrightarrow> a - d = of_nat n"
    by (metis word_unat_eq_iff)
  also have "\<dots> \<longleftrightarrow> a = d + of_nat n"
    by (metis add.commute diff_add_cancel add_diff_cancel_left')
  finally show ?thesis by (auto simp: in_buf_def less_Suc_eq)
qed

lemma in_buf_shift: "in_buf a d (Suc n) \<longleftrightarrow> a = d \<or> in_buf a (d + 1) n"
proof (cases "a = d")
  case False
  then have "a - d \<noteq> 0" by simp
  then have "unat (a - d) \<noteq> 0" "unat (a - (d + 1)) = unat (a - d) - 1"
    using unat_minus_one [of "a - d"] by (auto simp: algebra_simps unat_eq_zero)
  with False show ?thesis by (auto simp: in_buf_def)
qed (simp add: in_buf_def)

text \<open>The bytes of the page at \<open>p\<close> are the addresses that round down to \<open>p\<close>.\<close>

lemma in_page_iff:
  assumes "page_aligned p"
  shows "in_buf a p 4096 \<longleftrightarrow> PGROUNDDOWN a = p"
proof
  assume "PGROUNDDOWN a = p"
  then show "in_buf a p 4096"
    using unat_page_offset [of a] by (simp add: in_buf_def)
next
  assume "in_buf a p 4096"
  then have k: "unat (a - p) < 4096" by (simp add: in_buf_def)
  obtain q where q: "unat p = 4096 * q"
    using assms by (auto simp: page_aligned_unat mod_eq_0_iff_dvd elim!: dvdE)
  have "unat p < 4096 * 4503599627370496" using unsigned_less [of p] by simp
  then have "q < 4503599627370496" unfolding q by simp
  then have "unat p + unat (a - p) < 2 ^ 64" using k q by simp
  then have "unat (p + (a - p)) = unat p + unat (a - p)"
    by (simp only: unat_word_ariths mod_less len_of_numeral_defs) simp
  then have "unat a = 4096 * q + unat (a - p)" by (simp add: q)
  then have "unat a div 4096 = q" using k by simp
  then have "unat (PGROUNDDOWN a) = unat p" by (simp add: unat_PGROUNDDOWN q)
  then show "PGROUNDDOWN a = p" by (simp add: word_unat_eq_iff)
qed

lemma in_page_self: "page_aligned p \<Longrightarrow> i < 4096 \<Longrightarrow> PGROUNDDOWN (p + i) = p"
  using in_page_iff [of p "p + i"] by (simp add: in_buf_def word_less_nat_alt)

lemma pages_disjoint:
  "page_aligned p \<Longrightarrow> page_aligned q \<Longrightarrow> p \<noteq> q \<Longrightarrow> i < 4096 \<Longrightarrow> \<not> in_buf (p + i) q 4096"
  by (simp add: in_page_iff in_page_self)

lemma load64_same_page:
  assumes "\<And>a. PGROUNDDOWN a = p \<Longrightarrow> m a = m' a" "page_aligned p" "i + 7 < 4096" "i \<le> i + 7"
  shows "load64 m (p + i) = load64 m' (p + i)"
proof (rule load64_cong)
  fix j :: u64 assume "j < 8"
  then have "i + j < 4096" using assms(3,4) by unat_arith
  then have "PGROUNDDOWN (p + (i + j)) = p" using assms(2) by (simp add: in_page_self)
  then show "m (p + i + j) = m' (p + i + j)" using assms(1) by (simp add: add.assoc)
qed

lemma store64_page:
  assumes "page_aligned p" "i + 7 < 4096" "i \<le> i + 7" "PGROUNDDOWN a \<noteq> p"
  shows "store64 m (p + i) v a = m a"
proof -
  have "\<not> a - (p + i) < 8"
  proof
    assume l: "a - (p + i) < 8"
    define j where "j = a - (p + i)"
    then have "a = p + (i + j)" by simp
    moreover have "j < 8" unfolding j_def by (rule l)
    then have "i + j < 4096" using assms(2,3) by unat_arith
    ultimately have "PGROUNDDOWN a = p" using assms(1) by (simp add: in_page_self)
    with assms(4) show False by simp
  qed
  then show ?thesis by (simp add: store64_def)
qed

lemma aligned8_page: "page_aligned p \<Longrightarrow> aligned8 p"
proof -
  assume "page_aligned p"
  then obtain q where "unat p = 4096 * q"
    by (auto simp: page_aligned_unat mod_eq_0_iff_dvd elim!: dvdE)
  then have "unat p = 8 * (512 * q)" by simp
  then show ?thesis by (simp add: aligned8_def)
qed

end
