(* ===== verification/Cstring.thy ===== *)
theory Cstring
  imports Memory
begin

text \<open>
  The byte and string routines of kernel/string.c, over the physical memory of the machine.
  The loops keep the source's order of accesses, so overlapping buffers behave as in C. A byte
  is an 8-bit word, as \<open>uchar\<close> is; plain \<open>char\<close> is unsigned on RISC-V too.
\<close>

section \<open>The routines\<close>

primrec memset_n :: "mem \<Rightarrow> u64 \<Rightarrow> u8 \<Rightarrow> nat \<Rightarrow> mem" where
  "memset_n m dst c 0 = m"
| "memset_n m dst c (Suc i) = (memset_n m dst c i)(dst + of_nat i := c)"

definition memset :: "mem \<Rightarrow> u64 \<Rightarrow> u8 \<Rightarrow> u32 \<Rightarrow> mem" where
  "memset m dst c n = memset_n m dst c (unat n)"

fun memcmp_n :: "mem \<Rightarrow> u64 \<Rightarrow> u64 \<Rightarrow> nat \<Rightarrow> int" where
  "memcmp_n m s1 s2 0 = 0"
| "memcmp_n m s1 s2 (Suc n) =
     (if m s1 \<noteq> m s2 then uint (m s1) - uint (m s2) else memcmp_n m (s1 + 1) (s2 + 1) n)"

definition memcmp :: "mem \<Rightarrow> u64 \<Rightarrow> u64 \<Rightarrow> u32 \<Rightarrow> int" where
  "memcmp m v1 v2 n = memcmp_n m v1 v2 (unat n)"

fun memmove_fwd :: "mem \<Rightarrow> u64 \<Rightarrow> u64 \<Rightarrow> nat \<Rightarrow> mem" where
  "memmove_fwd m d s 0 = m"
| "memmove_fwd m d s (Suc n) = memmove_fwd (m(d := m s)) (d + 1) (s + 1) n"

fun memmove_bwd :: "mem \<Rightarrow> u64 \<Rightarrow> u64 \<Rightarrow> nat \<Rightarrow> mem" where
  "memmove_bwd m d s 0 = m"
| "memmove_bwd m d s (Suc n) = memmove_bwd (m(d - 1 := m (s - 1))) (d - 1) (s - 1) n"

definition memmove :: "mem \<Rightarrow> u64 \<Rightarrow> u64 \<Rightarrow> u32 \<Rightarrow> mem" where
  "memmove m dst src n =
     (if n = 0 then m
      else if src < dst \<and> src + ucast n > dst
           then memmove_bwd m (dst + ucast n) (src + ucast n) (unat n)
           else memmove_fwd m dst src (unat n))"

definition memcpy :: "mem \<Rightarrow> u64 \<Rightarrow> u64 \<Rightarrow> u32 \<Rightarrow> mem" where
  "memcpy m dst src n = memmove m dst src n"

fun strncmp_n :: "mem \<Rightarrow> u64 \<Rightarrow> u64 \<Rightarrow> nat \<Rightarrow> int" where
  "strncmp_n m p q 0 = 0"
| "strncmp_n m p q (Suc n) =
     (if m p \<noteq> 0 \<and> m p = m q then strncmp_n m (p + 1) (q + 1) n
      else uint (m p) - uint (m q))"

definition strncmp :: "mem \<Rightarrow> u64 \<Rightarrow> u64 \<Rightarrow> u32 \<Rightarrow> int" where
  "strncmp m p q n = strncmp_n m p q (unat n)"

fun strncpy_pad :: "mem \<Rightarrow> u64 \<Rightarrow> nat \<Rightarrow> mem" where
  "strncpy_pad m s 0 = m"
| "strncpy_pad m s (Suc n) = strncpy_pad (m(s := 0)) (s + 1) n"

fun strncpy_n :: "mem \<Rightarrow> u64 \<Rightarrow> u64 \<Rightarrow> nat \<Rightarrow> mem" where
  "strncpy_n m s t 0 = m"
| "strncpy_n m s t (Suc n) =
     (let c = m t; m' = m(s := c)
      in if c \<noteq> 0 then strncpy_n m' (s + 1) (t + 1) n else strncpy_pad m' (s + 1) n)"

definition strncpy :: "mem \<Rightarrow> u64 \<Rightarrow> u64 \<Rightarrow> int \<Rightarrow> mem" where
  "strncpy m s t n = strncpy_n m s t (nat n)"

fun safestrcpy_n :: "mem \<Rightarrow> u64 \<Rightarrow> u64 \<Rightarrow> nat \<Rightarrow> mem" where
  "safestrcpy_n m s t 0 = m(s := 0)"
| "safestrcpy_n m s t (Suc n) =
     (let c = m t; m' = m(s := c)
      in if c \<noteq> 0 then safestrcpy_n m' (s + 1) (t + 1) n else m'(s + 1 := 0))"

definition safestrcpy :: "mem \<Rightarrow> u64 \<Rightarrow> u64 \<Rightarrow> int \<Rightarrow> mem" where
  "safestrcpy m s t n = (if n \<le> 0 then m else safestrcpy_n m s t (nat (n - 1)))"

partial_function (option) strlen_from :: "mem \<Rightarrow> u64 \<Rightarrow> nat \<Rightarrow> nat option" where
  "strlen_from m s n = (if m (s + of_nat n) = 0 then Some n else strlen_from m s (Suc n))"

definition strlen :: "mem \<Rightarrow> u64 \<Rightarrow> nat option" where
  "strlen m s = strlen_from m s 0"

section \<open>What they do\<close>

lemma memset_n_eq:
  "n \<le> 2 ^ 64 \<Longrightarrow> memset_n m d c n = (\<lambda>a. if in_buf a d n then c else m a)"
  by (induction n) (auto simp: in_buf_Suc fun_eq_iff)

lemma memset_eq: "memset m d c n = (\<lambda>a. if in_buf a d (unat n) then c else m a)"
  using unsigned_less [of n, where ?'a = nat] by (simp add: memset_def memset_n_eq)

lemma memmove_fwd_eq:
  assumes "unat s + n \<le> 2 ^ 64" "unat d + n \<le> 2 ^ 64" "unat d \<le> unat s \<or> unat s + n \<le> unat d"
  shows "memmove_fwd m d s n = (\<lambda>a. if in_buf a d n then m (s + (a - d)) else m a)"
  using assms
proof (induction n arbitrary: m d s)
  case 0
  then show ?case by simp
next
  case (Suc n)
  show ?case
  proof (cases "n = 0")
    case True
    then show ?thesis by (auto simp: in_buf_shift)
  next
    case False
    then have s1: "unat (s + 1) = Suc (unat s)" and d1: "unat (d + 1) = Suc (unat d)"
      using Suc.prems by (auto simp: unat_word_ariths)
    let ?m = "m(d := m s)"
    have IH: "memmove_fwd ?m (d + 1) (s + 1) n =
        (\<lambda>a. if in_buf a (d + 1) n then ?m (s + 1 + (a - (d + 1))) else ?m a)"
      by (rule Suc.IH) (use Suc.prems s1 d1 in auto)
    have ne: "s + (a - d) \<noteq> d" if "in_buf a (d + 1) n" "a \<noteq> d" for a
    proof -
      have k: "unat (a - d) < Suc n" "unat (a - d) \<noteq> 0"
        using that in_buf_shift [of a d n] by (auto simp: in_buf_def unat_eq_zero)
      then have "unat (s + (a - d)) = unat s + unat (a - d)"
        using Suc.prems by (simp add: unat_word_ariths)
      with k Suc.prems(3) have "unat (s + (a - d)) \<noteq> unat d" by auto
      then show ?thesis by metis
    qed
    have "unat (- 1 :: u64) = 2 ^ 64 - 1" by (simp add: unsigned_minus_1_eq_mask mask_eq_exp_minus_1)
    then have "\<not> in_buf d (d + 1) n"
      using Suc.prems False by (simp add: in_buf_def)
    moreover have "s + 1 + (a - (d + 1)) = s + (a - d)" for a by simp
    ultimately show ?thesis
      using ne by (auto simp: IH in_buf_shift fun_eq_iff)
  qed
qed

lemma memmove_bwd_eq:
  assumes "unat s + n \<le> 2 ^ 64" "unat d + n \<le> 2 ^ 64" "unat s \<le> unat d"
  shows "memmove_bwd m (d + of_nat n) (s + of_nat n) n =
           (\<lambda>a. if in_buf a d n then m (s + (a - d)) else m a)"
  using assms
proof (induction n arbitrary: m)
  case 0
  then show ?case by simp
next
  case (Suc n)
  let ?m = "m(d + of_nat n := m (s + of_nat n))"
  have IH: "memmove_bwd ?m (d + of_nat n) (s + of_nat n) n =
      (\<lambda>a. if in_buf a d n then ?m (s + (a - d)) else ?m a)"
    by (rule Suc.IH) (use Suc.prems in auto)
  have nn: "unat (d + of_nat n) = unat d + n"
    using Suc.prems by (simp add: unat_word_ariths unsigned_of_nat take_bit_eq_mod)
  have ne: "s + (a - d) \<noteq> d + of_nat n" if "in_buf a d n" for a
  proof -
    have "unat (s + (a - d)) = unat s + unat (a - d)"
      using Suc.prems that by (simp add: unat_word_ariths in_buf_def)
    then have "unat (s + (a - d)) < unat (d + of_nat n)"
      using Suc.prems(3) that by (simp add: nn in_buf_def)
    then show ?thesis by (metis less_irrefl)
  qed
  have "n < 2 ^ 64" using Suc.prems by simp
  then show ?case
    using ne by (auto simp: IH in_buf_Suc fun_eq_iff algebra_simps)
qed

text \<open>
  \<open>memmove\<close> copies \<open>n\<close> bytes as if through a temporary buffer, whatever the overlap of source
  and destination: every byte of the destination gets the byte the source held before the call,
  and no other byte changes.
\<close>

lemma memmove_eq:
  assumes "unat src + unat n < 2 ^ 64" "unat dst + unat n < 2 ^ 64"
  shows "memmove m dst src n =
           (\<lambda>a. if in_buf a dst (unat n) then m (src + (a - dst)) else m a)"
proof (cases "n = 0")
  case True
  then show ?thesis by (simp add: memmove_def)
next
  case False
  have n64: "ucast n = (of_nat (unat n) :: u64)" by simp
  have srcn: "unat (src + ucast n) = unat src + unat n"
    using assms(1) by (simp add: unat_word_ariths unsigned_ucast_eq take_bit_eq_mod)
  show ?thesis
  proof (cases "src < dst \<and> src + ucast n > dst")
    case True
    then have "memmove m dst src n = memmove_bwd m (dst + of_nat (unat n)) (src + of_nat (unat n)) (unat n)"
      using False by (simp add: memmove_def)
    also have "\<dots> = (\<lambda>a. if in_buf a dst (unat n) then m (src + (a - dst)) else m a)"
      by (rule memmove_bwd_eq) (use assms True in \<open>auto simp: word_less_nat_alt\<close>)
    finally show ?thesis .
  next
    case nobwd: False
    then have "memmove m dst src n = memmove_fwd m dst src (unat n)"
      using False by (auto simp: memmove_def)
    also have "\<dots> = (\<lambda>a. if in_buf a dst (unat n) then m (src + (a - dst)) else m a)"
      by (rule memmove_fwd_eq) (use assms nobwd srcn in \<open>auto simp: word_less_nat_alt\<close>)
    finally show ?thesis .
  qed
qed

subsection \<open>Strings\<close>

text \<open>\<open>cstr m s bs\<close>: the NUL-terminated string at \<open>s\<close> is \<open>bs\<close>.\<close>

fun cstr :: "mem \<Rightarrow> u64 \<Rightarrow> u8 list \<Rightarrow> bool" where
  "cstr m s [] = (m s = 0)"
| "cstr m s (b # bs) = (b \<noteq> 0 \<and> m s = b \<and> cstr m (s + 1) bs)"

lemma strlen_from_cstr:
  "cstr m (s + of_nat k) bs \<Longrightarrow> strlen_from m s k = Some (k + length bs)"
proof (induction bs arbitrary: k)
  case Nil
  then show ?case by (simp add: strlen_from.simps)
next
  case (Cons b bs)
  then have "cstr m (s + of_nat (Suc k)) bs" by (simp add: ac_simps)
  with Cons show ?case by (simp add: strlen_from.simps [of m s k])
qed

lemma strlen_cstr: "cstr m s bs \<Longrightarrow> strlen m s = Some (length bs)"
  using strlen_from_cstr [of m s 0 bs] by (simp add: strlen_def)

lemma strncmp_n_cstr:
  assumes "cstr m p bs" "cstr m q cs"
  shows "strncmp_n m p q n = 0 \<longleftrightarrow> take n bs = take n cs"
  using assms
proof (induction n arbitrary: p q bs cs)
  case 0
  then show ?case by simp
next
  case (Suc n)
  show ?case
  proof (cases bs; cases cs)
    fix b bs' c cs' assume "bs = b # bs'" "cs = c # cs'"
    with Suc show ?thesis by (auto simp: word_uint_eq_iff)
  qed (use Suc.prems in \<open>auto simp: unsigned_eq_0_iff\<close>)
qed

lemma safestrcpy_n_frame: "n < 2 ^ 64 - 1 \<Longrightarrow> \<not> in_buf a s (Suc n) \<Longrightarrow> safestrcpy_n m s t n a = m a"
  by (induction n arbitrary: m s t) (auto simp: Let_def in_buf_shift)

section \<open>Properties\<close>

text \<open>
  C16. \<open>memmove\<close> copies as if through a temporary buffer, whatever the overlap of source and
  destination: byte \<open>i\<close> of the destination is byte \<open>i\<close> of the old source, and no byte outside
  the destination changes.
\<close>

theorem memmove_correct:
  assumes "unat src + unat n < 2 ^ 64" "unat dst + unat n < 2 ^ 64"
  shows "(\<forall>i. i < ucast n \<longrightarrow> memmove m dst src n (dst + i) = m (src + i)) \<and>
         (\<forall>a. \<not> in_buf a dst (unat n) \<longrightarrow> memmove m dst src n a = m a)"
proof -
  have "unat (ucast n :: u64) = unat n"
    using unsigned_less [of n, where ?'a = nat] by (simp add: unsigned_ucast_eq take_bit_eq_mod)
  then have "in_buf (dst + i) dst (unat n)" if "i < ucast n" for i
    using that by (simp add: in_buf_def word_less_nat_alt)
  then show ?thesis by (simp add: memmove_eq [OF assms])
qed

theorem memmove_correct_witness:
  "memmove (\<lambda>a. ucast a) 101 100 3 103 = 102 \<and> memmove (\<lambda>a. ucast a) 101 100 3 100 = 100"
proof -
  have h: "unat (100 :: u64) + unat (3 :: u32) < 2 ^ 64" "unat (101 :: u64) + unat (3 :: u32) < 2 ^ 64"
    by simp_all
  note c = memmove_correct [OF h, of "\<lambda>a. ucast a"]
  have "memmove (\<lambda>a. ucast a) 101 100 3 (101 + 2) = ucast (100 + 2 :: u64)"
    using c by (intro mp [OF spec [OF conjunct1 [OF c]]]) simp
  moreover have "memmove (\<lambda>a. ucast a) 101 100 3 100 = ucast (100 :: u64)"
    by (intro mp [OF spec [OF conjunct2 [OF c]]])
      (simp add: in_buf_def unsigned_minus_1_eq_mask mask_eq_exp_minus_1)
  ultimately show ?thesis by simp
qed

text \<open>
  C17. \<open>safestrcpy\<close> into a buffer of \<open>n > 0\<close> bytes writes no byte outside the buffer and leaves a NUL
  inside it, whatever the source holds.
\<close>

theorem safestrcpy_bounded:
  assumes "0 < n" "n < 2 ^ 31"
  shows "(\<forall>a. \<not> in_buf a s (nat n) \<longrightarrow> safestrcpy m s t n a = m a) \<and>
         (\<exists>i < nat n. safestrcpy m s t n (s + of_nat i) = 0)"
proof -
  define k where "k = nat n - 1"
  have k: "nat n = Suc k" using assms(1) by (simp add: k_def)
  have k31: "k < 2 ^ 31" using assms by (simp add: k_def)
  have eq: "safestrcpy m s t n = safestrcpy_n m s t k"
    using assms k by (simp add: safestrcpy_def nat_diff_distrib)
  have nul: "\<exists>i < Suc j. safestrcpy_n m s t j (s + of_nat i) = 0" if "j < 2 ^ 31" for j m s t
    using that
  proof (induction j arbitrary: m s t)
    case 0
    then show ?case by auto
  next
    case (Suc j)
    show ?case
    proof (cases "m t = 0")
      case True
      then show ?thesis by (intro exI [of _ 0]) simp
    next
      case False
      obtain i where "i < Suc j" "safestrcpy_n (m(s := m t)) (s + 1) (t + 1) j (s + 1 + of_nat i) = 0"
        using Suc.IH [OF Suc_lessD [OF Suc.prems], of "m(s := m t)" "s + 1" "t + 1"] by blast
      with False show ?thesis
        by (intro exI [of _ "Suc i"]) (simp add: ac_simps)
    qed
  qed
  show ?thesis
    using safestrcpy_n_frame [of k] nul [OF k31] k31 unfolding eq k by auto
qed

theorem safestrcpy_bounded_witness:
  "(\<exists>i < nat 16. safestrcpy (\<lambda>_. 65) 1000 2000 16 (1000 + of_nat i) = 0) \<and>
   safestrcpy (\<lambda>_. 65) 1000 2000 16 1016 = 65"
proof -
  have h: "(0 :: int) < 16" "(16 :: int) < 2 ^ 31" by simp_all
  note c = safestrcpy_bounded [OF h, of 1000 "\<lambda>_. 65" 2000]
  have "safestrcpy (\<lambda>_. 65) 1000 2000 16 1016 = 65"
    using conjunct1 [OF c] by (intro mp [OF spec [OF conjunct1 [OF c]]]) (simp add: in_buf_def)
  with conjunct2 [OF c] show ?thesis by blast
qed

end
