(* ===== verification/Kalloc.thy ===== *)
theory Kalloc
  imports Cstring
begin

text \<open>
  The physical page allocator, kernel/kalloc.c. Free pages form a linked list whose links are
  stored in the first eight bytes of the free pages themselves; the list is followed through
  physical memory, as in the source. Each routine is one critical section under
  \<open>kmem.lock\<close>. \<open>kend\<close> is the linker symbol \<open>end\<close>, the first address after the kernel image:
  a field that no routine changes.
\<close>

section \<open>State and operations\<close>

record kmem =
  phys :: mem
  freelist :: u64
  kend :: u64

definition kfree :: "'a kmem_scheme \<Rightarrow> u64 \<Rightarrow> (unit, 'a kmem_scheme) run" where
  "kfree s pa =
     (if pa mod PGSIZE \<noteq> 0 \<or> pa < kend s \<or> pa \<ge> PHYSTOP then Panic ''kfree''
      else
        let m = memset (phys s) pa 1 (ucast PGSIZE);
            m' = store64 m pa (freelist s)
        in Ret () (s\<lparr>phys := m', freelist := pa\<rparr>))"

definition kalloc :: "'a kmem_scheme \<Rightarrow> (u64, 'a kmem_scheme) run" where
  "kalloc s =
     (let r = freelist s;
          s1 = (if r \<noteq> 0 then s\<lparr>freelist := load64 (phys s) r\<rparr> else s);
          s2 = (if r \<noteq> 0 then s1\<lparr>phys := memset (phys s1) r 5 (ucast PGSIZE)\<rparr> else s1)
      in Ret r s2)"

text \<open>The bound on the rounds is the number of pages in the address space.\<close>

definition freerange :: "'a kmem_scheme \<Rightarrow> u64 \<Rightarrow> u64 \<Rightarrow> (unit, 'a kmem_scheme) run" where
  "freerange s pa_start pa_end =
     loop (2 ^ 52)
       (\<lambda>p s. if p + PGSIZE \<le> pa_end
              then bnd (kfree s p) (\<lambda>_ s. Ret (Inl (p + PGSIZE)) s)
              else Ret (Inr ()) s)
       (PGROUNDUP pa_start) s"

definition kinit :: "'a kmem_scheme \<Rightarrow> (unit, 'a kmem_scheme) run" where
  "kinit s = freerange s (kend s) PHYSTOP"

section \<open>The free list as a list of pages\<close>

fun flist :: "mem \<Rightarrow> u64 \<Rightarrow> u64 list \<Rightarrow> bool" where
  "flist m p [] \<longleftrightarrow> p = 0"
| "flist m p (q # qs) \<longleftrightarrow> p = q \<and> q \<noteq> 0 \<and> flist m (load64 m q) qs"

definition in_pool :: "'a kmem_scheme \<Rightarrow> u64 \<Rightarrow> bool" where
  "in_pool s p \<longleftrightarrow> page_aligned p \<and> kend s \<le> p \<and> p < PHYSTOP \<and> p \<noteq> 0"

definition free_pages :: "'a kmem_scheme \<Rightarrow> u64 list \<Rightarrow> bool" where
  "free_pages s ps \<longleftrightarrow>
     flist (phys s) (freelist s) ps \<and> distinct ps \<and> (\<forall>p \<in> set ps. in_pool s p)"

lemma flist_frame:
  assumes "\<And>q a. q \<in> set ps \<Longrightarrow> PGROUNDDOWN a = q \<Longrightarrow> m' a = m a"
    and "\<And>q. q \<in> set ps \<Longrightarrow> page_aligned q"
  shows "flist m p ps = flist m' p ps"
  using assms
proof (induction ps arbitrary: p)
  case Nil
  then show ?case by simp
next
  case (Cons q qs)
  have "load64 m' (q + 0) = load64 m (q + 0)"
    by (rule load64_same_page [where p = q]) (use Cons.prems in auto)
  moreover have "flist m x qs = flist m' x qs" for x
    by (rule Cons.IH) (use Cons.prems in auto)
  ultimately show ?case by simp
qed

lemma flist_unique: "flist m p ps \<Longrightarrow> flist m p qs \<Longrightarrow> ps = qs"
proof (induction ps arbitrary: p qs)
  case Nil
  then show ?case by (cases qs) auto
next
  case (Cons a ps)
  then show ?case by (cases qs) auto
qed

lemma memset_page:
  assumes "page_aligned p"
  shows "memset m p c (ucast PGSIZE) = (\<lambda>a. if PGROUNDDOWN a = p then c else m a)"
proof -
  have "unat (ucast PGSIZE :: u32) = 4096" by (simp add: params)
  then show ?thesis using assms by (simp add: memset_eq in_page_iff)
qed

lemma store64_page_start: "page_aligned p \<Longrightarrow> PGROUNDDOWN a \<noteq> p \<Longrightarrow> store64 m p v a = m a"
  using store64_page [of p 0 a m v] by simp

section \<open>The allocator's contract\<close>

text \<open>
  What the rest of the kernel may assume of the allocator: an abstract list of free pages, taken
  from and put back at its head, and no effect on memory outside the page concerned.
\<close>

locale page_allocator =
  fixes alloc :: "'s \<Rightarrow> (u64, 's) run"
    and release :: "'s \<Rightarrow> u64 \<Rightarrow> (unit, 's) run"
    and memory :: "'s \<Rightarrow> mem"
    and free_list :: "'s \<Rightarrow> u64 list \<Rightarrow> bool"
    and pool :: "'s \<Rightarrow> u64 \<Rightarrow> bool"
  assumes alloc_empty: "free_list s [] \<Longrightarrow> alloc s = Ret 0 s"
    and alloc_page: "free_list s (p # ps) \<Longrightarrow>
      \<exists>t. alloc s = Ret p t \<and> free_list t ps \<and> p \<notin> set ps \<and> pool s p \<and> pool t = pool s \<and>
          (\<forall>a. PGROUNDDOWN a \<noteq> p \<longrightarrow> memory t a = memory s a)"
    and release_page: "free_list s ps \<Longrightarrow> pool s p \<Longrightarrow> p \<notin> set ps \<Longrightarrow>
      \<exists>t. release s p = Ret () t \<and> free_list t (p # ps) \<and> pool t = pool s \<and>
          (\<forall>a. PGROUNDDOWN a \<noteq> p \<longrightarrow> memory t a = memory s a)"
    and pool_page: "pool s p \<Longrightarrow> page_aligned p \<and> p \<noteq> 0"
    and free_pool: "free_list s ps \<Longrightarrow> distinct ps \<and> (\<forall>p \<in> set ps. pool s p)"
begin

text \<open>A page returned and taken again is the same page: the list is a stack.\<close>

lemma release_then_alloc:
  assumes "free_list s ps" "pool s p" "p \<notin> set ps"
  shows "returns (bnd (release s p) (\<lambda>_ t. alloc t)) (\<lambda>q t. q = p \<and> free_list t ps)"
proof -
  obtain t where t: "release s p = Ret () t" "free_list t (p # ps)"
    using release_page [OF assms] by blast
  obtain u where "alloc t = Ret p u" "free_list u ps"
    using alloc_page [OF t(2)] by blast
  with t show ?thesis by simp
qed

text \<open>Whatever the allocator hands out was free and is not free any more.\<close>

lemma alloc_fresh:
  assumes "free_list s ps"
  shows "returns (alloc s) (\<lambda>p t. (p = 0 \<and> ps = [] \<and> t = s) \<or>
    (p \<in> set ps \<and> pool t p \<and> (\<exists>qs. free_list t qs \<and> set qs = set ps - {p})))"
proof (cases ps)
  case Nil
  with assms show ?thesis by (simp add: alloc_empty)
next
  case (Cons p qs)
  with assms obtain t where t: "alloc s = Ret p t" "free_list t qs" "p \<notin> set qs" "pool s p" "pool t = pool s"
    using alloc_page [of s p qs] by blast
  with Cons show ?thesis by (auto intro!: exI [of _ qs])
qed

end

lemma kfree_ok:
  assumes "free_pages s ps" "in_pool s pa" "pa \<notin> set ps"
  shows "\<exists>t. kfree s pa = Ret () t \<and> free_pages t (pa # ps) \<and> in_pool t = in_pool s \<and>
      (\<forall>a. PGROUNDDOWN a \<noteq> pa \<longrightarrow> phys t a = phys s a)"
proof -
  let ?m = "store64 (memset (phys s) pa 1 (ucast PGSIZE)) pa (freelist s)"
  let ?t = "s\<lparr>phys := ?m, freelist := pa\<rparr>"
  have pa: "page_aligned pa" "pa mod PGSIZE = 0" "\<not> pa < kend s" "\<not> pa \<ge> PHYSTOP" "pa \<noteq> 0"
    using assms(2) by (auto simp: in_pool_def page_aligned_def)
  have keep: "?m a = phys s a" if "PGROUNDDOWN a \<noteq> pa" for a
    using pa(1) that by (simp add: store64_page_start memset_page)
  have "flist (phys s) (freelist s) ps" using assms(1) by (simp add: free_pages_def)
  moreover have "flist (phys s) (freelist s) ps = flist ?m (freelist s) ps"
  proof (rule flist_frame)
    fix q a assume "q \<in> set ps" "PGROUNDDOWN a = q"
    with assms(3) have "PGROUNDDOWN a \<noteq> pa" by auto
    then show "?m a = phys s a" by (rule keep)
  qed (use assms(1) in \<open>auto simp: free_pages_def in_pool_def\<close>)
  ultimately have "flist ?m pa (pa # ps)" using pa by simp
  moreover have "in_pool ?t = in_pool s" by (auto simp: in_pool_def fun_eq_iff)
  ultimately have "free_pages ?t (pa # ps)"
    using assms by (auto simp: free_pages_def)
  moreover have "kfree s pa = Ret () ?t" using pa by (simp add: kfree_def)
  ultimately show ?thesis using keep \<open>in_pool ?t = in_pool s\<close> by auto
qed

lemma kalloc_ok:
  assumes "free_pages s (p # ps)"
  shows "\<exists>t. kalloc s = Ret p t \<and> free_pages t ps \<and> p \<notin> set ps \<and> in_pool s p \<and> in_pool t = in_pool s \<and>
      (\<forall>a. PGROUNDDOWN a \<noteq> p \<longrightarrow> phys t a = phys s a)"
proof -
  let ?m = "memset (phys s) p 5 (ucast PGSIZE)"
  let ?t = "s\<lparr>phys := ?m, freelist := load64 (phys s) p\<rparr>"
  have p: "freelist s = p" "p \<noteq> 0" "in_pool s p" "p \<notin> set ps" "page_aligned p"
    using assms by (auto simp: free_pages_def in_pool_def)
  have keep: "?m a = phys s a" if "PGROUNDDOWN a \<noteq> p" for a
    using p that by (simp add: memset_page)
  have "flist (phys s) (load64 (phys s) p) ps = flist ?m (load64 (phys s) p) ps"
  proof (rule flist_frame)
    fix q a assume "q \<in> set ps" "PGROUNDDOWN a = q"
    with p(4) have "PGROUNDDOWN a \<noteq> p" by auto
    then show "?m a = phys s a" by (rule keep)
  qed (use assms in \<open>auto simp: free_pages_def in_pool_def\<close>)
  moreover have "in_pool ?t = in_pool s" by (auto simp: in_pool_def fun_eq_iff)
  ultimately have "free_pages ?t ps"
    using assms p by (auto simp: free_pages_def)
  moreover have "kalloc s = Ret p ?t" using p by (simp add: kalloc_def Let_def)
  ultimately show ?thesis using p keep \<open>in_pool ?t = in_pool s\<close> by auto
qed

lemma kalloc_empty: "free_pages s [] \<Longrightarrow> kalloc s = Ret 0 s"
  by (simp add: free_pages_def kalloc_def)

interpretation kmem: page_allocator kalloc kfree phys free_pages in_pool
proof
  fix s :: "'a kmem_scheme" and p ps
  show "free_pages s [] \<Longrightarrow> kalloc s = Ret 0 s" by (rule kalloc_empty)
  show "free_pages s (p # ps) \<Longrightarrow> \<exists>t. kalloc s = Ret p t \<and> free_pages t ps \<and> p \<notin> set ps \<and>
      in_pool s p \<and> in_pool t = in_pool s \<and> (\<forall>a. PGROUNDDOWN a \<noteq> p \<longrightarrow> phys t a = phys s a)"
    by (rule kalloc_ok)
  show "free_pages s ps \<Longrightarrow> in_pool s p \<Longrightarrow> p \<notin> set ps \<Longrightarrow> \<exists>t. kfree s p = Ret () t \<and>
      free_pages t (p # ps) \<and> in_pool t = in_pool s \<and> (\<forall>a. PGROUNDDOWN a \<noteq> p \<longrightarrow> phys t a = phys s a)"
    by (rule kfree_ok)
  show "in_pool s p \<Longrightarrow> page_aligned p \<and> p \<noteq> 0" by (simp add: in_pool_def)
  show "free_pages s ps \<Longrightarrow> distinct ps \<and> (\<forall>p \<in> set ps. in_pool s p)" by (simp add: free_pages_def)
qed

section \<open>Initialisation\<close>

lemma kfree_kend: "kfree s pa = Ret u t \<Longrightarrow> kend t = kend s"
  by (auto simp: kfree_def Let_def split: if_splits)

lemma page_step:
  assumes "page_aligned p" "p + PGSIZE \<le> PHYSTOP" "p < PHYSTOP"
  shows "page_aligned (p + PGSIZE)" "unat (p + PGSIZE) = unat p + 4096"
    "q < p + PGSIZE \<and> page_aligned q \<longleftrightarrow> (q < p \<and> page_aligned q) \<or> q = p"
proof -
  have lt: "unat p < 2281701376" using assms(3) by (simp add: params word_less_nat_alt)
  then show n: "unat (p + PGSIZE) = unat p + 4096" by (simp add: params unat_word_ariths)
  show "page_aligned (p + PGSIZE)" using assms(1) n by (simp add: page_aligned_unat)
  obtain k where k: "unat p = 4096 * k"
    using assms(1) by (auto simp: page_aligned_unat mod_eq_0_iff_dvd elim!: dvdE)
  show "q < p + PGSIZE \<and> page_aligned q \<longleftrightarrow> (q < p \<and> page_aligned q) \<or> q = p"
  proof
    assume q: "q < p + PGSIZE \<and> page_aligned q"
    then obtain j where j: "unat q = 4096 * j"
      by (auto simp: page_aligned_unat mod_eq_0_iff_dvd elim!: dvdE)
    have "unat q < unat p + 4096" using q n by (simp add: word_less_nat_alt)
    then have "j \<le> k" unfolding j k by simp
    then show "(q < p \<and> page_aligned q) \<or> q = p"
      using q j k by (cases "j = k") (auto simp: word_less_nat_alt word_unat_eq_iff)
  qed (use assms(1) n in \<open>auto simp: word_less_nat_alt\<close>)
qed

lemma freerange_spec:
  fixes s :: "'a kmem_scheme"
  assumes "freelist s = 0" "0 < kend s" "kend s \<le> PHYSTOP"
  shows "returns (freerange s (kend s) PHYSTOP)
    (\<lambda>_ t. (\<exists>ps. free_pages t ps \<and> set ps = {p. in_pool s p}) \<and> kend t = kend s)"
proof -
  let ?k = "kend s"
  define I where "I p t \<longleftrightarrow> (\<exists>ps. free_pages t ps \<and> set ps = {q. page_aligned q \<and> ?k \<le> q \<and> q < p})
      \<and> page_aligned p \<and> ?k \<le> p \<and> p \<le> PHYSTOP \<and> kend t = ?k" for p and t :: "'a kmem_scheme"
  have kl: "unat ?k \<le> 2281701376" using assms(3) by (simp add: params word_le_nat_alt)
  then have up: "unat (PGROUNDUP ?k) = (unat ?k + 4095) div 4096 * 4096"
    by (intro unat_PGROUNDUP) simp
  have le: "(unat ?k + 4095) div 4096 * 4096 \<le> 2281701376" using kl by simp
  have none: "\<not> (page_aligned q \<and> ?k \<le> q \<and> q < PGROUNDUP ?k)" for q
  proof
    assume q: "page_aligned q \<and> ?k \<le> q \<and> q < PGROUNDUP ?k"
    then obtain j where j: "unat q = 4096 * j"
      by (auto simp: page_aligned_unat mod_eq_0_iff_dvd elim!: dvdE)
    have "unat ?k \<le> 4096 * j" "4096 * j < (unat ?k + 4095) div 4096 * 4096"
      using q up by (simp_all add: word_le_nat_alt word_less_nat_alt j)
    then show False by simp
  qed
  have ge: "?k \<le> PGROUNDUP ?k"
    using up by (simp add: word_le_nat_alt)
  have I0: "I (PGROUNDUP ?k) s"
    unfolding I_def using assms none le up ge
    by (auto simp: free_pages_def params word_le_nat_alt intro!: exI [of _ "[]"])
  show ?thesis
    unfolding freerange_def
  proof (rule loop_returns [where I = I and \<mu> = "\<lambda>p t. 2281701376 - unat p"], rule I0)
    fix p and t :: "'a kmem_scheme" assume I: "I p t"
    then obtain ps where ps: "free_pages t ps" "set ps = {q. page_aligned q \<and> ?k \<le> q \<and> q < p}"
      and p: "page_aligned p" "?k \<le> p" "p \<le> PHYSTOP" "kend t = ?k" by (auto simp: I_def)
    show "returns (if p + PGSIZE \<le> PHYSTOP then bnd (kfree t p) (\<lambda>_ s. Ret (Inl (p + PGSIZE)) s) else Ret (Inr ()) t)
      (\<lambda>r u. case r of Inl l' \<Rightarrow> I l' u \<and> 2281701376 - unat l' < 2281701376 - unat p
        | Inr x \<Rightarrow> (\<exists>ps. free_pages u ps \<and> set ps = {q. in_pool s q}) \<and> kend u = ?k)"
    proof (cases "p + PGSIZE \<le> PHYSTOP")
      case True
      have "p \<noteq> PHYSTOP" using True by (auto simp: params)
      with p have lt: "p < PHYSTOP" by simp
      have "p \<noteq> 0" using assms(2) p(2) by auto
      with lt p have "in_pool t p" by (simp add: in_pool_def)
      moreover have "p \<notin> set ps" using ps by auto
      ultimately obtain u where u: "kfree t p = Ret () u" "free_pages u (p # ps)"
        using kfree_ok ps(1) by blast
      have "set (p # ps) = {q. page_aligned q \<and> ?k \<le> q \<and> q < p + PGSIZE}"
        using page_step(3) [OF p(1) True lt] ps(2) p by auto
      then have "I (p + PGSIZE) u"
        unfolding I_def using u p True page_step [OF p(1) True lt] kfree_kend [OF u(1)]
        by (auto simp: word_le_nat_alt)
      moreover have "2281701376 - unat (p + PGSIZE) < 2281701376 - unat p"
        using page_step(2) [OF p(1) True lt] lt by (simp add: params word_less_nat_alt)
      ultimately show ?thesis using True u by simp
    next
      case False
      have "p = PHYSTOP"
      proof (rule ccontr)
        assume "p \<noteq> PHYSTOP"
        with p(3) have "unat p < 2281701376" by (simp add: params word_le_nat_alt word_unat_eq_iff)
        moreover obtain j where "unat p = 4096 * j"
          using p(1) by (auto simp: page_aligned_unat mod_eq_0_iff_dvd elim!: dvdE)
        ultimately have "unat p + 4096 \<le> 2281701376" by simp
        with False show False by (simp add: params word_le_nat_alt unat_word_ariths)
      qed
      moreover have "q \<noteq> 0" if "?k \<le> q" for q using assms(2) that by auto
      ultimately have "set ps = {q. in_pool s q}" unfolding ps(2) in_pool_def by blast
      with False ps(1) p(4) show ?thesis by auto
    qed
  qed simp
qed

section \<open>Every run of the allocator\<close>

text \<open>
  The states reached from boot when the kernel takes pages, gives back pages it holds and writes
  to pages it holds, in any order. The set argument holds the pages handed out and not yet
  returned.
\<close>

inductive kmem_reach :: "'a kmem_scheme \<Rightarrow> 'a kmem_scheme \<Rightarrow> u64 set \<Rightarrow> bool" for s0 where
  boot: "kinit s0 = Ret () s \<Longrightarrow> kmem_reach s0 s {}"
| take: "kmem_reach s0 s A \<Longrightarrow> kalloc s = Ret p t \<Longrightarrow> p \<noteq> 0 \<Longrightarrow> kmem_reach s0 t (insert p A)"
| give: "kmem_reach s0 s A \<Longrightarrow> p \<in> A \<Longrightarrow> kfree s p = Ret () t \<Longrightarrow> kmem_reach s0 t (A - {p})"
| use: "kmem_reach s0 s A \<Longrightarrow> PGROUNDDOWN a \<in> A \<Longrightarrow>
    kmem_reach s0 (s\<lparr>phys := (phys s)(a := v)\<rparr>) A"

lemma free_pages_mem:
  assumes "free_pages s ps" "\<And>a. PGROUNDDOWN a \<in> set ps \<Longrightarrow> m a = phys s a"
  shows "free_pages (s\<lparr>phys := m\<rparr>) ps"
proof -
  have "flist (phys s) (freelist s) ps = flist m (freelist s) ps"
    by (rule flist_frame) (use assms in \<open>auto simp: free_pages_def in_pool_def\<close>)
  with assms(1) show ?thesis by (auto simp: free_pages_def in_pool_def)
qed

lemma free_pages_write:
  assumes "free_pages s ps" "PGROUNDDOWN a \<notin> set ps"
  shows "free_pages (s\<lparr>phys := (phys s)(a := v)\<rparr>) ps"
  using assms by (intro free_pages_mem) auto

lemma kmem_reach_inv:
  assumes "freelist s0 = 0" "0 < kend s0" "kend s0 \<le> PHYSTOP" "kmem_reach s0 s A"
  shows "(\<exists>ps. free_pages s ps \<and> A \<inter> set ps = {} \<and> A \<union> set ps = {p. in_pool s0 p})
    \<and> in_pool s = in_pool s0"
  using assms(4)
proof (induction rule: kmem_reach.induct)
  case (boot s)
  have "returns (kinit s0) (\<lambda>_ t. (\<exists>ps. free_pages t ps \<and> set ps = {p. in_pool s0 p}) \<and> kend t = kend s0)"
    unfolding kinit_def using assms(1-3) by (rule freerange_spec)
  with boot have "\<exists>ps. free_pages s ps \<and> set ps = {p. in_pool s0 p}" "kend s = kend s0" by auto
  moreover from this(2) have "in_pool s = in_pool s0" by (auto simp: in_pool_def fun_eq_iff)
  ultimately show ?case by auto
next
  case (take s A p t)
  then obtain ps where ps: "free_pages s ps" "A \<inter> set ps = {}" "A \<union> set ps = {p. in_pool s0 p}"
    and pool: "in_pool s = in_pool s0" by blast
  have "ps \<noteq> []" using ps(1) take.hyps(2,3) kalloc_empty [of s] by auto
  then obtain q qs where "ps = q # qs" by (cases ps) auto
  with ps(1) take.hyps(2) have "ps = p # qs" using kalloc_ok [of s q qs] by auto
  with ps(1) take.hyps(2) have "free_pages t qs" "p \<notin> set qs" "in_pool t = in_pool s"
    using kalloc_ok [of s p qs] by auto
  with ps pool \<open>ps = p # qs\<close> show ?case by auto
next
  case (give s A p t)
  then obtain ps where ps: "free_pages s ps" "A \<inter> set ps = {}" "A \<union> set ps = {p. in_pool s0 p}"
    and pool: "in_pool s = in_pool s0" by blast
  with give.hyps(2) have "in_pool s p" "p \<notin> set ps" by auto
  with ps(1) give.hyps(3) have "free_pages t (p # ps)" "in_pool t = in_pool s"
    using kfree_ok [of s ps p] by auto
  with ps pool give.hyps(2) show ?case by (intro conjI exI [of _ "p # ps"]) auto
next
  case (use s A a v)
  then obtain ps where ps: "free_pages s ps" "A \<inter> set ps = {}" "A \<union> set ps = {p. in_pool s0 p}"
    and pool: "in_pool s = in_pool s0" by blast
  with use.hyps(2) have "PGROUNDDOWN a \<notin> set ps" by auto
  with ps(1) have "free_pages (s\<lparr>phys := (phys s)(a := v)\<rparr>) ps" by (rule free_pages_write)
  moreover have "in_pool (s\<lparr>phys := (phys s)(a := v)\<rparr>) = in_pool s" by (auto simp: in_pool_def fun_eq_iff)
  ultimately show ?case using ps pool by auto
qed

section \<open>Properties\<close>

text \<open>
  C8. From boot, whatever sequence of allocations, releases and writes to held pages the kernel
  makes, \<open>kalloc\<close> returns: it returns a page of the pool that is not handed out already, and it
  returns 0 only when every page of the pool is handed out.
\<close>

theorem kalloc_fresh:
  assumes "freelist s0 = 0" "0 < kend s0" "kend s0 \<le> PHYSTOP" "kmem_reach s0 s A"
  shows "returns (kalloc s) (\<lambda>p t. if p = 0 then A = {q. in_pool s0 q}
           else p \<notin> A \<and> in_pool s0 p \<and> kmem_reach s0 t (insert p A))"
proof -
  obtain ps where ps: "free_pages s ps" "A \<inter> set ps = {}" "A \<union> set ps = {p. in_pool s0 p}"
    using kmem_reach_inv [OF assms] by blast
  obtain p t where pt: "kalloc s = Ret p t"
    and res: "(p = 0 \<and> ps = [] \<and> t = s) \<or> (p \<in> set ps \<and> in_pool t p \<and> (\<exists>qs. free_pages t qs \<and> set qs = set ps - {p}))"
    using kmem.alloc_fresh [OF ps(1)] by (rule returnsE)
  show ?thesis
  proof (cases "p = 0")
    case True
    with res have "ps = []" by (auto simp: in_pool_def)
    with True pt ps show ?thesis by simp
  next
    case False
    with res have "p \<in> set ps" by auto
    with ps have "p \<notin> A" "in_pool s0 p" by auto
    with False pt kmem_reach.take [OF assms(4) pt False] show ?thesis by simp
  qed
qed

definition one_page_mem :: kmem where
  "one_page_mem = \<lparr>phys = (\<lambda>_. 0), freelist = 0, kend = PHYSTOP - PGSIZE\<rparr>"

theorem kalloc_fresh_witness:
  "\<exists>s. kmem_reach one_page_mem s {} \<and> in_pool one_page_mem (PHYSTOP - PGSIZE) \<and>
     returns (kalloc s) (\<lambda>p t. p \<noteq> 0 \<and> in_pool one_page_mem p \<and> kmem_reach one_page_mem t {p})"
proof -
  have h: "freelist one_page_mem = 0" "0 < kend one_page_mem" "kend one_page_mem \<le> PHYSTOP"
    by (simp_all add: one_page_mem_def params)
  obtain s where "kinit one_page_mem = Ret () s"
    using freerange_spec [OF h] by (auto simp: kinit_def elim: returnsE)
  then have r: "kmem_reach one_page_mem s {}" by (rule kmem_reach.boot)
  have pool: "in_pool one_page_mem (PHYSTOP - PGSIZE)"
    by (simp add: in_pool_def one_page_mem_def params page_aligned_def)
  have "returns (kalloc s) (\<lambda>p t. p \<noteq> 0 \<and> in_pool one_page_mem p \<and> kmem_reach one_page_mem t {p})"
    using kalloc_fresh [OF h r] pool by (auto elim!: returns_mono split: if_splits)
  with r pool show ?thesis by blast
qed

text \<open>
  C15. \<open>kinit\<close> terminates without a panic and leaves every whole page between the end of the kernel
  and \<open>PHYSTOP\<close> on the free list, each exactly once.
\<close>

theorem kinit_frees_all:
  assumes "freelist s = 0" "0 < kend s" "kend s \<le> PHYSTOP"
  shows "returns (kinit s) (\<lambda>_ t. \<exists>ps. free_pages t ps \<and>
           set ps = {p. page_aligned p \<and> kend s \<le> p \<and> p < PHYSTOP})"
proof -
  have "{p. in_pool s p} = {p. page_aligned p \<and> kend s \<le> p \<and> p < PHYSTOP}"
  proof -
    have "p \<noteq> 0" if "kend s \<le> p" for p using assms(2) that by auto
    then show ?thesis unfolding in_pool_def by blast
  qed
  then show ?thesis
    using freerange_spec [OF assms] by (auto simp: kinit_def elim!: returns_mono)
qed

theorem kinit_frees_all_witness:
  "returns (kinit one_page_mem) (\<lambda>_ t. free_pages t [PHYSTOP - PGSIZE])"
proof -
  have h: "freelist one_page_mem = 0" "0 < kend one_page_mem" "kend one_page_mem \<le> PHYSTOP"
    by (simp_all add: one_page_mem_def params)
  have one: "{p. page_aligned p \<and> kend one_page_mem \<le> p \<and> p < PHYSTOP} = {PHYSTOP - PGSIZE}"
  proof -
    have "p = PHYSTOP - PGSIZE" if p: "page_aligned p" "PHYSTOP - PGSIZE \<le> p" "p < PHYSTOP" for p
    proof -
      obtain j where j: "unat p = 4096 * j"
        using p(1) by (auto simp: page_aligned_unat mod_eq_0_iff_dvd elim!: dvdE)
      then have "4096 * j = 2281697280" using p(2,3) by (simp add: params word_le_nat_alt word_less_nat_alt)
      with j show ?thesis by (simp add: params word_unat_eq_iff)
    qed
    moreover have "page_aligned (PHYSTOP - PGSIZE)" by (simp add: params page_aligned_def)
    ultimately show ?thesis by (auto simp: one_page_mem_def params)
  qed
  have sing: "ps = [a]" if "distinct ps" "set ps = {a}" for ps and a :: u64
    using that by (metis distinct_singleton set_empty2 distinct_length_2_or_more distinct.simps(2) insert_not_empty list.exhaust list.set_intros(1,2) singletonD)
  show ?thesis
    using kinit_frees_all [OF h]
    by (rule returns_mono) (auto simp: one dest!: sing [rotated] simp: free_pages_def)
qed

end
