(* ===== verification/Vm.thy ===== *)
theory Vm
  imports Kalloc
begin

text \<open>
  Virtual memory, kernel/vm.c: the three-level page tables of the RISC-V Sv39 scheme, kept in
  physical memory as 512 eight-byte entries per page-table page. The operations read and write
  entries through \<open>load64\<close> and \<open>store64\<close> on that memory and take their pages from the
  allocator, so a table that is shared, freed or overwritten behaves here as it does in the
  machine. A kernel buffer that \<open>copyout\<close>, \<open>copyin\<close> and \<open>copyinstr\<close> copy from or to is the
  list of its bytes.
\<close>

section \<open>Walking a page table\<close>

definition pte_addr :: "u64 \<Rightarrow> nat \<Rightarrow> u64 \<Rightarrow> u64" where
  "pte_addr pagetable level va = pagetable + 8 * PX level va"

text \<open>
  The loop of \<open>walk\<close>, by recursion on the level: the table for \<open>level\<close> is at \<open>pagetable\<close>.
  The result is the address of the level-0 entry, or \<open>None\<close> where the source returns 0.
\<close>

primrec walk_from :: "nat \<Rightarrow> 'a kmem_scheme \<Rightarrow> u64 \<Rightarrow> u64 \<Rightarrow> bool \<Rightarrow> (u64 option, 'a kmem_scheme) run" where
  "walk_from 0 s pagetable va alloc = Ret (Some (pte_addr pagetable 0 va)) s"
| "walk_from (Suc l) s pagetable va alloc =
     (let pte = pte_addr pagetable (Suc l) va; v = load64 (phys s) pte
      in if v AND PTE_V \<noteq> 0 then walk_from l s (PTE2PA v) va alloc
         else if \<not> alloc then Ret None s
         else bnd (kalloc s) (\<lambda>page s.
           if page = 0 then Ret None s
           else
             let s1 = s\<lparr>phys := memset (phys s) page 0 (ucast PGSIZE)\<rparr>;
                 s2 = s1\<lparr>phys := store64 (phys s1) pte (PA2PTE page OR PTE_V)\<rparr>
             in walk_from l s2 page va alloc))"

definition walk :: "'a kmem_scheme \<Rightarrow> u64 \<Rightarrow> u64 \<Rightarrow> bool \<Rightarrow> (u64 option, 'a kmem_scheme) run" where
  "walk s pagetable va alloc =
     (if va \<ge> MAXVA then Panic ''walk'' else walk_from 2 s pagetable va alloc)"

definition walkaddr :: "'a kmem_scheme \<Rightarrow> u64 \<Rightarrow> u64 \<Rightarrow> (u64, 'a kmem_scheme) run" where
  "walkaddr s pagetable va =
     (if va \<ge> MAXVA then Ret 0 s
      else bnd (walk s pagetable va False) (\<lambda>pte s.
        case pte of
          None \<Rightarrow> Ret 0 s
        | Some a \<Rightarrow>
            let v = load64 (phys s) a
            in if v AND PTE_V = 0 then Ret 0 s
               else if v AND PTE_U = 0 then Ret 0 s
               else Ret (PTE2PA v) s))"

section \<open>Mapping and unmapping\<close>

text \<open>
  One round of the loop in \<open>mappages\<close>. In the result \<open>True\<close> stands for the return value 0 and
  \<open>False\<close> for -1.
\<close>

fun mappages_step :: "u64 \<Rightarrow> u64 \<Rightarrow> u64 \<Rightarrow> u64 \<times> u64 \<Rightarrow> 'a kmem_scheme \<Rightarrow> ((u64 \<times> u64) + bool, 'a kmem_scheme) run" where
  "mappages_step pagetable last_va perm (a, pa) s =
     bnd (walk s pagetable a True) (\<lambda>pte s.
       case pte of
         None \<Rightarrow> Ret (Inr False) s
       | Some p \<Rightarrow>
           if load64 (phys s) p AND PTE_V \<noteq> 0 then Panic ''mappages: remap''
           else
             let s = s\<lparr>phys := store64 (phys s) p (PA2PTE pa OR perm OR PTE_V)\<rparr>
             in if a = last_va then Ret (Inr True) s
                else Ret (Inl (a + PGSIZE, pa + PGSIZE)) s)"

definition mappages :: "'a kmem_scheme \<Rightarrow> u64 \<Rightarrow> u64 \<Rightarrow> u64 \<Rightarrow> u64 \<Rightarrow> u64 \<Rightarrow> (bool, 'a kmem_scheme) run" where
  "mappages s pagetable va sz pa perm =
     (if va mod PGSIZE \<noteq> 0 then Panic ''mappages: va not aligned''
      else if sz mod PGSIZE \<noteq> 0 then Panic ''mappages: size not aligned''
      else if sz = 0 then Panic ''mappages: size''
      else
        let last = va + sz - PGSIZE
        in loop (2 ^ 52) (mappages_step pagetable last perm) (va, pa) s)"

definition kvmmap :: "'a kmem_scheme \<Rightarrow> u64 \<Rightarrow> u64 \<Rightarrow> u64 \<Rightarrow> u64 \<Rightarrow> u64 \<Rightarrow> (unit, 'a kmem_scheme) run" where
  "kvmmap s kpgtbl va pa sz perm =
     bnd (mappages s kpgtbl va sz pa perm) (\<lambda>ok s.
       if \<not> ok then Panic ''kvmmap'' else Ret () s)"

definition uvmunmap :: "'a kmem_scheme \<Rightarrow> u64 \<Rightarrow> u64 \<Rightarrow> u64 \<Rightarrow> bool \<Rightarrow> (unit, 'a kmem_scheme) run" where
  "uvmunmap s pagetable va npages do_free =
     (if va mod PGSIZE \<noteq> 0 then Panic ''uvmunmap: not aligned''
      else loop (2 ^ 52)
        (\<lambda>a s.
           if a < va + npages * PGSIZE
           then bnd (walk s pagetable a False) (\<lambda>pte s.
             case pte of
               None \<Rightarrow> Panic ''uvmunmap: walk''
             | Some p \<Rightarrow>
                 let v = load64 (phys s) p
                 in if v AND PTE_V = 0 then Panic ''uvmunmap: not mapped''
                    else if PTE_FLAGS v = PTE_V then Panic ''uvmunmap: not a leaf''
                    else bnd (if do_free then kfree s (PTE2PA v) else Ret () s) (\<lambda>_ s.
                      Ret (Inl (a + PGSIZE)) (s\<lparr>phys := store64 (phys s) p 0\<rparr>)))
           else Ret (Inr ()) s)
        va s)"

definition uvmcreate :: "'a kmem_scheme \<Rightarrow> (u64, 'a kmem_scheme) run" where
  "uvmcreate s =
     bnd (kalloc s) (\<lambda>pagetable s.
       if pagetable = 0 then Ret 0 s
       else Ret pagetable (s\<lparr>phys := memset (phys s) pagetable 0 (ucast PGSIZE)\<rparr>))"

text \<open>\<open>store_bytes m a bs\<close>: \<open>memmove\<close> of the bytes \<open>bs\<close> of a kernel buffer to address \<open>a\<close>.\<close>

fun store_bytes :: "mem \<Rightarrow> u64 \<Rightarrow> u8 list \<Rightarrow> mem" where
  "store_bytes m a [] = m"
| "store_bytes m a (b # bs) = store_bytes (m(a := b)) (a + 1) bs"

fun load_bytes :: "mem \<Rightarrow> u64 \<Rightarrow> nat \<Rightarrow> u8 list" where
  "load_bytes m a 0 = []"
| "load_bytes m a (Suc n) = m a # load_bytes m (a + 1) n"

definition uvmfirst :: "'a kmem_scheme \<Rightarrow> u64 \<Rightarrow> u8 list \<Rightarrow> (unit, 'a kmem_scheme) run" where
  "uvmfirst s pagetable src =
     (if length src \<ge> unat PGSIZE then Panic ''uvmfirst: more than a page''
      else bnd (kalloc s) (\<lambda>page s.
        let s = s\<lparr>phys := memset (phys s) page 0 (ucast PGSIZE)\<rparr>
        in bnd (mappages s pagetable 0 PGSIZE page (PTE_W OR PTE_R OR PTE_X OR PTE_U)) (\<lambda>_ s.
          Ret () (s\<lparr>phys := store_bytes (phys s) page src\<rparr>))))"

section \<open>Growing and shrinking user memory\<close>

text \<open>
  \<open>npages\<close> is an \<open>int\<close> in the source: the page count goes through 32-bit truncation and sign
  extension on its way to \<open>uvmunmap\<close>.
\<close>

definition uvmdealloc :: "'a kmem_scheme \<Rightarrow> u64 \<Rightarrow> u64 \<Rightarrow> u64 \<Rightarrow> (u64, 'a kmem_scheme) run" where
  "uvmdealloc s pagetable oldsz newsz =
     (if newsz \<ge> oldsz then Ret oldsz s
      else if PGROUNDUP newsz < PGROUNDUP oldsz
      then
        let npages = ucast ((PGROUNDUP oldsz - PGROUNDUP newsz) div PGSIZE) :: u32
        in bnd (uvmunmap s pagetable (PGROUNDUP newsz) (scast npages) True) (\<lambda>_ s. Ret newsz s)
      else Ret newsz s)"

definition uvmalloc :: "'a kmem_scheme \<Rightarrow> u64 \<Rightarrow> u64 \<Rightarrow> u64 \<Rightarrow> u64 \<Rightarrow> (u64, 'a kmem_scheme) run" where
  "uvmalloc s pagetable oldsz newsz xperm =
     (if newsz < oldsz then Ret oldsz s
      else
        let oldsz = PGROUNDUP oldsz
        in loop (2 ^ 52)
          (\<lambda>a s.
             if a < newsz
             then bnd (kalloc s) (\<lambda>page s.
               if page = 0
               then bnd (uvmdealloc s pagetable a oldsz) (\<lambda>_ s. Ret (Inr 0) s)
               else
                 let s = s\<lparr>phys := memset (phys s) page 0 (ucast PGSIZE)\<rparr>
                 in bnd (mappages s pagetable a PGSIZE page (PTE_R OR PTE_U OR xperm)) (\<lambda>ok s.
                   if \<not> ok
                   then bnd (kfree s page) (\<lambda>_ s.
                     bnd (uvmdealloc s pagetable a oldsz) (\<lambda>_ s. Ret (Inr 0) s))
                   else Ret (Inl (a + PGSIZE)) s))
             else Ret (Inr newsz) s)
          oldsz s)"

section \<open>Freeing and copying address spaces\<close>

text \<open>
  \<open>freewalk\<close> calls itself; the first argument bounds the depth of the calls. There are \<open>2 ^ 52\<close>
  pages in the address space, so a deeper chain of calls visits a table twice and never ends.
\<close>

primrec freewalk_to :: "nat \<Rightarrow> 'a kmem_scheme \<Rightarrow> u64 \<Rightarrow> (unit, 'a kmem_scheme) run" where
  "freewalk_to 0 s pagetable = Diverge"
| "freewalk_to (Suc k) s pagetable =
     bnd (each (\<lambda>i s.
            let a = pagetable + 8 * of_nat i; pte = load64 (phys s) a
            in if pte AND PTE_V \<noteq> 0 \<and> pte AND (PTE_R OR PTE_W OR PTE_X) = 0
               then bnd (freewalk_to k s (PTE2PA pte)) (\<lambda>_ s.
                 Ret () (s\<lparr>phys := store64 (phys s) a 0\<rparr>))
               else if pte AND PTE_V \<noteq> 0 then Panic ''freewalk: leaf''
               else Ret () s)
          [0..<512] s)
       (\<lambda>_ s. kfree s pagetable)"

definition freewalk :: "'a kmem_scheme \<Rightarrow> u64 \<Rightarrow> (unit, 'a kmem_scheme) run" where
  "freewalk s pagetable = freewalk_to (2 ^ 52) s pagetable"

definition uvmfree :: "'a kmem_scheme \<Rightarrow> u64 \<Rightarrow> u64 \<Rightarrow> (unit, 'a kmem_scheme) run" where
  "uvmfree s pagetable sz =
     bnd (if sz > 0 then uvmunmap s pagetable 0 (PGROUNDUP sz div PGSIZE) True else Ret () s)
       (\<lambda>_ s. freewalk s pagetable)"

definition uvmcopy :: "'a kmem_scheme \<Rightarrow> u64 \<Rightarrow> u64 \<Rightarrow> u64 \<Rightarrow> (bool, 'a kmem_scheme) run" where
  "uvmcopy s old new sz =
     loop (2 ^ 52)
       (\<lambda>i s.
          if i < sz
          then bnd (walk s old i False) (\<lambda>pte s.
            case pte of
              None \<Rightarrow> Panic ''uvmcopy: pte should exist''
            | Some p \<Rightarrow>
                let v = load64 (phys s) p
                in if v AND PTE_V = 0 then Panic ''uvmcopy: page not present''
                   else
                     let pa = PTE2PA v; flags = PTE_FLAGS v
                     in bnd (kalloc s) (\<lambda>page s.
                       if page = 0
                       then bnd (uvmunmap s new 0 (i div PGSIZE) True) (\<lambda>_ s. Ret (Inr False) s)
                       else
                         let s = s\<lparr>phys := memmove (phys s) page pa (ucast PGSIZE)\<rparr>
                         in bnd (mappages s new i PGSIZE page flags) (\<lambda>ok s.
                           if \<not> ok
                           then bnd (kfree s page) (\<lambda>_ s.
                             bnd (uvmunmap s new 0 (i div PGSIZE) True) (\<lambda>_ s. Ret (Inr False) s))
                           else Ret (Inl (i + PGSIZE)) s)))
          else Ret (Inr True) s)
       0 s"

definition uvmclear :: "'a kmem_scheme \<Rightarrow> u64 \<Rightarrow> u64 \<Rightarrow> (unit, 'a kmem_scheme) run" where
  "uvmclear s pagetable va =
     bnd (walk s pagetable va False) (\<lambda>pte s.
       case pte of
         None \<Rightarrow> Panic ''uvmclear''
       | Some p \<Rightarrow> Ret () (s\<lparr>phys := store64 (phys s) p (load64 (phys s) p AND NOT PTE_U)\<rparr>))"

section \<open>Copying between kernel and user\<close>

fun copyout_step :: "u64 \<Rightarrow> u64 \<times> u8 list \<Rightarrow> 'a kmem_scheme \<Rightarrow> ((u64 \<times> u8 list) + bool, 'a kmem_scheme) run" where
  "copyout_step pagetable (dstva, src) s =
     (if src = [] then Ret (Inr True) s
      else
        let va0 = PGROUNDDOWN dstva
        in if va0 \<ge> MAXVA then Ret (Inr False) s
           else bnd (walk s pagetable va0 False) (\<lambda>pte s.
             case pte of
               None \<Rightarrow> Ret (Inr False) s
             | Some p \<Rightarrow>
                 let v = load64 (phys s) p
                 in if v AND PTE_V = 0 \<or> v AND PTE_U = 0 \<or> v AND PTE_W = 0
                    then Ret (Inr False) s
                    else
                      let pa0 = PTE2PA v;
                          n = min (unat (PGSIZE - (dstva - va0))) (length src)
                      in Ret (Inl (va0 + PGSIZE, drop n src))
                           (s\<lparr>phys := store_bytes (phys s) (pa0 + (dstva - va0)) (take n src)\<rparr>)))"

definition copyout :: "'a kmem_scheme \<Rightarrow> u64 \<Rightarrow> u64 \<Rightarrow> u8 list \<Rightarrow> (bool, 'a kmem_scheme) run" where
  "copyout s pagetable dstva src = loop (Suc (length src)) (copyout_step pagetable) (dstva, src) s"

text \<open>
  The bytes moved to the kernel buffer so far are the third local of the loop. The result pairs
  success (return value 0) with the bytes that reached the buffer, which on failure can be a
  proper prefix of what was asked for.
\<close>

fun copyin_step :: "u64 \<Rightarrow> u64 \<times> nat \<times> u8 list \<Rightarrow> 'a kmem_scheme \<Rightarrow>
    ((u64 \<times> nat \<times> u8 list) + (bool \<times> u8 list), 'a kmem_scheme) run" where
  "copyin_step pagetable (srcva, len, dst) s =
     (if len = 0 then Ret (Inr (True, dst)) s
      else
        let va0 = PGROUNDDOWN srcva
        in bnd (walkaddr s pagetable va0) (\<lambda>pa0 s.
          if pa0 = 0 then Ret (Inr (False, dst)) s
          else
            let n = min (unat (PGSIZE - (srcva - va0))) len
            in Ret (Inl (va0 + PGSIZE, len - n, dst @ load_bytes (phys s) (pa0 + (srcva - va0)) n)) s))"

definition copyin :: "'a kmem_scheme \<Rightarrow> u64 \<Rightarrow> u64 \<Rightarrow> nat \<Rightarrow> (bool \<times> u8 list, 'a kmem_scheme) run" where
  "copyin s pagetable srcva len = loop (Suc len) (copyin_step pagetable) (srcva, len, []) s"

text \<open>
  The inner loop of \<open>copyinstr\<close>: copy until a NUL or until \<open>n\<close> bytes are copied. The result says
  whether the NUL was found and holds the bytes before it.
\<close>

fun copyinstr_page :: "mem \<Rightarrow> u64 \<Rightarrow> nat \<Rightarrow> bool \<times> u8 list" where
  "copyinstr_page m p 0 = (False, [])"
| "copyinstr_page m p (Suc n) =
     (if m p = 0 then (True, [])
      else let (got_null, bs) = copyinstr_page m (p + 1) n in (got_null, m p # bs))"

text \<open>The string without its NUL on success, \<open>None\<close> for the return value -1.\<close>

fun copyinstr_step :: "u64 \<Rightarrow> u64 \<times> nat \<times> u8 list \<Rightarrow> 'a kmem_scheme \<Rightarrow>
    ((u64 \<times> nat \<times> u8 list) + u8 list option, 'a kmem_scheme) run" where
  "copyinstr_step pagetable (srcva, maxlen, dst) s =
     (if maxlen = 0 then Ret (Inr None) s
      else
        let va0 = PGROUNDDOWN srcva
        in bnd (walkaddr s pagetable va0) (\<lambda>pa0 s.
          if pa0 = 0 then Ret (Inr None) s
          else
            let n = min (unat (PGSIZE - (srcva - va0))) maxlen;
                (got_null, bs) = copyinstr_page (phys s) (pa0 + (srcva - va0)) n
            in if got_null then Ret (Inr (Some (dst @ bs))) s
               else Ret (Inl (va0 + PGSIZE, maxlen - n, dst @ bs)) s))"

definition copyinstr :: "'a kmem_scheme \<Rightarrow> u64 \<Rightarrow> u64 \<Rightarrow> nat \<Rightarrow> (u8 list option, 'a kmem_scheme) run" where
  "copyinstr s pagetable srcva maxlen = loop (Suc maxlen) (copyinstr_step pagetable) (srcva, maxlen, []) s"

section \<open>The loops end\<close>

text \<open>
  \<open>walk\<close> refuses addresses from \<open>MAXVA\<close> on, so each loop over pages stops there at the latest,
  whatever memory holds: the bounds above are never reached.
\<close>

definition kmem_only :: "'a kmem_scheme \<Rightarrow> 'a kmem_scheme \<Rightarrow> bool" where
  "kmem_only s t \<longleftrightarrow> kend t = kend s \<and> kmem.more t = kmem.more s"

lemma kmem_only_refl [simp]: "kmem_only s s"
  by (simp add: kmem_only_def)

lemma kmem_only_trans: "kmem_only s t \<Longrightarrow> kmem_only t u \<Longrightarrow> kmem_only s u"
  by (simp add: kmem_only_def)

lemma kmem_only_write [simp]:
  "kmem_only s (t\<lparr>phys := m\<rparr>) \<longleftrightarrow> kmem_only s t" "kmem_only (s\<lparr>phys := m\<rparr>) t \<longleftrightarrow> kmem_only s t"
  "kmem_only s (t\<lparr>freelist := f\<rparr>) \<longleftrightarrow> kmem_only s t"
  by (simp_all add: kmem_only_def)

text \<open>
  \<open>keeps r s\<close>: the routine returns or panics (it neither sleeps nor runs out of rounds), and
  where it returns it has changed nothing but memory and the free list.
\<close>

abbreviation keeps :: "('x, 'a kmem_scheme) run \<Rightarrow> 'a kmem_scheme \<Rightarrow> bool" where
  "keeps r s \<equiv> meets r (\<lambda>_ t. kmem_only s t) (\<lambda>_. False)"

lemma keeps_bnd:
  assumes "keeps r s" "\<And>x t. kmem_only s t \<Longrightarrow> keeps (f x t) t"
  shows "keeps (bnd r f) s"
proof -
  have "meets (f x t) (\<lambda>_ u. kmem_only s u) (\<lambda>_. False)" if "kmem_only s t" for x t
    by (rule meets_mono [OF assms(2) [OF that]]) (use that in \<open>auto intro: kmem_only_trans\<close>)
  then show ?thesis using assms(1) by (auto elim: meets_mono)
qed

lemma kalloc_keeps: "keeps (kalloc s) s"
  by (simp add: kalloc_def Let_def)

lemma kfree_keeps: "keeps (kfree s p) s"
  by (simp add: kfree_def Let_def)

lemma walk_from_keeps: "keeps (walk_from l s pt va alloc) s"
proof (induction l arbitrary: s pt alloc)
  case (Suc l)
  have *: "keeps (walk_from l (t\<lparr>phys := m\<rparr>) p va alloc) t" for t :: "'a kmem_scheme" and m p alloc
    using Suc [of "t\<lparr>phys := m\<rparr>" p alloc] by simp
  then show ?case
    using Suc by (simp add: Let_def del: meets_bnd) (auto intro!: keeps_bnd kalloc_keeps simp: * simp del: meets_bnd)
qed simp

lemma walk_keeps: "meets (walk s pt va alloc) (\<lambda>_ t. va < MAXVA \<and> kmem_only s t) (\<lambda>_. False)"
  using walk_from_keeps [of 2 s pt va alloc] by (auto simp: walk_def elim: meets_mono)

text \<open>The measure of a loop over pages.\<close>

definition pages_to_go :: "u64 \<Rightarrow> nat" where
  "pages_to_go a = 2 ^ 39 - unat a"

lemma pages_to_go_bound: "pages_to_go a < 2 ^ 40"
  by (simp add: pages_to_go_def)

lemma pages_to_go_step: "a < MAXVA \<Longrightarrow> pages_to_go (a + PGSIZE) < pages_to_go a"
  by (simp add: pages_to_go_def params word_less_nat_alt unat_word_ariths)

lemma page_loop_keeps:
  assumes "\<And>a t. kmem_only s t \<Longrightarrow> meets (body a t) (\<lambda>r u. kmem_only t u \<and>
      (case r of Inl b \<Rightarrow> f a < MAXVA \<and> f b = f a + PGSIZE | Inr _ \<Rightarrow> True)) (\<lambda>_. False)"
    and "2 ^ 40 < k"
  shows "keeps (loop k body a s) s"
proof (rule loop_meets [where I = "\<lambda>_ t. kmem_only s t" and \<mu> = "\<lambda>a _. pages_to_go (f a)"])
  fix a t assume "kmem_only s t"
  then show "meets (body a t) (\<lambda>r u. case r of Inl b \<Rightarrow> kmem_only s u \<and> pages_to_go (f b) < pages_to_go (f a)
      | Inr x \<Rightarrow> kmem_only s u) (\<lambda>_. False)"
    by (intro meets_mono [OF assms(1)]) (auto simp: pages_to_go_step split: sum.splits intro: kmem_only_trans)
qed (use assms(2) pages_to_go_bound [of "f a"] in simp_all)

lemma mappages_keeps: "meets (mappages s pt va sz pa perm) (\<lambda>_ t. va < MAXVA \<and> kmem_only s t) (\<lambda>_. False)"
proof -
  have "meets (loop (2 ^ 52) (mappages_step pt last perm) (va, pa) s)
      (\<lambda>_ t. va < MAXVA \<and> kmem_only s t) (\<lambda>_. False)" for last
    by (rule loop_meets [where I = "\<lambda>(a, _) t. (a = va \<or> va < MAXVA) \<and> kmem_only s t" and \<mu> = "\<lambda>(a, _) _. pages_to_go a"])
      (use pages_to_go_bound [of va] in \<open>auto simp: pages_to_go_step Let_def split: option.splits
        intro!: meets_mono [OF walk_keeps] elim: kmem_only_trans\<close>)
  then show ?thesis by (simp add: mappages_def Let_def)
qed

lemma uvmunmap_keeps: "keeps (uvmunmap s pt va n do_free) s"
  unfolding uvmunmap_def
  apply (auto intro!: page_loop_keeps [where f = "\<lambda>a. a"] meets_mono [OF walk_keeps] meets_mono [OF kfree_keeps]
      simp: Let_def split: option.splits)
  apply (simp_all add: kmem_only_def)
  done

lemma uvmdealloc_keeps: "keeps (uvmdealloc s pt oldsz newsz) s"
  by (simp add: uvmdealloc_def Let_def uvmunmap_keeps)

lemma uvmalloc_keeps: "keeps (uvmalloc s pt oldsz newsz xperm) s"
  unfolding uvmalloc_def Let_def
  apply (auto intro!: page_loop_keeps [where f = "\<lambda>a. a"] meets_mono [OF kalloc_keeps] meets_mono [OF mappages_keeps]
      meets_mono [OF uvmdealloc_keeps] meets_mono [OF kfree_keeps])
  apply (simp_all add: kmem_only_def)
  done

lemma uvmcopy_keeps: "keeps (uvmcopy s old new sz) s"
  unfolding uvmcopy_def Let_def
  apply (auto intro!: page_loop_keeps [where f = "\<lambda>a. a"] meets_mono [OF kalloc_keeps] meets_mono [OF mappages_keeps]
      meets_mono [OF uvmunmap_keeps] meets_mono [OF kfree_keeps] meets_mono [OF walk_keeps]
      split: option.splits)
  apply (simp_all add: kmem_only_def)
  done

text \<open>
  \<open>only r s\<close>: if the routine returns, it has changed nothing but memory and the free list. This
  much also holds of \<open>freewalk\<close>, which need not end on a table that is not a tree.
\<close>

definition only :: "('x, 'a kmem_scheme) run \<Rightarrow> 'a kmem_scheme \<Rightarrow> bool" where
  "only r s \<longleftrightarrow> (\<forall>x t. r = Ret x t \<longrightarrow> kmem_only s t)"

lemma keeps_only: "keeps r s \<Longrightarrow> only r s"
  by (auto simp: only_def)

lemma only_Ret [simp]: "only (Ret x t) s \<longleftrightarrow> kmem_only s t"
  by (simp add: only_def)

lemma only_fail [simp]: "only (Panic m) s" "only Diverge s" "only Undef s"
  by (simp_all add: only_def)

lemma only_bnd:
  assumes "only r s" "\<And>x t. kmem_only s t \<Longrightarrow> only (f x t) t"
  shows "only (bnd r f) s"
  unfolding only_def
proof (intro allI impI)
  fix y u assume "bnd r f = Ret y u"
  then obtain x t where "r = Ret x t" "f x t = Ret y u" by (auto simp: run_simps)
  with assms have "kmem_only s t" "kmem_only t u" by (auto simp: only_def)
  then show "kmem_only s u" by (rule kmem_only_trans)
qed

lemma only_each: "(\<And>x t. only (f x t) t) \<Longrightarrow> only (each f xs s) s"
  by (induction xs arbitrary: s) (auto intro: only_bnd)

lemma freewalk_only: "only (freewalk_to k s pt) s"
proof (induction k arbitrary: s pt)
  case (Suc k)
  show ?case
    unfolding freewalk_to.simps Let_def
    by (intro only_bnd only_each keeps_only [OF kfree_keeps]) (auto intro: only_bnd Suc)
qed simp

lemma uvmfree_only: "only (uvmfree s pt sz) s"
  by (auto simp: uvmfree_def freewalk_def
      intro!: only_bnd freewalk_only keeps_only [OF uvmunmap_keeps])

lemma uvmcreate_only: "only (uvmcreate s) s"
  by (auto simp: uvmcreate_def intro!: only_bnd keeps_only [OF kalloc_keeps])

lemma mappages_only: "only (mappages s pt va sz pa perm) s"
  using mappages_keeps [of s pt va sz pa perm] by (auto simp: only_def)

end
