(* ===== verification/Spinlock.thy ===== *)
theory Spinlock
  imports Machine
begin

text \<open>
  Spin locks, kernel/spinlock.c, with the per-CPU part of \<open>struct cpu\<close> they use. The routines are
  given twice: whole, for a CPU that runs alone, and cut at the points where another CPU can
  interleave (the atomic swap, the two stores that record and forget the owner). The interleaved
  form carries the proof of mutual exclusion, which is what lets the rest of the development
  treat the critical sections of the kernel as single steps.
\<close>

section \<open>State\<close>

text \<open>\<open>cproc\<close> is the field \<open>proc\<close> (a slot of the process table), \<open>intr\<close> the bit \<open>SIE\<close> of sstatus.\<close>

record cpu =
  cproc :: "nat option"
  noff :: int
  intena :: bool
  intr :: bool

record spinlock =
  locked :: u32
  lk_name :: string
  lk_cpu :: "nat option"

definition initlock :: "string \<Rightarrow> spinlock" where
  "initlock nm = \<lparr>locked = 0, lk_name = nm, lk_cpu = None\<rparr>"

section \<open>Routines\<close>

definition push_off :: "nat \<Rightarrow> cpu list \<Rightarrow> cpu list" where
  "push_off h cs =
     (let old = intr (cs ! h);
          c1 = (cs ! h)\<lparr>intr := False\<rparr>;
          c2 = (if noff c1 = 0 then c1\<lparr>intena := old\<rparr> else c1)
      in cs[h := c2\<lparr>noff := noff c2 + 1\<rparr>])"

definition pop_off :: "nat \<Rightarrow> cpu list \<Rightarrow> (unit, cpu list) run" where
  "pop_off h cs =
     (let c = cs ! h
      in if intr c then Panic ''pop_off - interruptible''
         else if noff c < 1 then Panic ''pop_off''
         else
           let c1 = c\<lparr>noff := noff c - 1\<rparr>;
               c2 = (if noff c1 = 0 \<and> intena c1 then c1\<lparr>intr := True\<rparr> else c1)
           in Ret () (cs[h := c2]))"

definition holding :: "nat \<Rightarrow> spinlock \<Rightarrow> bool" where
  "holding h lk \<longleftrightarrow> locked lk \<noteq> 0 \<and> lk_cpu lk = Some h"

text \<open>\<open>acquire\<close>, up to the swap, the swap, and the store of the owner.\<close>

definition acquire_enter :: "nat \<Rightarrow> spinlock \<times> cpu list \<Rightarrow> (unit, spinlock \<times> cpu list) run" where
  "acquire_enter h s =
     (let cs = push_off h (snd s)
      in if holding h (fst s) then Panic ''acquire'' else Ret () (fst s, cs))"

definition test_and_set :: "spinlock \<Rightarrow> u32 \<times> spinlock" where
  "test_and_set lk = (locked lk, lk\<lparr>locked := 1\<rparr>)"

definition acquire_own :: "nat \<Rightarrow> spinlock \<Rightarrow> spinlock" where
  "acquire_own h lk = lk\<lparr>lk_cpu := Some h\<rparr>"

text \<open>A CPU that runs alone and finds the lock taken spins for ever.\<close>

definition acquire :: "nat \<Rightarrow> spinlock \<times> cpu list \<Rightarrow> (unit, spinlock \<times> cpu list) run" where
  "acquire h s =
     bnd (acquire_enter h s) (\<lambda>_ s.
       let (old, lk) = test_and_set (fst s)
       in if old \<noteq> 0 then Diverge else Ret () (acquire_own h lk, snd s))"

definition release_disown :: "nat \<Rightarrow> spinlock \<Rightarrow> (unit, spinlock) run" where
  "release_disown h lk = (if \<not> holding h lk then Panic ''release'' else Ret () (lk\<lparr>lk_cpu := None\<rparr>))"

definition release_free :: "nat \<Rightarrow> spinlock \<times> cpu list \<Rightarrow> (unit, spinlock \<times> cpu list) run" where
  "release_free h s =
     (case pop_off h (snd s) of
        Ret _ cs \<Rightarrow> Ret () ((fst s)\<lparr>locked := 0\<rparr>, cs)
      | Panic m \<Rightarrow> Panic m
      | Sleep c cs \<Rightarrow> Sleep c (fst s, cs)
      | Exited cs \<Rightarrow> Exited (fst s, cs)
      | Diverge \<Rightarrow> Diverge
      | Undef \<Rightarrow> Undef)"

definition release :: "nat \<Rightarrow> spinlock \<times> cpu list \<Rightarrow> (unit, spinlock \<times> cpu list) run" where
  "release h s =
     (case release_disown h (fst s) of
        Ret _ lk \<Rightarrow> release_free h (lk, snd s)
      | _ \<Rightarrow> Panic ''release'')"

section \<open>One CPU\<close>

text \<open>\<open>push_off\<close> and \<open>pop_off\<close> nest: after both, the CPU is as it was.\<close>

definition cpu_ok :: "cpu \<Rightarrow> bool" where
  "cpu_ok c \<longleftrightarrow> 0 \<le> noff c \<and> (0 < noff c \<longrightarrow> \<not> intr c)"

lemma pop_push_off:
  assumes "h < length cs" "cpu_ok (cs ! h)"
  shows "\<exists>cs'. pop_off h (push_off h cs) = Ret () cs' \<and> length cs' = length cs \<and>
    (\<forall>g < length cs. g \<noteq> h \<longrightarrow> cs' ! g = cs ! g) \<and>
    cproc (cs' ! h) = cproc (cs ! h) \<and> noff (cs' ! h) = noff (cs ! h) \<and> intr (cs' ! h) = intr (cs ! h)"
  using assms by (auto simp: pop_off_def push_off_def Let_def cpu_ok_def)

lemma acquire_release:
  assumes "h < length cs" "cpu_ok (cs ! h)" "locked lk = 0"
  shows "returns (bnd (acquire h (lk, cs)) (\<lambda>_ s. release h s)) (\<lambda>_ (lk', cs').
    locked lk' = 0 \<and> lk_cpu lk' = None \<and> noff (cs' ! h) = noff (cs ! h) \<and> intr (cs' ! h) = intr (cs ! h))"
  using assms
  by (auto simp: acquire_def acquire_enter_def release_def release_disown_def release_free_def holding_def
      test_and_set_def acquire_own_def pop_off_def push_off_def Let_def cpu_ok_def)

section \<open>Several CPUs\<close>

text \<open>
  Where a CPU is in the protocol: outside, spinning on the swap, having won the swap, inside the
  critical section, and having cleared the owner on its way out.
\<close>

datatype pc = Out | Spin | Won | Inside | Leaving

type_synonym lockstate = "spinlock \<times> cpu list \<times> pc list"

inductive lock_step :: "lockstate \<Rightarrow> lockstate \<Rightarrow> bool" where
  enter: "h < length ps \<Longrightarrow> ps ! h = Out \<Longrightarrow> acquire_enter h (lk, cs) = Ret () (lk', cs') \<Longrightarrow>
    lock_step (lk, cs, ps) (lk', cs', ps[h := Spin])"
| swap: "h < length ps \<Longrightarrow> ps ! h = Spin \<Longrightarrow> test_and_set lk = (old, lk') \<Longrightarrow>
    lock_step (lk, cs, ps) (lk', cs, ps[h := if old \<noteq> 0 then Spin else Won])"
| own: "h < length ps \<Longrightarrow> ps ! h = Won \<Longrightarrow>
    lock_step (lk, cs, ps) (acquire_own h lk, cs, ps[h := Inside])"
| disown: "h < length ps \<Longrightarrow> ps ! h = Inside \<Longrightarrow> release_disown h lk = Ret () lk' \<Longrightarrow>
    lock_step (lk, cs, ps) (lk', cs, ps[h := Leaving])"
| free: "h < length ps \<Longrightarrow> ps ! h = Leaving \<Longrightarrow> release_free h (lk, cs) = Ret () (lk', cs') \<Longrightarrow>
    lock_step (lk, cs, ps) (lk', cs', ps[h := Out])"

definition lock_init :: "nat \<Rightarrow> string \<Rightarrow> lockstate" where
  "lock_init n nm = (initlock nm, replicate n \<lparr>cproc = None, noff = 0, intena = False, intr = True\<rparr>, replicate n Out)"

definition owns :: "pc \<Rightarrow> bool" where
  "owns c \<longleftrightarrow> c = Won \<or> c = Inside \<or> c = Leaving"

text \<open>
  The invariant: the lock word is set exactly while one CPU owns the lock, the recorded owner is
  the CPU inside, and interrupts are off on every CPU that is not outside.
\<close>

definition cpu_matches :: "cpu \<Rightarrow> pc \<Rightarrow> bool" where
  "cpu_matches c p \<longleftrightarrow>
     (if p = Out then noff c = 0 \<and> intr c else noff c = 1 \<and> \<not> intr c \<and> intena c)"

definition lock_inv_for :: "nat option \<Rightarrow> lockstate \<Rightarrow> bool" where
  "lock_inv_for own = (\<lambda>(lk, cs, ps).
     length cs = length ps \<and>
     (locked lk \<noteq> 0 \<longleftrightarrow> own \<noteq> None) \<and> (\<forall>h. own = Some h \<longrightarrow> h < length ps) \<and>
     (\<forall>h < length ps. owns (ps ! h) \<longleftrightarrow> own = Some h) \<and>
     (\<forall>h < length ps. lk_cpu lk = Some h \<longleftrightarrow> ps ! h = Inside) \<and>
     (\<forall>h < length ps. cpu_matches (cs ! h) (ps ! h)))"

definition lock_inv :: "lockstate \<Rightarrow> bool" where
  "lock_inv s \<longleftrightarrow> (\<exists>own. lock_inv_for own s)"

lemma lock_inv_init: "lock_inv (lock_init n nm)"
  unfolding lock_inv_def
  by (rule exI [of _ None]) (simp add: lock_inv_for_def lock_init_def initlock_def owns_def cpu_matches_def)

lemma owns_simps [simp]: "owns Won" "owns Inside" "owns Leaving" "\<not> owns Out" "\<not> owns Spin"
  by (simp_all add: owns_def)

text \<open>The owner moves on, and records or forgets itself.\<close>

lemma owner_step:
  assumes "lock_inv_for own (lk, cs, ps)" "h < length ps" "owns (ps ! h)" "owns x"
    and "locked lk' = locked lk" "lk_cpu lk' = (if x = Inside then Some h else None)"
  shows "lock_inv_for own (lk', cs, ps[h := x])"
proof -
  have o: "own = Some h" using assms(1-3) by (simp add: lock_inv_for_def)
  have "\<not> owns (ps ! g)" if "g < length ps" "g \<noteq> h" for g
    using assms(1) that o by (simp add: lock_inv_for_def)
  then have "ps ! g \<noteq> Inside" if "g < length ps" "g \<noteq> h" for g using that by fastforce
  moreover have "x \<noteq> Out" "ps ! h \<noteq> Out" using assms(3,4) by auto
  ultimately show ?thesis
    using assms o by (simp add: lock_inv_for_def cpu_matches_def nth_list_update)
qed

lemma lock_inv_step:
  assumes "lock_step s t" "lock_inv s"
  shows "lock_inv t"
proof -
  from assms(2) obtain own where "lock_inv_for own s" by (auto simp: lock_inv_def)
  with assms(1) show ?thesis
  proof (induction rule: lock_step.induct)
    case (enter h ps lk cs lk' cs')
    then have "lk' = lk" "cs' = push_off h cs"
      by (auto simp: acquire_enter_def Let_def split: if_splits)
    with enter have "lock_inv_for own (lk', cs', ps[h := Spin])"
      by (auto simp: lock_inv_for_def push_off_def Let_def cpu_matches_def nth_list_update)
    then show ?case by (auto simp: lock_inv_def)
  next
    case (swap h ps lk old lk' cs)
    then have "lock_inv_for (if old \<noteq> 0 then own else Some h) (lk', cs, ps[h := if old \<noteq> 0 then Spin else Won])"
      by (auto simp: lock_inv_for_def test_and_set_def cpu_matches_def nth_list_update)
    then show ?case unfolding lock_inv_def by blast
  next
    case (own h ps lk cs)
    then have "lock_inv_for own (acquire_own h lk, cs, ps[h := Inside])"
      by (intro owner_step [of own lk]) (simp_all add: acquire_own_def)
    then show ?case by (auto simp: lock_inv_def)
  next
    case (disown h ps lk lk' cs)
    then have "lk' = lk\<lparr>lk_cpu := None\<rparr>" by (auto simp: release_disown_def split: if_splits)
    with disown have "lock_inv_for own (lk', cs, ps[h := Leaving])"
      by (intro owner_step [of own lk]) simp_all
    then show ?case by (auto simp: lock_inv_def)
  next
    case (free h ps lk cs lk' cs')
    then have o: "own = Some h" and len: "length cs = length ps" and m: "cpu_matches (cs ! h) Leaving"
      by (force simp: lock_inv_for_def)+
    have "lk' = lk\<lparr>locked := 0\<rparr>" "cs' = cs[h := (cs ! h)\<lparr>noff := 0, intr := True\<rparr>]"
      using free(3) m by (auto simp: release_free_def pop_off_def Let_def cpu_matches_def split: if_splits)
    with free(1,2,4) o len have "lock_inv_for None (lk', cs', ps[h := Out])"
      by (auto simp: lock_inv_for_def cpu_matches_def nth_list_update)
    then show ?case by (auto simp: lock_inv_def)
  qed
qed

lemma lock_inv_reach: "lock_step\<^sup>*\<^sup>* (lock_init n nm) s \<Longrightarrow> lock_inv s"
  by (induction rule: rtranclp_induct) (auto intro: lock_inv_init lock_inv_step)

section \<open>Properties\<close>

text \<open>
  C6. Mutual exclusion of spin locks: with any number of CPUs running \<open>acquire\<close> and \<open>release\<close> in any
  interleaving of their atomic accesses, at most one CPU is past the swap of \<open>acquire\<close> and not yet
  past the release, interrupts are off on every CPU from the start of \<open>acquire\<close> to the end of
  \<open>release\<close>, and none of the sanity checks of the two routines ever panics.
\<close>

theorem spinlock_mutual_exclusion:
  assumes "lock_step\<^sup>*\<^sup>* (lock_init n nm) (lk, cs, ps)"
  shows "(\<forall>g < n. \<forall>h < n. owns (ps ! g) \<and> owns (ps ! h) \<longrightarrow> g = h) \<and>
    (\<forall>h < n. ps ! h \<noteq> Out \<longrightarrow> \<not> intr (cs ! h)) \<and>
    (\<forall>h < n. (ps ! h = Out \<longrightarrow> returns (acquire_enter h (lk, cs)) (\<lambda>_ _. True)) \<and>
       (ps ! h = Inside \<longrightarrow> returns (release_disown h lk) (\<lambda>_ _. True)) \<and>
       (ps ! h = Leaving \<longrightarrow> returns (release_free h (lk, cs)) (\<lambda>_ _. True)))"
proof -
  obtain own where inv: "lock_inv_for own (lk, cs, ps)"
    using lock_inv_reach [OF assms] by (auto simp: lock_inv_def)
  have "length (snd (snd t)) = n" if "lock_step\<^sup>*\<^sup>* (lock_init n nm) t" for t
    using that by (induction rule: rtranclp_induct) (auto simp: lock_init_def elim!: lock_step.cases)
  from this [OF assms] have n: "length ps = n" by simp
  have "returns (acquire_enter h (lk, cs)) (\<lambda>_ _. True)" if "h < n" "ps ! h = Out" for h
    using inv that n by (auto simp: acquire_enter_def Let_def holding_def lock_inv_for_def)
  moreover have "returns (release_disown h lk) (\<lambda>_ _. True)" if "h < n" "ps ! h = Inside" for h
  proof -
    have "own = Some h" using inv that n by (force simp: lock_inv_for_def)
    then show ?thesis using inv that n by (simp add: release_disown_def holding_def lock_inv_for_def)
  qed
  moreover have "returns (release_free h (lk, cs)) (\<lambda>_ _. True)" if "h < n" "ps ! h = Leaving" for h
    using inv that n
    by (force simp: release_free_def pop_off_def Let_def lock_inv_for_def cpu_matches_def)
  moreover have "\<forall>g < n. \<forall>h < n. owns (ps ! g) \<and> owns (ps ! h) \<longrightarrow> g = h"
    using inv n by (auto simp: lock_inv_for_def)
  moreover have "\<forall>h < n. ps ! h \<noteq> Out \<longrightarrow> \<not> intr (cs ! h)"
    using inv n by (simp add: lock_inv_for_def cpu_matches_def)
  ultimately show ?thesis by blast
qed

text \<open>Two CPUs: CPU 1 has entered the critical section while CPU 0 spins.\<close>

theorem spinlock_mutual_exclusion_witness:
  "\<exists>lk cs ps. lock_step\<^sup>*\<^sup>* (lock_init 2 ''kmem'') (lk, cs, ps) \<and> ps = [Spin, Inside] \<and>
     \<not> intr (cs ! 0) \<and> returns (release_disown 1 lk) (\<lambda>_ _. True)"
proof -
  let ?c = "\<lparr>cproc = None, noff = 0, intena = False, intr = True\<rparr> :: cpu"
  let ?d = "\<lparr>cproc = None, noff = 1, intena = True, intr = False\<rparr> :: cpu"
  let ?l = "\<lambda>w q. \<lparr>locked = w, lk_name = ''kmem'', lk_cpu = q\<rparr> :: spinlock"
  note ev = acquire_enter_def push_off_def Let_def holding_def test_and_set_def acquire_own_def
  have 1: "lock_step (?l 0 None, [?c, ?c], [Out, Out]) (?l 0 None, [?c, ?d], [Out, Spin])"
    using lock_step.enter [of 1 "[Out, Out]" "?l 0 None" "[?c, ?c]" "?l 0 None" "[?c, ?d]"] by (simp add: ev)
  have 2: "lock_step (?l 0 None, [?c, ?d], [Out, Spin]) (?l 0 None, [?d, ?d], [Spin, Spin])"
    using lock_step.enter [of 0 "[Out, Spin]" "?l 0 None" "[?c, ?d]" "?l 0 None" "[?d, ?d]"] by (simp add: ev)
  have 3: "lock_step (?l 0 None, [?d, ?d], [Spin, Spin]) (?l 1 None, [?d, ?d], [Spin, Won])"
    using lock_step.swap [of 1 "[Spin, Spin]" "?l 0 None" 0 "?l 1 None" "[?d, ?d]"] by (simp add: ev)
  have 4: "lock_step (?l 1 None, [?d, ?d], [Spin, Won]) (?l 1 (Some 1), [?d, ?d], [Spin, Inside])"
    using lock_step.own [of 1 "[Spin, Won]" "?l 1 None" "[?d, ?d]"] by (simp add: ev)
  have i: "lock_init 2 ''kmem'' = (?l 0 None, [?c, ?c], [Out, Out])"
    by (simp add: lock_init_def initlock_def numeral_2_eq_2)
  have r: "lock_step\<^sup>*\<^sup>* (lock_init 2 ''kmem'') (?l 1 (Some 1), [?d, ?d], [Spin, Inside])"
    unfolding i
    by (rule converse_rtranclp_into_rtranclp, rule 1, rule converse_rtranclp_into_rtranclp, rule 2,
        rule converse_rtranclp_into_rtranclp, rule 3, rule converse_rtranclp_into_rtranclp, rule 4,
        rule rtranclp.rtrancl_refl)
  from spinlock_mutual_exclusion [OF r] have "returns (release_disown 1 (?l 1 (Some 1))) (\<lambda>_ _. True)"
    by simp
  then show ?thesis
    by (intro exI [of _ "?l 1 (Some 1)"] exI [of _ "[?d, ?d]"] exI [of _ "[Spin, Inside]"] conjI r) simp_all
qed

end
