(* ===== verification/Bytes.thy ===== *)
theory Bytes
  imports Prelude
begin

text \<open>
  The byte layout of C objects: little-endian 16-, 32- and 64-bit integers inside a buffer of bytes. A
  field of a structure that lies in a disk block or in a copied buffer is read and written with
  \<open>get16\<close>, \<open>get32\<close>, \<open>get64\<close>, \<open>put16\<close> and \<open>put32\<close> at its offset.
\<close>

definition le16 :: "u16 \<Rightarrow> u8 list" where
  "le16 w = [ucast w, ucast (drop_bit 8 w)]"

definition le32 :: "u32 \<Rightarrow> u8 list" where
  "le32 w = [ucast w, ucast (drop_bit 8 w), ucast (drop_bit 16 w), ucast (drop_bit 24 w)]"

definition le64 :: "u64 \<Rightarrow> u8 list" where
  "le64 w = le32 (ucast w) @ le32 (ucast (drop_bit 32 w))"

definition of_le16 :: "u8 list \<Rightarrow> u16" where
  "of_le16 bs = ucast (bs ! 0) OR push_bit 8 (ucast (bs ! 1))"

definition of_le32 :: "u8 list \<Rightarrow> u32" where
  "of_le32 bs = ucast (bs ! 0) OR push_bit 8 (ucast (bs ! 1)) OR push_bit 16 (ucast (bs ! 2)) OR push_bit 24 (ucast (bs ! 3))"

definition of_le64 :: "u8 list \<Rightarrow> u64" where
  "of_le64 bs = ucast (of_le32 (take 4 bs)) OR push_bit 32 (ucast (of_le32 (drop 4 bs)))"

definition get16 :: "nat \<Rightarrow> u8 list \<Rightarrow> u16" where "get16 i bs = of_le16 (take 2 (drop i bs))"
definition get32 :: "nat \<Rightarrow> u8 list \<Rightarrow> u32" where "get32 i bs = of_le32 (take 4 (drop i bs))"
definition get64 :: "nat \<Rightarrow> u8 list \<Rightarrow> u64" where "get64 i bs = of_le64 (take 8 (drop i bs))"

text \<open>\<open>splice i xs bs\<close>: the bytes \<open>xs\<close> stored into \<open>bs\<close> from offset \<open>i\<close> on.\<close>

definition splice :: "nat \<Rightarrow> u8 list \<Rightarrow> u8 list \<Rightarrow> u8 list" where
  "splice i xs bs = take i bs @ xs @ drop (i + length xs) bs"

definition put16 :: "nat \<Rightarrow> u16 \<Rightarrow> u8 list \<Rightarrow> u8 list" where "put16 i w bs = splice i (le16 w) bs"
definition put32 :: "nat \<Rightarrow> u32 \<Rightarrow> u8 list \<Rightarrow> u8 list" where "put32 i w bs = splice i (le32 w) bs"

section \<open>Round trips\<close>

lemma length_le [simp]: "length (le16 w) = 2" "length (le32 v) = 4" "length (le64 u) = 8"
  by (simp_all add: le16_def le32_def le64_def)

lemma of_le16_le16 [simp]: "of_le16 (le16 w) = w"
  by (rule bit_word_eqI) (auto simp: of_le16_def le16_def bit_simps)

lemma of_le32_le32 [simp]: "of_le32 (le32 w) = w"
proof (rule bit_word_eqI)
  fix n assume "n < LENGTH(32)"
  then consider "n < 8" | "8 \<le> n" "n < 16" | "16 \<le> n" "n < 24" | "24 \<le> n" "n < 32" by fastforce
  then show "bit (of_le32 (le32 w)) n = bit w n"
    by cases (auto simp: of_le32_def le32_def bit_simps)
qed

lemma of_le64_le64 [simp]: "of_le64 (le64 w) = w"
proof (rule bit_word_eqI)
  fix n assume "n < LENGTH(64)"
  then consider "n < 32" | "32 \<le> n" "n < 64" by fastforce
  then show "bit (of_le64 (le64 w)) n = bit w n"
    by cases (auto simp: of_le64_def le64_def bit_simps)
qed

lemma bit_beyond: "8 \<le> k \<Longrightarrow> \<not> bit (x :: u8) (k + n)"
  using bit_imp_le_length [of x "k + n"] by auto

lemma le32_eq: "length bs = 4 \<Longrightarrow> le32 (of_le32 bs) = bs"
proof -
  assume "length bs = 4"
  then obtain a b c d where bs: "bs = [a, b, c, d]" by (auto simp: numeral_eq_Suc length_Suc_conv)
  show ?thesis unfolding bs le32_def of_le32_def
    by (auto intro!: bit_word_eqI simp: bit_simps bit_beyond)
qed

lemma le16_eq: "length bs = 2 \<Longrightarrow> le16 (of_le16 bs) = bs"
proof -
  assume "length bs = 2"
  then obtain a b where bs: "bs = [a, b]" by (auto simp: numeral_eq_Suc length_Suc_conv)
  show ?thesis unfolding bs le16_def of_le16_def
    by (auto intro!: bit_word_eqI simp: bit_simps bit_beyond)
qed

lemma length_splice [simp]: "i + length xs \<le> length bs \<Longrightarrow> length (splice i xs bs) = length bs"
  by (simp add: splice_def)

lemma splice_same: "i + length xs \<le> length bs \<Longrightarrow> take (length xs) (drop i (splice i xs bs)) = xs"
  by (simp add: splice_def)

lemma nth_splice:
  "i + length xs \<le> length bs \<Longrightarrow> j < length bs \<Longrightarrow>
   splice i xs bs ! j = (if i \<le> j \<and> j < i + length xs then xs ! (j - i) else bs ! j)"
  by (auto simp: splice_def nth_append min_def)

lemma splice_other:
  assumes "i + length xs \<le> length bs" "j + n \<le> i \<or> i + length xs \<le> j"
  shows "take n (drop j (splice i xs bs)) = take n (drop j bs)"
proof (rule nth_equalityI)
  show "length (take n (drop j (splice i xs bs))) = length (take n (drop j bs))" using assms(1) by simp
  fix k assume "k < length (take n (drop j (splice i xs bs)))"
  then have "k < n" "j + k < length bs" using assms(1) by auto
  then show "take n (drop j (splice i xs bs)) ! k = take n (drop j bs) ! k"
    using assms by (auto simp: nth_splice)
qed

lemma length_put [simp]:
  "i + 4 \<le> length bs \<Longrightarrow> length (put32 i w bs) = length bs" "i + 2 \<le> length bs \<Longrightarrow> length (put16 i v bs) = length bs"
  by (simp_all add: put32_def put16_def)

lemma get32_put32 [simp]:
  "i + 4 \<le> length bs \<Longrightarrow> get32 i (put32 i w bs) = w"
  "i + 4 \<le> length bs \<Longrightarrow> j + 4 \<le> i \<or> i + 4 \<le> j \<Longrightarrow> get32 j (put32 i w bs) = get32 j bs"
  using splice_same [of i "le32 w" bs] splice_other [of i "le32 w" bs j 4] by (auto simp: get32_def put32_def)

lemma get16_put16 [simp]:
  "i + 2 \<le> length bs \<Longrightarrow> get16 i (put16 i w bs) = w"
  "i + 2 \<le> length bs \<Longrightarrow> j + 2 \<le> i \<or> i + 2 \<le> j \<Longrightarrow> get16 j (put16 i w bs) = get16 j bs"
  using splice_same [of i "le16 w" bs] splice_other [of i "le16 w" bs j 2] by (auto simp: get16_def put16_def)

end
