(* ===== verification/Proc.thy ===== *)
theory Proc
  imports Vm Spinlock Bytes
begin

text \<open>
  Processes, kernel/proc.h and kernel/proc.c: the process table, the routines on it that do not
  reach into the file system, sleep and wakeup, and the metrics this kernel adds (time per
  process, the overhead, efficiency and fairness counters, the process types). A process is named
  by its slot in the table. The critical sections of the routines are taken as single steps (see
  the theory of spin locks). The trap frame of a process is a page of physical memory, and the
  registers in it are read and written there.
\<close>

section \<open>State\<close>

datatype procstate = UNUSED | USED | SLEEPING | RUNNABLE | RUNNING | ZOMBIE

text \<open>
  \<open>p_chan\<close>, \<open>p_parent\<close>, \<open>p_cwd\<close> and the entries of \<open>p_ofile\<close> are pointers; \<open>None\<close> is the null
  pointer. \<open>p_killed\<close> stands for a non-zero \<open>killed\<close>. The \<open>int\<close> fields are 32-bit words.
\<close>

record proc =
  p_state :: procstate
  p_chan :: "chan option"
  p_killed :: bool
  p_xstate :: u32
  p_pid :: u32
  p_parent :: "nat option"
  p_kstack :: u64
  p_sz :: u64
  p_pagetable :: u64
  p_trapframe :: u64
  p_context_ra :: u64
  p_context_sp :: u64
  p_ofile :: "nat option list"
  p_cwd :: "nat option"
  p_name :: "u8 list"
  p_tempo_total :: u32
  p_overhead :: u32
  p_eficiencia :: u32
  p_type :: u32

text \<open>
  The globals of kernel/proc.c and the tick counter of kernel/trap.c, on top of the allocator.
  \<open>hart\<close> is the number of the CPU that executes (register tp). \<open>trampoline\<close> and \<open>forkret_addr\<close>
  are the addresses of code, fixed by the linker.
\<close>

record pstate = kmem +
  procs :: "proc list"
  cpus :: "cpu list"
  hart :: nat
  initproc :: "nat option"
  nextpid :: u32
  ticks :: u32
  overheads :: "u32 list"
  eficiencias :: "u32 list"
  justicas :: "u32 list"
  trampoline :: u64
  forkret_addr :: u64

definition DEFAULT :: u32 where [params]: "DEFAULT = 1"
definition CPU_BOUND :: u32 where [params]: "CPU_BOUND = 2"
definition IO_BOUND :: u32 where [params]: "IO_BOUND = 3"
definition MODE_EFICIENCIA :: u32 where [params]: "MODE_EFICIENCIA = 10"
definition MODE_OVERHEAD :: u32 where [params]: "MODE_OVERHEAD = 8"

definition upd_proc :: "nat \<Rightarrow> (proc \<Rightarrow> proc) \<Rightarrow> 'a pstate_scheme \<Rightarrow> 'a pstate_scheme" where
  "upd_proc i f s = s\<lparr>procs := (procs s)[i := f (procs s ! i)]\<rparr>"

definition myproc :: "'a pstate_scheme \<Rightarrow> nat option" where
  "myproc s = cproc (cpus s ! hart s)"

text \<open>Code that follows \<open>myproc()\<close> as a pointer.\<close>

definition with_proc :: "'a pstate_scheme \<Rightarrow> (nat \<Rightarrow> ('x, 'a pstate_scheme) run) \<Rightarrow> ('x, 'a pstate_scheme) run" where
  "with_proc s f = (case myproc s of None \<Rightarrow> Undef | Some me \<Rightarrow> f me)"

section \<open>Trap frames\<close>

text \<open>The offsets of the fields of \<open>struct trapframe\<close> that C code uses, as the structure has them.\<close>

definition tf_kernel_satp :: u64 where [params]: "tf_kernel_satp = 0"
definition tf_kernel_sp :: u64 where [params]: "tf_kernel_sp = 8"
definition tf_kernel_trap :: u64 where [params]: "tf_kernel_trap = 16"
definition tf_epc :: u64 where [params]: "tf_epc = 24"
definition tf_kernel_hartid :: u64 where [params]: "tf_kernel_hartid = 32"
definition tf_sp :: u64 where [params]: "tf_sp = 48"
definition tf_a :: "nat \<Rightarrow> u64" where "tf_a n = 112 + 8 * of_nat n"
definition trapframe_size :: u32 where [params]: "trapframe_size = 288"

definition get_tf :: "'a pstate_scheme \<Rightarrow> nat \<Rightarrow> u64 \<Rightarrow> u64" where
  "get_tf s i off = load64 (phys s) (p_trapframe (procs s ! i) + off)"

definition set_tf :: "nat \<Rightarrow> u64 \<Rightarrow> u64 \<Rightarrow> 'a pstate_scheme \<Rightarrow> 'a pstate_scheme" where
  "set_tf i off v s = s\<lparr>phys := store64 (phys s) (p_trapframe (procs s ! i) + off) v\<rparr>"

section \<open>Start-up\<close>

definition proc_mapstacks :: "'a pstate_scheme \<Rightarrow> u64 \<Rightarrow> (unit, 'a pstate_scheme) run" where
  "proc_mapstacks s kpgtbl =
     each (\<lambda>p s. bnd (kalloc s) (\<lambda>pa s.
         if pa = 0 then Panic ''kalloc''
         else kvmmap s kpgtbl (KSTACK p) pa PGSIZE (PTE_R OR PTE_W)))
       [0..<NPROC] s"

definition procinit :: "'a pstate_scheme \<Rightarrow> 'a pstate_scheme" where
  "procinit s =
     s\<lparr>procs := map (\<lambda>i. (procs s ! i)\<lparr>p_state := UNUSED, p_kstack := KSTACK i\<rparr>) [0..<NPROC]\<rparr>"

text \<open>\<open>etext\<close> is the linker's end of the kernel text.\<close>

definition UART0 :: u64 where [params]: "UART0 = 0x10000000"
definition VIRTIO0 :: u64 where [params]: "VIRTIO0 = 0x10001000"
definition PLIC :: u64 where [params]: "PLIC = 0x0c000000"

definition kvmmake :: "'a pstate_scheme \<Rightarrow> u64 \<Rightarrow> (u64, 'a pstate_scheme) run" where
  "kvmmake s etext =
     bnd (kalloc s) (\<lambda>kpgtbl s.
     let s = s\<lparr>phys := memset (phys s) kpgtbl 0 (ucast PGSIZE)\<rparr> in
     bnd (kvmmap s kpgtbl UART0 UART0 PGSIZE (PTE_R OR PTE_W)) (\<lambda>_ s.
     bnd (kvmmap s kpgtbl VIRTIO0 VIRTIO0 PGSIZE (PTE_R OR PTE_W)) (\<lambda>_ s.
     bnd (kvmmap s kpgtbl PLIC PLIC 0x4000000 (PTE_R OR PTE_W)) (\<lambda>_ s.
     bnd (kvmmap s kpgtbl KERNBASE KERNBASE (etext - KERNBASE) (PTE_R OR PTE_X)) (\<lambda>_ s.
     bnd (kvmmap s kpgtbl etext etext (PHYSTOP - etext) (PTE_R OR PTE_W)) (\<lambda>_ s.
     bnd (kvmmap s kpgtbl TRAMPOLINE (trampoline s) PGSIZE (PTE_R OR PTE_X)) (\<lambda>_ s.
     bnd (proc_mapstacks s kpgtbl) (\<lambda>_ s.
     Ret kpgtbl s))))))))"

section \<open>Allocating and freeing processes\<close>

definition allocpid :: "'a pstate_scheme \<Rightarrow> u32 \<times> 'a pstate_scheme" where
  "allocpid s = (nextpid s, s\<lparr>nextpid := nextpid s + 1\<rparr>)"

definition proc_pagetable :: "'a pstate_scheme \<Rightarrow> nat \<Rightarrow> (u64, 'a pstate_scheme) run" where
  "proc_pagetable s p =
     bnd (uvmcreate s) (\<lambda>pagetable s.
       if pagetable = 0 then Ret 0 s
       else bnd (mappages s pagetable TRAMPOLINE PGSIZE (trampoline s) (PTE_R OR PTE_X)) (\<lambda>ok s.
         if \<not> ok then bnd (uvmfree s pagetable 0) (\<lambda>_ s. Ret 0 s)
         else bnd (mappages s pagetable TRAPFRAME PGSIZE (p_trapframe (procs s ! p)) (PTE_R OR PTE_W)) (\<lambda>ok s.
           if \<not> ok then bnd (uvmunmap s pagetable TRAMPOLINE 1 False) (\<lambda>_ s.
                         bnd (uvmfree s pagetable 0) (\<lambda>_ s. Ret 0 s))
           else Ret pagetable s)))"

definition proc_freepagetable :: "'a pstate_scheme \<Rightarrow> u64 \<Rightarrow> u64 \<Rightarrow> (unit, 'a pstate_scheme) run" where
  "proc_freepagetable s pagetable sz =
     bnd (uvmunmap s pagetable TRAMPOLINE 1 False) (\<lambda>_ s.
     bnd (uvmunmap s pagetable TRAPFRAME 1 False) (\<lambda>_ s.
     uvmfree s pagetable sz))"

definition freeproc :: "'a pstate_scheme \<Rightarrow> nat \<Rightarrow> (unit, 'a pstate_scheme) run" where
  "freeproc s p =
     bnd (if p_trapframe (procs s ! p) \<noteq> 0 then kfree s (p_trapframe (procs s ! p)) else Ret () s) (\<lambda>_ s.
     let s = upd_proc p (\<lambda>q. q\<lparr>p_trapframe := 0\<rparr>) s in
     bnd (if p_pagetable (procs s ! p) \<noteq> 0
          then proc_freepagetable s (p_pagetable (procs s ! p)) (p_sz (procs s ! p)) else Ret () s) (\<lambda>_ s.
     Ret () (upd_proc p (\<lambda>q. q\<lparr>p_pagetable := 0, p_sz := 0, p_pid := 0, p_parent := None, p_name := [],
       p_chan := None, p_killed := False, p_xstate := 0, p_state := UNUSED\<rparr>) s)))"

text \<open>The slot of the new process, \<open>None\<close> for the return value 0.\<close>

definition allocproc :: "'a pstate_scheme \<Rightarrow> (nat option, 'a pstate_scheme) run" where
  "allocproc s =
     (case first_slot (\<lambda>p. p_state p = UNUSED) (procs s) of
        None \<Rightarrow> Ret None s
      | Some p \<Rightarrow>
          let (pid, s) = allocpid s;
              s = upd_proc p (\<lambda>q. q\<lparr>p_pid := pid, p_state := USED, p_tempo_total := 0, p_overhead := 0,
                    p_eficiencia := 0, p_type := DEFAULT\<rparr>) s
          in bnd (kalloc s) (\<lambda>tf s.
            let s = upd_proc p (\<lambda>q. q\<lparr>p_trapframe := tf\<rparr>) s
            in if tf = 0 then bnd (freeproc s p) (\<lambda>_ s. Ret None s)
               else bnd (proc_pagetable s p) (\<lambda>pt s.
                 let s = upd_proc p (\<lambda>q. q\<lparr>p_pagetable := pt\<rparr>) s
                 in if pt = 0 then bnd (freeproc s p) (\<lambda>_ s. Ret None s)
                    else Ret (Some p) (upd_proc p (\<lambda>q. q\<lparr>p_context_ra := forkret_addr s,
                           p_context_sp := p_kstack q + PGSIZE\<rparr>) s))))"

text \<open>\<open>n\<close> is an \<open>int\<close>; in \<open>sz + n\<close> it is sign-extended to 64 bits.\<close>

definition growproc :: "'a pstate_scheme \<Rightarrow> u32 \<Rightarrow> (bool, 'a pstate_scheme) run" where
  "growproc s n =
     with_proc s (\<lambda>me.
       let sz = p_sz (procs s ! me); pt = p_pagetable (procs s ! me)
       in if 0 <s n
          then bnd (uvmalloc s pt sz (sz + scast n) PTE_W) (\<lambda>sz s.
            if sz = 0 then Ret False s else Ret True (upd_proc me (\<lambda>q. q\<lparr>p_sz := sz\<rparr>) s))
          else if n <s 0
          then bnd (uvmdealloc s pt sz (sz + scast n)) (\<lambda>sz s.
            Ret True (upd_proc me (\<lambda>q. q\<lparr>p_sz := sz\<rparr>) s))
          else Ret True (upd_proc me (\<lambda>q. q\<lparr>p_sz := sz\<rparr>) s))"

section \<open>Sleep, wakeup and kill\<close>

text \<open>
  \<open>sleep\<close> ends in the scheduler: the outcome carries the state it leaves. What a sleeper does when
  it runs again is \<open>awake\<close> and then whatever follows the call.
\<close>

definition sleep :: "chan \<Rightarrow> 'a pstate_scheme \<Rightarrow> ('x, 'a pstate_scheme) run" where
  "sleep c s =
     with_proc s (\<lambda>me. Sleep c (upd_proc me (\<lambda>q. q\<lparr>p_chan := Some c, p_state := SLEEPING\<rparr>) s))"

definition awake :: "nat \<Rightarrow> 'a pstate_scheme \<Rightarrow> 'a pstate_scheme" where
  "awake me s = upd_proc me (\<lambda>q. q\<lparr>p_chan := None\<rparr>) s"

definition wake_proc :: "chan option \<Rightarrow> proc \<Rightarrow> proc" where
  "wake_proc c p = (if p_state p = SLEEPING \<and> p_chan p = c then p\<lparr>p_state := RUNNABLE\<rparr> else p)"

definition wakeup :: "chan option \<Rightarrow> 'a pstate_scheme \<Rightarrow> 'a pstate_scheme" where
  "wakeup c s =
     s\<lparr>procs := map (\<lambda>i. if Some i \<noteq> myproc s then wake_proc c (procs s ! i) else procs s ! i)
        [0..<length (procs s)]\<rparr>"

definition kill :: "u32 \<Rightarrow> 'a pstate_scheme \<Rightarrow> bool \<times> 'a pstate_scheme" where
  "kill pid s =
     (case first_slot (\<lambda>p. p_pid p = pid) (procs s) of
        None \<Rightarrow> (False, s)
      | Some i \<Rightarrow> (True, upd_proc i (\<lambda>q. q\<lparr>p_killed := True,
          p_state := (if p_state q = SLEEPING then RUNNABLE else p_state q)\<rparr>) s))"

definition setkilled :: "nat \<Rightarrow> 'a pstate_scheme \<Rightarrow> 'a pstate_scheme" where
  "setkilled p s = upd_proc p (\<lambda>q. q\<lparr>p_killed := True\<rparr>) s"

definition killed :: "'a pstate_scheme \<Rightarrow> nat \<Rightarrow> bool" where
  "killed s p = p_killed (procs s ! p)"

definition yield_state :: "nat \<Rightarrow> 'a pstate_scheme \<Rightarrow> 'a pstate_scheme" where
  "yield_state me s = upd_proc me (\<lambda>q. q\<lparr>p_state := RUNNABLE\<rparr>) s"

definition reparent :: "nat \<Rightarrow> 'a pstate_scheme \<Rightarrow> 'a pstate_scheme" where
  "reparent p s =
     fold (\<lambda>i s. if p_parent (procs s ! i) = Some p
                 then wakeup (map_option ChProc (initproc s)) (upd_proc i (\<lambda>q. q\<lparr>p_parent := initproc s\<rparr>) s)
                 else s)
       [0..<length (procs s)] s"

text \<open>
  One round of the loop of \<open>wait\<close>, under \<open>wait_lock\<close>: it returns, or it sleeps and the woken process
  runs it again. The result -1 is \<open>None\<close>.
\<close>

definition wait :: "u64 \<Rightarrow> 'a pstate_scheme \<Rightarrow> (u32 option, 'a pstate_scheme) run" where
  "wait addr s =
     with_proc s (\<lambda>me.
       case first_slot (\<lambda>p. p_parent p = Some me \<and> p_state p = ZOMBIE) (procs s) of
         Some i \<Rightarrow>
           let pid = p_pid (procs s ! i)
           in bnd (if addr \<noteq> 0
                   then copyout s (p_pagetable (procs s ! me)) addr (le32 (p_xstate (procs s ! i)))
                   else Ret True s) (\<lambda>ok s.
             if \<not> ok then Ret None s
             else bnd (freeproc s i) (\<lambda>_ s. Ret (Some pid) s))
       | None \<Rightarrow>
           if (\<forall>p \<in> set (procs s). p_parent p \<noteq> Some me) \<or> killed s me then Ret None s
           else sleep (ChProc me) s)"

section \<open>Copying for the drivers\<close>

text \<open>
  A kernel address is a physical address, since the kernel maps memory one to one.
\<close>

definition either_copyout :: "'a pstate_scheme \<Rightarrow> bool \<Rightarrow> u64 \<Rightarrow> u8 list \<Rightarrow> (bool, 'a pstate_scheme) run" where
  "either_copyout s user_dst dst src =
     (if user_dst then with_proc s (\<lambda>me. copyout s (p_pagetable (procs s ! me)) dst src)
      else Ret True (s\<lparr>phys := store_bytes (phys s) dst src\<rparr>))"

definition either_copyin :: "'a pstate_scheme \<Rightarrow> bool \<Rightarrow> u64 \<Rightarrow> nat \<Rightarrow> (bool \<times> u8 list, 'a pstate_scheme) run" where
  "either_copyin s user_src src len =
     (if user_src then with_proc s (\<lambda>me. copyin s (p_pagetable (procs s ! me)) src len)
      else Ret (True, load_bytes (phys s) src len) s)"

section \<open>What the routines leave alone\<close>

lemma kmem_only_pstate:
  assumes "kmem_only s t"
  shows "procs t = procs s" "cpus t = cpus s" "hart t = hart s" "initproc t = initproc s"
    "nextpid t = nextpid s" "ticks t = ticks s" "pstate.more t = pstate.more s"
    "forkret_addr t = forkret_addr s"
  using assms by (cases s; cases t; simp add: kmem_only_def)+

lemma kmem_only_myproc: "kmem_only s t \<Longrightarrow> myproc t = myproc s"
  by (simp add: myproc_def kmem_only_pstate)

lemma procs_upd [simp]: "procs (upd_proc i f s) = (procs s)[i := f (procs s ! i)]"
  by (simp add: upd_proc_def)

lemma upd_proc_fields [simp]:
  "cpus (upd_proc i f s) = cpus s" "hart (upd_proc i f s) = hart s" "initproc (upd_proc i f s) = initproc s"
  "nextpid (upd_proc i f s) = nextpid s" "ticks (upd_proc i f s) = ticks s" "phys (upd_proc i f s) = phys s"
  "freelist (upd_proc i f s) = freelist s" "kend (upd_proc i f s) = kend s" "myproc (upd_proc i f s) = myproc s"
  "overheads (upd_proc i f s) = overheads s" "eficiencias (upd_proc i f s) = eficiencias s"
  "justicas (upd_proc i f s) = justicas s" "forkret_addr (upd_proc i f s) = forkret_addr s"
  by (simp_all add: upd_proc_def myproc_def)

lemma proc_pagetable_only: "only (proc_pagetable s p) s"
  by (auto simp: proc_pagetable_def
      intro!: only_bnd uvmcreate_only mappages_only uvmfree_only keeps_only [OF uvmunmap_keeps])

lemma proc_freepagetable_only: "only (proc_freepagetable s pt sz) s"
  by (auto simp: proc_freepagetable_def intro!: only_bnd uvmfree_only keeps_only [OF uvmunmap_keeps])

definition freed :: "proc \<Rightarrow> proc" where
  "freed q = q\<lparr>p_trapframe := 0, p_pagetable := 0, p_sz := 0, p_pid := 0, p_parent := None, p_name := [],
     p_chan := None, p_killed := False, p_xstate := 0, p_state := UNUSED\<rparr>"

lemma freeproc_procs:
  assumes "freeproc s p = Ret () t" "p < length (procs s)"
  shows "procs t = (procs s)[p := freed (procs s ! p)] \<and> nextpid t = nextpid s \<and> cpus t = cpus s \<and>
    hart t = hart s \<and> initproc t = initproc s"
proof -
  let ?s1 = "\<lambda>s1. upd_proc p (\<lambda>q. q\<lparr>p_trapframe := 0\<rparr>) s1"
  obtain s1 where s1: "(if p_trapframe (procs s ! p) \<noteq> 0 then kfree s (p_trapframe (procs s ! p)) else Ret () s) = Ret () s1"
    using assms(1) by (auto simp: freeproc_def run_simps Let_def)
  have k1: "kmem_only s s1"
    using s1 keeps_only [OF kfree_keeps] by (auto simp: only_def split: if_splits)
  obtain s2 where s2: "(if p_pagetable (procs (?s1 s1) ! p) \<noteq> 0
          then proc_freepagetable (?s1 s1) (p_pagetable (procs (?s1 s1) ! p)) (p_sz (procs (?s1 s1) ! p))
          else Ret () (?s1 s1)) = Ret () s2"
    and t: "t = upd_proc p (\<lambda>q. q\<lparr>p_pagetable := 0, p_sz := 0, p_pid := 0, p_parent := None, p_name := [],
       p_chan := None, p_killed := False, p_xstate := 0, p_state := UNUSED\<rparr>) s2"
    using assms(1) s1 by (auto simp: freeproc_def run_simps Let_def)
  have k2: "kmem_only (?s1 s1) s2"
    using s2 proc_freepagetable_only by (auto simp: only_def split: if_splits)
  show ?thesis
    using assms(2) kmem_only_pstate [OF k1] kmem_only_pstate [OF k2] by (simp add: t freed_def)
qed

text \<open>What \<open>allocproc\<close> makes of the slot it takes; \<open>killed\<close> is not among the fields it sets.\<close>

definition fresh :: "u32 \<Rightarrow> u64 \<Rightarrow> u64 \<Rightarrow> u64 \<Rightarrow> proc \<Rightarrow> proc" where
  "fresh pid tf pt ra q = q\<lparr>p_pid := pid, p_state := USED, p_tempo_total := 0, p_overhead := 0,
     p_eficiencia := 0, p_type := DEFAULT, p_trapframe := tf, p_pagetable := pt, p_context_ra := ra,
     p_context_sp := p_kstack q + PGSIZE\<rparr>"

lemma allocproc_procs:
  assumes "allocproc s = Ret r t"
  shows "cpus t = cpus s \<and> hart t = hart s \<and> initproc t = initproc s \<and>
    (case first_slot (\<lambda>p. p_state p = UNUSED) (procs s) of
       None \<Rightarrow> r = None \<and> t = s
     | Some p \<Rightarrow> nextpid t = nextpid s + 1 \<and>
        (case r of
           None \<Rightarrow> \<exists>q. procs t = (procs s)[p := freed q] \<and> p_kstack q = p_kstack (procs s ! p) \<and>
             p_ofile q = p_ofile (procs s ! p) \<and> p_cwd q = p_cwd (procs s ! p)
         | Some p' \<Rightarrow> p' = p \<and> (\<exists>tf pt. tf \<noteq> 0 \<and> pt \<noteq> 0 \<and>
             procs t = (procs s)[p := fresh (nextpid s) tf pt (forkret_addr s) (procs s ! p)])))"
proof (cases "first_slot (\<lambda>p. p_state p = UNUSED) (procs s)")
  case None
  with assms show ?thesis by (simp add: allocproc_def)
next
  case (Some p)
  then have p: "p < length (procs s)" by (simp add: first_slot_Some)
  define s0 where "s0 = upd_proc p (\<lambda>q. q\<lparr>p_pid := nextpid s, p_state := USED, p_tempo_total := 0,
      p_overhead := 0, p_eficiencia := 0, p_type := DEFAULT\<rparr>) (s\<lparr>nextpid := nextpid s + 1\<rparr>)"
  from assms Some obtain tf s1 where k: "kalloc s0 = Ret tf s1" and
    rest: "(let s = upd_proc p (\<lambda>q. q\<lparr>p_trapframe := tf\<rparr>) s1
            in if tf = 0 then bnd (freeproc s p) (\<lambda>_ s. Ret None s)
               else bnd (proc_pagetable s p) (\<lambda>pt s.
                 let s = upd_proc p (\<lambda>q. q\<lparr>p_pagetable := pt\<rparr>) s
                 in if pt = 0 then bnd (freeproc s p) (\<lambda>_ s. Ret None s)
                    else Ret (Some p) (upd_proc p (\<lambda>q. q\<lparr>p_context_ra := forkret_addr s,
                           p_context_sp := p_kstack q + PGSIZE\<rparr>) s))) = Ret r t"
    by (auto simp: allocproc_def allocpid_def s0_def run_simps)
  have k1: "kmem_only s0 s1" using k keeps_only [OF kalloc_keeps] by (auto simp: only_def)
  note f1 = kmem_only_pstate [OF k1]
  have [simp]: "forkret_addr s1 = forkret_addr s" using f1(8) by (simp add: s0_def)
  show ?thesis
  proof (cases "tf = 0")
    case True
    with rest obtain t' where "freeproc (upd_proc p (\<lambda>q. q\<lparr>p_trapframe := tf\<rparr>) s1) p = Ret () t'" "t = t'" "r = None"
      by (auto simp: run_simps)
    with freeproc_procs [OF this(1)] p f1 Some show ?thesis
      by (simp add: s0_def) (auto intro!: exI simp: freed_def)
  next
    case False
    let ?s2 = "upd_proc p (\<lambda>q. q\<lparr>p_trapframe := tf\<rparr>) s1"
    from False rest obtain pt s3 where pp: "proc_pagetable ?s2 p = Ret pt s3" and
      rest3: "(let s = upd_proc p (\<lambda>q. q\<lparr>p_pagetable := pt\<rparr>) s3
                 in if pt = 0 then bnd (freeproc s p) (\<lambda>_ s. Ret None s)
                    else Ret (Some p) (upd_proc p (\<lambda>q. q\<lparr>p_context_ra := forkret_addr s,
                           p_context_sp := p_kstack q + PGSIZE\<rparr>) s)) = Ret r t"
      by (auto simp: run_simps)
    have k3: "kmem_only ?s2 s3" using pp proc_pagetable_only by (auto simp: only_def)
    note f3 = kmem_only_pstate [OF k3]
    show ?thesis
    proof (cases "pt = 0")
      case True
      with rest3 obtain t' where "freeproc (upd_proc p (\<lambda>q. q\<lparr>p_pagetable := pt\<rparr>) s3) p = Ret () t'" "t = t'" "r = None"
        by (auto simp: run_simps)
      with freeproc_procs [OF this(1)] p f1 f3 Some show ?thesis
        by (simp add: s0_def) (auto intro!: exI simp: freed_def)
    next
      case pt: False
      with rest3 have "r = Some p" "t = upd_proc p (\<lambda>q. q\<lparr>p_context_ra := forkret_addr s3,
                           p_context_sp := p_kstack q + PGSIZE\<rparr>) (upd_proc p (\<lambda>q. q\<lparr>p_pagetable := pt\<rparr>) s3)"
        by (auto simp: Let_def)
      moreover from this have "procs t = (procs s)[p := fresh (nextpid s) tf pt (forkret_addr s) (procs s ! p)]"
        using p f1 f3 by (simp add: s0_def fresh_def)
      ultimately show ?thesis using f1 f3 Some False pt by (auto simp: s0_def)
    qed
  qed
qed

section \<open>Process identifiers\<close>

text \<open>
  Slots in use carry distinct, non-zero identifiers below \<open>nextpid\<close>; free slots carry 0.
\<close>

definition pids_ok :: "u32 \<Rightarrow> proc list \<Rightarrow> bool" where
  "pids_ok n ps \<longleftrightarrow>
     (\<forall>i < length ps. (p_state (ps ! i) = UNUSED \<longleftrightarrow> p_pid (ps ! i) = 0) \<and> p_pid (ps ! i) < n) \<and>
     (\<forall>i < length ps. \<forall>j < length ps. p_pid (ps ! i) = p_pid (ps ! j) \<longrightarrow> p_pid (ps ! i) \<noteq> 0 \<longrightarrow> i = j)"

lemma pids_ok_same:
  assumes "pids_ok n ps" "length qs = length ps"
    and "\<And>i. i < length ps \<Longrightarrow> p_pid (qs ! i) = p_pid (ps ! i) \<and> (p_state (qs ! i) = UNUSED \<longleftrightarrow> p_state (ps ! i) = UNUSED)"
  shows "pids_ok n qs"
  using assms unfolding pids_ok_def by simp

lemma pids_ok_freed:
  assumes "pids_ok n ps" "p_pid q = 0" "p_state q = UNUSED" "0 < n"
  shows "pids_ok n (ps[i := q])"
  using assms unfolding pids_ok_def
  by (cases "i < length ps") (auto simp: nth_list_update split: if_splits)

lemma pids_ok_fresh:
  assumes "pids_ok n ps" "p_pid q = n" "p_state q \<noteq> UNUSED" "n < n + 1" "n \<noteq> 0" "i < length ps"
  shows "pids_ok (n + 1) (ps[i := q])"
proof -
  have lt: "p_pid (ps ! j) < n + 1" "p_pid (ps ! j) \<noteq> n" if "j < length ps" for j
    using assms(1,4) that by (auto simp: pids_ok_def intro: order_less_trans)
  then show ?thesis
    using assms unfolding pids_ok_def by (auto simp: nth_list_update split: if_splits)
qed

section \<open>The effect of \<open>wakeup\<close>, \<open>kill\<close> and \<open>reparent\<close>\<close>

lemma wakeup_nth:
  "i < length (procs s) \<Longrightarrow> procs (wakeup c s) ! i =
     (if Some i \<noteq> myproc s then wake_proc c (procs s ! i) else procs s ! i)"
  by (simp add: wakeup_def)

lemma wakeup_fields [simp]:
  "length (procs (wakeup c s)) = length (procs s)" "cpus (wakeup c s) = cpus s" "hart (wakeup c s) = hart s"
  "initproc (wakeup c s) = initproc s" "nextpid (wakeup c s) = nextpid s" "ticks (wakeup c s) = ticks s"
  "phys (wakeup c s) = phys s" "freelist (wakeup c s) = freelist s" "kend (wakeup c s) = kend s"
  "myproc (wakeup c s) = myproc s"
  by (simp_all add: wakeup_def myproc_def)

lemma wake_proc_fields [simp]:
  "p_pid (wake_proc c p) = p_pid p" "p_parent (wake_proc c p) = p_parent p" "p_chan (wake_proc c p) = p_chan p"
  "p_state (wake_proc c p) = UNUSED \<longleftrightarrow> p_state p = UNUSED" "p_killed (wake_proc c p) = p_killed p"
  "p_xstate (wake_proc c p) = p_xstate p" "p_type (wake_proc c p) = p_type p"
  by (simp_all add: wake_proc_def)

lemma wakeup_pids: "pids_ok n (procs s) \<Longrightarrow> pids_ok n (procs (wakeup c s))"
  by (erule pids_ok_same) (simp_all add: wakeup_nth)

text \<open>
  One process after \<open>reparent p\<close> has gone through the first \<open>k\<close> slots, when \<open>woken\<close> says whether a
  child of \<open>p\<close> was among them.
\<close>

definition reparented :: "nat \<Rightarrow> 'a pstate_scheme \<Rightarrow> bool \<Rightarrow> nat \<Rightarrow> nat \<Rightarrow> proc" where
  "reparented p s woken k i =
     (let q = (if woken \<and> Some i \<noteq> myproc s then wake_proc (map_option ChProc (initproc s)) (procs s ! i)
               else procs s ! i)
      in if i < k \<and> p_parent q = Some p then q\<lparr>p_parent := initproc s\<rparr> else q)"

lemma wake_proc_parent: "wake_proc c (q\<lparr>p_parent := x\<rparr>) = (wake_proc c q)\<lparr>p_parent := x\<rparr>"
  by (simp add: wake_proc_def)

lemma wake_proc_idem: "wake_proc c (wake_proc c q) = wake_proc c q"
  by (simp add: wake_proc_def)

lemma reparent_upto:
  assumes "k \<le> length (procs s)"
  shows "fold (\<lambda>i s. if p_parent (procs s ! i) = Some p
                 then wakeup (map_option ChProc (initproc s)) (upd_proc i (\<lambda>q. q\<lparr>p_parent := initproc s\<rparr>) s)
                 else s) [0..<k] s =
    s\<lparr>procs := map (reparented p s (\<exists>j < k. p_parent (procs s ! j) = Some p) k) [0..<length (procs s)]\<rparr>"
    (is "fold ?f _ _ = _")
  using assms
proof (induction k)
  case 0
  have "map (reparented p s False 0) [0..<length (procs s)] = procs s"
    by (rule nth_equalityI) (simp_all add: reparented_def)
  then show ?case by simp
next
  case (Suc k)
  let ?W = "\<lambda>k. \<exists>j < k. p_parent (procs s ! j) = Some p"
  let ?t = "s\<lparr>procs := map (reparented p s (?W k) k) [0..<length (procs s)]\<rparr>"
  have k: "k < length (procs s)" using Suc.prems by simp
  have my: "myproc ?t = myproc s" by (simp add: myproc_def)
  have par: "p_parent (procs ?t ! k) = p_parent (procs s ! k)"
    using k by (simp add: reparented_def Let_def)
  have "fold ?f [0..<Suc k] s = ?f k ?t" using Suc.IH k by simp
  also have "\<dots> = s\<lparr>procs := map (reparented p s (?W (Suc k)) (Suc k)) [0..<length (procs s)]\<rparr>"
  proof (cases "p_parent (procs s ! k) = Some p")
    case True
    then have W: "?W (Suc k)" by auto
    let ?c = "map_option ChProc (initproc s)"
    let ?u = "wakeup ?c (upd_proc k (\<lambda>q. q\<lparr>p_parent := initproc s\<rparr>) ?t)"
    have "procs ?u = map (reparented p s True (Suc k)) [0..<length (procs s)]"
    proof (rule nth_equalityI)
      fix i assume "i < length (procs ?u)"
      then have i: "i < length (procs s)" by simp
      show "procs ?u ! i = map (reparented p s True (Suc k)) [0..<length (procs s)] ! i"
      proof (cases "i = k")
        case True
        with i k my \<open>p_parent (procs s ! k) = Some p\<close> show ?thesis
          by (simp add: wakeup_nth reparented_def Let_def wake_proc_parent wake_proc_idem)
      next
        case False
        with i k my show ?thesis
          by (simp add: wakeup_nth reparented_def Let_def wake_proc_parent wake_proc_idem less_Suc_eq)
      qed
    qed simp
    moreover have "?u = s\<lparr>procs := procs ?u\<rparr>" by (simp add: wakeup_def upd_proc_def)
    ultimately have "?u = s\<lparr>procs := map (reparented p s True (Suc k)) [0..<length (procs s)]\<rparr>" by simp
    moreover have "?f k ?t = ?u" using True par by simp
    ultimately show ?thesis using W by simp
  next
    case False
    then have W: "?W (Suc k) = ?W k" by (auto simp: less_Suc_eq)
    have "reparented p s (?W k) (Suc k) i = reparented p s (?W k) k i" for i
      using False by (auto simp: reparented_def Let_def less_Suc_eq)
    with W False par show ?thesis by simp
  qed
  finally show ?case .
qed

lemma reparent_procs:
  "reparent p s = s\<lparr>procs := map (reparented p s (\<exists>j < length (procs s). p_parent (procs s ! j) = Some p)
     (length (procs s))) [0..<length (procs s)]\<rparr>"
  unfolding reparent_def by (rule reparent_upto) simp

section \<open>Properties\<close>

text \<open>
  C13. \<open>reparent p\<close>, called when process \<open>p\<close> exits, leaves no process with parent \<open>p\<close>: exactly the
  children of \<open>p\<close> get the init process as their parent. It touches nothing else of any process,
  except that it makes the init process runnable when there was a child to hand over and init was
  asleep in \<open>wait\<close>.
\<close>

theorem reparent_hands_over:
  assumes "initproc s = Some ini" "ini \<noteq> p" "i < length (procs s)"
  shows "p_parent (procs (reparent p s) ! i) =
      (if p_parent (procs s ! i) = Some p then Some ini else p_parent (procs s ! i)) \<and>
    procs (reparent p s) ! i = (procs s ! i)\<lparr>p_parent := p_parent (procs (reparent p s) ! i),
      p_state := (if p_state (procs s ! i) = SLEEPING \<and> p_chan (procs s ! i) = Some (ChProc ini) \<and>
        Some i \<noteq> myproc s \<and> (\<exists>j < length (procs s). p_parent (procs s ! j) = Some p)
        then RUNNABLE else p_state (procs s ! i))\<rparr>"
  using assms by (auto simp: reparent_procs reparented_def Let_def wake_proc_def)

definition demo_proc :: proc where
  "demo_proc = \<lparr>p_state = UNUSED, p_chan = None, p_killed = False, p_xstate = 0, p_pid = 0, p_parent = None,
     p_kstack = 0, p_sz = 0, p_pagetable = 0, p_trapframe = 0, p_context_ra = 0, p_context_sp = 0,
     p_ofile = replicate 16 None, p_cwd = None, p_name = [], p_tempo_total = 0, p_overhead = 0,
     p_eficiencia = 0, p_type = 1\<rparr>"

definition demo_pstate :: pstate where
  "demo_pstate = \<lparr>phys = (\<lambda>_. 0), freelist = 0, kend = 0x80000000,
     procs = [demo_proc\<lparr>p_state := SLEEPING, p_pid := 1, p_chan := Some (ChProc 0)\<rparr>,
              demo_proc\<lparr>p_state := RUNNING, p_pid := 2, p_parent := Some 0\<rparr>,
              demo_proc\<lparr>p_state := RUNNABLE, p_pid := 3, p_parent := Some 1\<rparr>, demo_proc],
     cpus = [\<lparr>cproc = Some 1, noff = 0, intena = False, intr = True\<rparr>], hart = 0, initproc = Some 0,
     nextpid = 4, ticks = 0, overheads = replicate 20 0, eficiencias = replicate 20 0,
     justicas = replicate 20 0, trampoline = 0, forkret_addr = 0\<rparr>"

text \<open>Process 2 of the table has parent 1, which exits; init (slot 0) sleeps in \<open>wait\<close>.\<close>

theorem reparent_hands_over_witness:
  "p_parent (procs (reparent 1 demo_pstate) ! 2) = Some 0 \<and>
   p_state (procs (reparent 1 demo_pstate) ! 0) = RUNNABLE"
proof -
  have a: "initproc demo_pstate = Some 0" "(0::nat) \<noteq> 1" "2 < length (procs demo_pstate)" "0 < length (procs demo_pstate)"
    by (simp_all add: demo_pstate_def)
  have c: "\<exists>j < length (procs demo_pstate). p_parent (procs demo_pstate ! j) = Some 1"
    by (intro exI [of _ 2]) (simp add: demo_pstate_def)
  from reparent_hands_over [OF a(1-3)] have "p_parent (procs (reparent 1 demo_pstate) ! 2) = Some 0"
    by (simp add: demo_pstate_def)
  moreover have "p_state (procs (reparent 1 demo_pstate) ! 0) = RUNNABLE"
  proof -
    have p0: "procs demo_pstate ! 0 = demo_proc\<lparr>p_state := SLEEPING, p_pid := 1, p_chan := Some (ChProc 0)\<rparr>"
      and my: "myproc demo_pstate = Some 1" by (simp_all add: demo_pstate_def myproc_def)
    show ?thesis
      using arg_cong [OF conjunct2 [OF reparent_hands_over [OF a(1,2,4)]], of p_state] c by (simp add: p0 my)
  qed
  ultimately show ?thesis by simp
qed

text \<open>
  C14. \<open>kill\<close> with a non-zero identifier marks exactly the process that has it, making it runnable if
  it slept, and reports failure exactly when no process has it.
\<close>

theorem kill_exact:
  assumes "pids_ok (nextpid s) (procs s)" "pid \<noteq> 0"
  shows "(fst (kill pid s) \<longleftrightarrow> (\<exists>q \<in> set (procs s). p_pid q = pid)) \<and>
    (\<forall>i < length (procs s). procs (snd (kill pid s)) ! i =
       (if p_pid (procs s ! i) = pid
        then (procs s ! i)\<lparr>p_killed := True, p_state := (if p_state (procs s ! i) = SLEEPING then RUNNABLE
               else p_state (procs s ! i))\<rparr>
        else procs s ! i))"
proof (cases "first_slot (\<lambda>p. p_pid p = pid) (procs s)")
  case None
  then have "\<forall>q \<in> set (procs s). p_pid q \<noteq> pid" by (simp add: first_slot_None)
  with None show ?thesis by (auto simp: kill_def)
next
  case (Some k)
  then have k: "k < length (procs s)" "p_pid (procs s ! k) = pid" by (auto simp: first_slot_Some)
  then have "p_pid (procs s ! i) = pid \<longleftrightarrow> i = k" if "i < length (procs s)" for i
    using assms that by (auto simp: pids_ok_def)
  moreover have "\<exists>q \<in> set (procs s). p_pid q = pid" using k nth_mem by blast
  ultimately show ?thesis using Some k by (simp add: kill_def nth_list_update)
qed

lemma all_less_4: "(\<forall>i < 4. P i) \<longleftrightarrow> P 0 \<and> P 1 \<and> P 2 \<and> P (3 :: nat)"
  by (auto simp: numeral_eq_Suc less_Suc_eq)

theorem kill_exact_witness:
  "fst (kill 3 demo_pstate) \<and> p_killed (procs (snd (kill 3 demo_pstate)) ! 2)"
proof -
  have ok: "pids_ok (nextpid demo_pstate) (procs demo_pstate)"
  proof -
    have l: "length (procs demo_pstate) = 4" by (simp add: demo_pstate_def)
    show ?thesis unfolding pids_ok_def l all_less_4 by (simp add: demo_pstate_def demo_proc_def)
  qed
  have h: "(3 :: u32) \<noteq> 0" by simp
  note k = kill_exact [OF ok h]
  have "fst (kill 3 demo_pstate)"
    using conjunct1 [OF k] by (simp add: demo_pstate_def demo_proc_def)
  moreover have "p_killed (procs (snd (kill 3 demo_pstate)) ! 2)"
    using spec [OF conjunct2 [OF k], of 2] by (simp add: demo_pstate_def demo_proc_def)
  ultimately show ?thesis by simp
qed

end
