(* ===== verification/Bio.thy ===== *)
theory Bio
  imports Proc
begin

text \<open>
  Sleep locks (kernel/sleeplock.c) and the buffer cache (kernel/bio.c). The buffers are the array
  \<open>bcache.buf\<close> followed by \<open>bcache.head\<close>; the list they form is kept as in the source, by the
  pointers \<open>prev\<close> and \<open>next\<close> in the buffers. A routine that waits for a sleep lock ends in the
  outcome \<open>Sleep\<close>.

  The disk is the image behind the virtio device, addressed by sector as the driver does; a
  transfer is one block. \<open>dwrites\<close> is the sequence of blocks the device was told to write, oldest
  first, which is what survives a crash.
\<close>

section \<open>Sleep locks\<close>

record sleeplock =
  sl_locked :: bool
  sl_pid :: u32

definition initsleeplock :: sleeplock where
  "initsleeplock = \<lparr>sl_locked = False, sl_pid = 0\<rparr>"

definition acquiresleep :: "chan \<Rightarrow> sleeplock \<Rightarrow> 'a pstate_scheme \<Rightarrow> (sleeplock, 'a pstate_scheme) run" where
  "acquiresleep c lk s =
     (if sl_locked lk then sleep c s
      else with_proc s (\<lambda>me. Ret (lk\<lparr>sl_locked := True, sl_pid := p_pid (procs s ! me)\<rparr>) s))"

definition releasesleep :: "chan \<Rightarrow> sleeplock \<Rightarrow> 'a pstate_scheme \<Rightarrow> sleeplock \<times> 'a pstate_scheme" where
  "releasesleep c lk s = (lk\<lparr>sl_locked := False, sl_pid := 0\<rparr>, wakeup (Some c) s)"

definition holdingsleep :: "sleeplock \<Rightarrow> 'a pstate_scheme \<Rightarrow> bool" where
  "holdingsleep lk s \<longleftrightarrow>
     sl_locked lk \<and> (case myproc s of None \<Rightarrow> False | Some me \<Rightarrow> sl_pid lk = p_pid (procs s ! me))"

section \<open>Buffers\<close>

definition BSIZE :: nat where [params]: "BSIZE = 1024"

record buf =
  b_valid :: bool
  b_disk :: bool
  b_dev :: u32
  b_blockno :: u32
  b_lock :: sleeplock
  b_refcnt :: u32
  b_prev :: nat
  b_next :: nat
  b_data :: "u8 list"

record bstate = pstate +
  bufs :: "buf list"
  disk :: "u64 \<Rightarrow> u8 list"
  dwrites :: "(u64 \<times> u8 list) list"

text \<open>The index of \<open>bcache.head\<close>.\<close>

definition bhead :: nat where "bhead = NBUF"

definition upd_buf :: "nat \<Rightarrow> (buf \<Rightarrow> buf) \<Rightarrow> 'a bstate_scheme \<Rightarrow> 'a bstate_scheme" where
  "upd_buf i f s = s\<lparr>bufs := (bufs s)[i := f (bufs s ! i)]\<rparr>"

text \<open>What the driver's \<open>virtio_disk_rw(b, write)\<close> amounts to for its caller once the device is done.\<close>

definition sector_of :: "u32 \<Rightarrow> u64" where
  "sector_of blockno = ucast (blockno * 2)"

definition disk_transfer :: "nat \<Rightarrow> bool \<Rightarrow> 'a bstate_scheme \<Rightarrow> 'a bstate_scheme" where
  "disk_transfer b write s =
     (let sector = sector_of (b_blockno (bufs s ! b))
      in if write
         then s\<lparr>disk := (disk s)(sector := b_data (bufs s ! b)), dwrites := dwrites s @ [(sector, b_data (bufs s ! b))]\<rparr>
         else upd_buf b (\<lambda>x. x\<lparr>b_data := disk s sector\<rparr>) s)"

section \<open>The buffer cache\<close>

text \<open>Linking buffer \<open>b\<close> in right after the head (shared by \<open>binit\<close> and \<open>brelse\<close>).\<close>

definition link_front :: "nat \<Rightarrow> 'a bstate_scheme \<Rightarrow> 'a bstate_scheme" where
  "link_front b s =
     (let s = upd_buf b (\<lambda>x. x\<lparr>b_next := b_next (bufs s ! bhead)\<rparr>) s;
          s = upd_buf b (\<lambda>x. x\<lparr>b_prev := bhead\<rparr>) s;
          s = upd_buf (b_next (bufs s ! bhead)) (\<lambda>x. x\<lparr>b_prev := b\<rparr>) s
      in upd_buf bhead (\<lambda>x. x\<lparr>b_next := b\<rparr>) s)"

definition unlink :: "nat \<Rightarrow> 'a bstate_scheme \<Rightarrow> 'a bstate_scheme" where
  "unlink b s =
     (let s = upd_buf (b_next (bufs s ! b)) (\<lambda>x. x\<lparr>b_prev := b_prev (bufs s ! b)\<rparr>) s
      in upd_buf (b_prev (bufs s ! b)) (\<lambda>x. x\<lparr>b_next := b_next (bufs s ! b)\<rparr>) s)"

definition binit :: "'a bstate_scheme \<Rightarrow> 'a bstate_scheme" where
  "binit s =
     fold (\<lambda>b s. upd_buf b (\<lambda>x. x\<lparr>b_lock := initsleeplock\<rparr>) (link_front b s)) [0..<NBUF]
       (upd_buf bhead (\<lambda>x. x\<lparr>b_prev := bhead, b_next := bhead\<rparr>) s)"

text \<open>The two searches of \<open>bget\<close>; each visits at most all buffers and the head.\<close>

definition bscan :: "(buf \<Rightarrow> nat) \<Rightarrow> (buf \<Rightarrow> bool) \<Rightarrow> 'a bstate_scheme \<Rightarrow> (nat option, 'a bstate_scheme) run" where
  "bscan dir P s =
     loop (Suc NBUF)
       (\<lambda>b s. if b = bhead then Ret (Inr None) s
              else if P (bufs s ! b) then Ret (Inr (Some b)) s
              else Ret (Inl (dir (bufs s ! b))) s)
       (dir (bufs s ! bhead)) s"

definition lock_buf :: "nat \<Rightarrow> 'a bstate_scheme \<Rightarrow> (nat, 'a bstate_scheme) run" where
  "lock_buf b s =
     bnd (acquiresleep (ChBufLock b) (b_lock (bufs s ! b)) s) (\<lambda>lk s.
       Ret b (upd_buf b (\<lambda>x. x\<lparr>b_lock := lk\<rparr>) s))"

definition bget :: "u32 \<Rightarrow> u32 \<Rightarrow> 'a bstate_scheme \<Rightarrow> (nat, 'a bstate_scheme) run" where
  "bget dev blockno s =
     bnd (bscan b_next (\<lambda>x. b_dev x = dev \<and> b_blockno x = blockno) s) (\<lambda>r s.
       case r of
         Some b \<Rightarrow> lock_buf b (upd_buf b (\<lambda>x. x\<lparr>b_refcnt := b_refcnt x + 1\<rparr>) s)
       | None \<Rightarrow>
           bnd (bscan b_prev (\<lambda>x. b_refcnt x = 0) s) (\<lambda>r s.
             case r of
               Some b \<Rightarrow> lock_buf b (upd_buf b (\<lambda>x. x\<lparr>b_dev := dev, b_blockno := blockno, b_valid := False,
                           b_refcnt := 1\<rparr>) s)
             | None \<Rightarrow> Panic ''bget: no buffers''))"

definition bread :: "u32 \<Rightarrow> u32 \<Rightarrow> 'a bstate_scheme \<Rightarrow> (nat, 'a bstate_scheme) run" where
  "bread dev blockno s =
     bnd (bget dev blockno s) (\<lambda>b s.
       if \<not> b_valid (bufs s ! b)
       then Ret b (upd_buf b (\<lambda>x. x\<lparr>b_valid := True\<rparr>) (disk_transfer b False s))
       else Ret b s)"

definition bwrite :: "nat \<Rightarrow> 'a bstate_scheme \<Rightarrow> (unit, 'a bstate_scheme) run" where
  "bwrite b s =
     (if \<not> holdingsleep (b_lock (bufs s ! b)) s then Panic ''bwrite''
      else Ret () (disk_transfer b True s))"

definition brelse :: "nat \<Rightarrow> 'a bstate_scheme \<Rightarrow> (unit, 'a bstate_scheme) run" where
  "brelse b s =
     (if \<not> holdingsleep (b_lock (bufs s ! b)) s then Panic ''brelse''
      else
        let (lk, s) = releasesleep (ChBufLock b) (b_lock (bufs s ! b)) s;
            s = upd_buf b (\<lambda>x. x\<lparr>b_lock := lk\<rparr>) s;
            s = upd_buf b (\<lambda>x. x\<lparr>b_refcnt := b_refcnt x - 1\<rparr>) s
        in Ret () (if b_refcnt (bufs s ! b) = 0 then link_front b (unlink b s) else s))"

definition bpin :: "nat \<Rightarrow> 'a bstate_scheme \<Rightarrow> 'a bstate_scheme" where
  "bpin b s = upd_buf b (\<lambda>x. x\<lparr>b_refcnt := b_refcnt x + 1\<rparr>) s"

definition bunpin :: "nat \<Rightarrow> 'a bstate_scheme \<Rightarrow> 'a bstate_scheme" where
  "bunpin b s = upd_buf b (\<lambda>x. x\<lparr>b_refcnt := b_refcnt x - 1\<rparr>) s"

section \<open>The list of buffers\<close>

text \<open>
  \<open>linked n p ys\<close>: the pointers \<open>n\<close> and \<open>p\<close> chain the nodes \<open>ys\<close>. The cache's list is circular
  through the head; \<open>dll bs xs\<close> says that it visits the buffers in the order \<open>xs\<close>.
\<close>

fun linked :: "(nat \<Rightarrow> nat) \<Rightarrow> (nat \<Rightarrow> nat) \<Rightarrow> nat list \<Rightarrow> bool" where
  "linked n p (a # b # r) = (n a = b \<and> p b = a \<and> linked n p (b # r))"
| "linked n p _ = True"

definition nx :: "buf list \<Rightarrow> nat \<Rightarrow> nat" where "nx bs i = b_next (bs ! i)"
definition pv :: "buf list \<Rightarrow> nat \<Rightarrow> nat" where "pv bs i = b_prev (bs ! i)"

definition dll :: "buf list \<Rightarrow> nat list \<Rightarrow> bool" where
  "dll bs xs \<longleftrightarrow> length bs = Suc NBUF \<and> distinct xs \<and> set xs = {..<NBUF} \<and>
     linked (nx bs) (pv bs) (bhead # xs @ [bhead])"

lemma linked_app: "linked n p (us @ a # vs) \<longleftrightarrow> linked n p (us @ [a]) \<and> linked n p (a # vs)"
proof (induction us)
  case (Cons u us)
  then show ?case by (cases us) auto
qed simp

lemma linked_upd_n: "x \<notin> set (butlast ys) \<Longrightarrow> linked (n(x := v)) p ys \<longleftrightarrow> linked n p ys"
  by (induction n p ys rule: linked.induct) auto

lemma linked_upd_p: "x \<notin> set (tl ys) \<Longrightarrow> linked n (p(x := v)) ys \<longleftrightarrow> linked n p ys"
  by (induction n p ys rule: linked.induct) (auto split: list.splits)

lemma linked_cong:
  "(\<And>x. x \<in> set ys \<Longrightarrow> n x = n' x \<and> p x = p' x) \<Longrightarrow> linked n p ys \<longleftrightarrow> linked n' p' ys"
  by (induction n p ys rule: linked.induct) auto

lemma bufs_upd [simp]: "bufs (upd_buf i f s) = (bufs s)[i := f (bufs s ! i)]"
  by (simp add: upd_buf_def)

lemma upd_buf_fields [simp]:
  "disk (upd_buf i f s) = disk s" "dwrites (upd_buf i f s) = dwrites s" "procs (upd_buf i f s) = procs s"
  "cpus (upd_buf i f s) = cpus s" "hart (upd_buf i f s) = hart s" "myproc (upd_buf i f s) = myproc s"
  "bstate.more (upd_buf i f s) = bstate.more s"
  by (simp_all add: upd_buf_def myproc_def)

lemma nx_upd: "i < length bs \<Longrightarrow> nx (bs[i := x]) = (nx bs)(i := b_next x)"
  by (auto simp: nx_def fun_eq_iff)

lemma pv_upd: "i < length bs \<Longrightarrow> pv (bs[i := x]) = (pv bs)(i := b_prev x)"
  by (auto simp: pv_def fun_eq_iff)

lemma linked_bypass:
  assumes "linked n p (us @ u # b # w # vs)" "u \<notin> set us" "u \<notin> set (butlast (w # vs))"
    "w \<notin> set (tl (us @ [u]))" "w \<notin> set vs"
  shows "n u = b \<and> p b = u \<and> n b = w \<and> p w = b \<and> linked (n(u := w)) (p(w := u)) (us @ u # w # vs)"
proof -
  have l: "linked n p (us @ [u])" "linked n p (u # b # w # vs)"
    using assms(1) linked_app [of n p us u "b # w # vs"] by simp_all
  have "linked (n(u := w)) (p(w := u)) (us @ [u])"
    using l(1) assms by (simp add: linked_upd_n linked_upd_p)
  moreover have "linked (n(u := w)) (p(w := u)) (w # vs)"
    using l(2) assms(3,5) linked_upd_n [of u "w # vs" n w "p(w := u)"] linked_upd_p [of w "w # vs" n p u] by simp
  ultimately show ?thesis
    using linked_app [of "n(u := w)" "p(w := u)" us u "w # vs"] l(2) by simp
qed

lemma linked_unlink:
  assumes l: "linked n p (h # us @ b # vs @ [h])" and d: "distinct (h # us @ b # vs)"
  shows "linked (n(p b := n b)) (p(n b := p b)) (h # us @ vs @ [h])"
proof (cases us rule: rev_cases)
  case Nil
  show ?thesis
  proof (cases vs)
    case Nil
    with \<open>us = []\<close> linked_bypass [of n p "[]" h b h "[]"] l show ?thesis by auto
  next
    case (Cons w vs')
    with \<open>us = []\<close> linked_bypass [of n p "[]" h b w "vs' @ [h]"] l d show ?thesis by auto
  qed
next
  case (snoc us' u)
  show ?thesis
  proof (cases vs)
    case Nil
    with snoc linked_bypass [of n p "h # us'" u b h "[]"] l d show ?thesis by auto
  next
    case (Cons w vs')
    with snoc linked_bypass [of n p "h # us'" u b w "vs' @ [h]"] l d show ?thesis
      by (auto simp: butlast_append)
  qed
qed

lemma linked_front:
  assumes l: "linked n p (h # zs @ [h])" and d: "distinct (h # b # zs)"
  shows "linked ((n(b := n h))(h := b)) ((p(b := h))(n h := b)) (h # b # zs @ [h])"
proof (cases zs)
  case Nil
  with l d show ?thesis by auto
next
  case (Cons f zs')
  have "linked n p (f # zs' @ [h])" "n h = f" using l Cons by auto
  moreover have "b \<notin> set (f # zs')" "h \<notin> set (f # zs')" "b \<noteq> h" "f \<notin> set (zs' @ [h])" using d Cons by auto
  ultimately have "linked ((n(b := f))(h := b)) ((p(b := h))(f := b)) (f # zs' @ [h])"
    by (simp add: linked_upd_n linked_upd_p butlast_append)
  with Cons \<open>n h = f\<close> \<open>b \<noteq> h\<close> \<open>b \<notin> set (f # zs')\<close> show ?thesis by auto
qed

lemma linked_rev: "linked n p ys \<longleftrightarrow> linked p n (rev ys)"
proof (induction n p ys rule: linked.induct)
  case (1 n p a b r)
  have "rev (a # b # r) = rev r @ b # [a]" by simp
  then have "linked p n (rev (a # b # r)) \<longleftrightarrow> linked p n (rev (b # r)) \<and> p b = a \<and> n a = b"
    using linked_app [of p n "rev r" b "[a]"] by simp
  with 1 show ?case by auto
qed auto

lemma scan_loop:
  assumes "linked d e (a # ys @ [bhead])" "bhead \<notin> set ys" "length ys < k" "\<And>i. d i = dir (bufs s ! i)"
  shows "loop k (\<lambda>b s. if b = bhead then Ret (Inr None) s
              else if P (bufs s ! b) then Ret (Inr (Some b)) s
              else Ret (Inl (dir (bufs s ! b))) s) (dir (bufs s ! a)) s =
         Ret (find (\<lambda>i. P (bufs s ! i)) ys) s"
  using assms
proof (induction ys arbitrary: a k)
  case Nil
  then obtain j where "k = Suc j" by (cases k) auto
  moreover have "dir (bufs s ! a) = bhead" using Nil.prems(1) Nil.prems(4) [of a] by simp
  ultimately show ?case by simp
next
  case (Cons y ys)
  then obtain j where k: "k = Suc j" "length ys < j" by (cases k) auto
  have a: "dir (bufs s ! a) = y" "y \<noteq> bhead" using Cons.prems(1,2) Cons.prems(4) [of a] by auto
  have "loop j (\<lambda>b s. if b = bhead then Ret (Inr None) s
              else if P (bufs s ! b) then Ret (Inr (Some b)) s
              else Ret (Inl (dir (bufs s ! b))) s) (dir (bufs s ! y)) s =
         Ret (find (\<lambda>i. P (bufs s ! i)) ys) s"
    using Cons.prems k(2) by (intro Cons.IH) auto
  with a k show ?case by simp
qed

lemma bscan_next:
  assumes "dll (bufs s) xs"
  shows "bscan b_next P s = Ret (find (\<lambda>i. P (bufs s ! i)) xs) s"
proof -
  have "length xs = NBUF" using assms distinct_card [of xs] by (simp add: dll_def)
  then show ?thesis
    using assms unfolding bscan_def dll_def
    by (intro scan_loop [where d = "nx (bufs s)" and e = "pv (bufs s)"]) (auto simp: nx_def bhead_def)
qed

lemma bscan_prev:
  assumes "dll (bufs s) xs"
  shows "bscan b_prev P s = Ret (find (\<lambda>i. P (bufs s ! i)) (rev xs)) s"
proof -
  have "length xs = NBUF" using assms distinct_card [of xs] by (simp add: dll_def)
  moreover have "linked (pv (bufs s)) (nx (bufs s)) (bhead # rev xs @ [bhead])"
    using assms linked_rev [of "nx (bufs s)" "pv (bufs s)" "bhead # xs @ [bhead]"] by (simp add: dll_def)
  ultimately show ?thesis
    using assms unfolding bscan_def dll_def
    by (intro scan_loop [where d = "pv (bufs s)" and e = "nx (bufs s)"]) (auto simp: pv_def bhead_def)
qed

text \<open>Buffers that agree in everything but their place in the list.\<close>

definition core :: "buf \<Rightarrow> buf" where
  "core x = x\<lparr>b_prev := 0, b_next := 0\<rparr>"

definition same_core :: "buf list \<Rightarrow> buf list \<Rightarrow> bool" where
  "same_core bs cs \<longleftrightarrow> map core cs = map core bs"

lemma core_eqD:
  assumes "core x = core y"
  shows "b_valid x = b_valid y" "b_dev x = b_dev y" "b_blockno x = b_blockno y" "b_lock x = b_lock y"
    "b_refcnt x = b_refcnt y" "b_data x = b_data y" "b_disk x = b_disk y"
  using assms by (cases x; cases y; simp add: core_def)+

lemma same_core_length: "same_core bs cs \<Longrightarrow> length cs = length bs"
  unfolding same_core_def by (metis length_map)

lemma same_core_nth: "same_core bs cs \<Longrightarrow> i < length bs \<Longrightarrow> core (cs ! i) = core (bs ! i)"
  by (metis nth_map same_core_def same_core_length)

lemmas same_core_fields = core_eqD [OF same_core_nth]

lemma same_core_refl [simp]: "same_core bs bs"
  by (simp add: same_core_def)

lemma same_core_trans: "same_core as bs \<Longrightarrow> same_core bs cs \<Longrightarrow> same_core as cs"
  by (simp add: same_core_def)

lemma same_core_update: "core x = core (bs ! i) \<Longrightarrow> same_core as (bs[i := x]) \<longleftrightarrow> same_core as bs"
proof -
  assume "core x = core (bs ! i)"
  then have "map core (bs[i := x]) = map core bs"
    by (metis list_update_id map_update)
  then show ?thesis by (simp add: same_core_def)
qed

lemma core_ptr [simp]: "core (x\<lparr>b_prev := a\<rparr>) = core x" "core (x\<lparr>b_next := a\<rparr>) = core x"
  by (simp_all add: core_def)

lemma linked_neighbours:
  "linked n p (a # us @ b # vs @ [c]) \<Longrightarrow> p b \<in> set (a # us) \<and> n b \<in> set (vs @ [c])"
proof (induction us arbitrary: a)
  case Nil
  then show ?case by (cases vs) auto
next
  case (Cons u us)
  then have "linked n p (u # us @ b # vs @ [c])" by simp
  from Cons.IH [OF this] show ?case by auto
qed

lemma bufs_unlink:
  assumes "length (bufs s) = Suc NBUF" "b < NBUF" "nx (bufs s) b < Suc NBUF" "pv (bufs s) b < Suc NBUF" "nx (bufs s) b \<noteq> b"
  shows "nx (bufs (unlink b s)) = (nx (bufs s))(pv (bufs s) b := nx (bufs s) b)"
    and "pv (bufs (unlink b s)) = (pv (bufs s))(nx (bufs s) b := pv (bufs s) b)"
    and "same_core (bufs s) (bufs (unlink b s))" and "length (bufs (unlink b s)) = Suc NBUF"
  using assms
  by (auto simp: unlink_def Let_def nx_upd pv_upd same_core_update fun_eq_iff nx_def [symmetric] pv_def [symmetric])

lemma bufs_link_front:
  assumes "length (bufs s) = Suc NBUF" "b < NBUF" "nx (bufs s) bhead < Suc NBUF"
  shows "nx (bufs (link_front b s)) = (nx (bufs s))(b := nx (bufs s) bhead, bhead := b)"
    and "pv (bufs (link_front b s)) = (pv (bufs s))(b := bhead, nx (bufs s) bhead := b)"
    and "same_core (bufs s) (bufs (link_front b s))" and "length (bufs (link_front b s)) = Suc NBUF"
proof -
  have "b \<noteq> bhead" "bhead < Suc NBUF" "b < Suc NBUF" using assms(2) by (simp_all add: bhead_def)
  then show "nx (bufs (link_front b s)) = (nx (bufs s))(b := nx (bufs s) bhead, bhead := b)"
    "pv (bufs (link_front b s)) = (pv (bufs s))(b := bhead, nx (bufs s) bhead := b)"
    "same_core (bufs s) (bufs (link_front b s))" "length (bufs (link_front b s)) = Suc NBUF"
    using assms
    by (auto simp: link_front_def Let_def nx_upd pv_upd same_core_update fun_eq_iff nx_def [symmetric] pv_def [symmetric])
qed

text \<open>\<open>brelse\<close> of the last reference moves the buffer to the front of the list.\<close>

lemma move_front:
  assumes "dll (bufs s) xs" "b < NBUF"
  shows "dll (bufs (link_front b (unlink b s))) (b # remove1 b xs)"
    and "same_core (bufs s) (bufs (link_front b (unlink b s)))"
proof -
  have "b \<in> set xs" using assms by (simp add: dll_def)
  then obtain us vs where xs: "xs = us @ b # vs" "b \<notin> set us" by (metis in_set_conv_decomp_first)
  let ?n = "nx (bufs s)" and ?p = "pv (bufs s)"
  have d: "distinct (bhead # us @ b # vs)" and len: "length (bufs s) = Suc NBUF"
    and l: "linked ?n ?p (bhead # us @ b # vs @ [bhead])"
    and st: "set (us @ b # vs) = {..<NBUF}"
    using assms(1) xs by (auto simp: dll_def bhead_def)
  note nb = linked_neighbours [OF l]
  have sub: "set (bhead # us) \<subseteq> {..<Suc NBUF}" "set (vs @ [bhead]) \<subseteq> {..<Suc NBUF}" "b \<notin> set (vs @ [bhead])"
    using st d by (auto simp: bhead_def less_Suc_eq)
  then have bd: "?p b < Suc NBUF" "?n b < Suc NBUF" "?n b \<noteq> b" using nb by auto
  note U = bufs_unlink [OF len assms(2) bd(2,1,3)]
  have l1: "linked (nx (bufs (unlink b s))) (pv (bufs (unlink b s))) (bhead # (us @ vs) @ [bhead])"
    using linked_unlink [OF l d] U by simp
  have "nx (bufs (unlink b s)) bhead \<in> set ((us @ vs) @ [bhead])"
    using l1 by (cases "us @ vs") auto
  then have hd: "nx (bufs (unlink b s)) bhead < Suc NBUF" using st by (auto simp: bhead_def less_Suc_eq)
  note F = bufs_link_front [OF U(4) assms(2) hd]
  have "distinct (bhead # b # us @ vs)" using d by auto
  from linked_front [OF l1 this] have "linked (nx (bufs (link_front b (unlink b s)))) (pv (bufs (link_front b (unlink b s))))
      (bhead # b # (us @ vs) @ [bhead])" using F by simp
  moreover have "remove1 b xs = us @ vs" using xs by (simp add: remove1_append)
  moreover have "set (b # us @ vs) = {..<NBUF}" "distinct (b # us @ vs)" using st d by auto
  ultimately show "dll (bufs (link_front b (unlink b s))) (b # remove1 b xs)"
    using F by (simp add: dll_def)
  show "same_core (bufs s) (bufs (link_front b (unlink b s)))"
    using U(3) F(3) by (rule same_core_trans)
qed

section \<open>Initialisation\<close>

lemma binit_prefix:
  assumes len: "length (bufs s) = Suc NBUF" and k: "k \<le> NBUF"
  defines "t \<equiv> fold (\<lambda>b s. upd_buf b (\<lambda>x. x\<lparr>b_lock := initsleeplock\<rparr>) (link_front b s)) [0..<k]
       (upd_buf bhead (\<lambda>x. x\<lparr>b_prev := bhead, b_next := bhead\<rparr>) s)"
  shows "length (bufs t) = Suc NBUF \<and> linked (nx (bufs t)) (pv (bufs t)) (bhead # rev [0..<k] @ [bhead]) \<and>
    (\<forall>i < NBUF. core (bufs t ! i) = core (if i < k then (bufs s ! i)\<lparr>b_lock := initsleeplock\<rparr> else bufs s ! i)) \<and>
    t = s\<lparr>bufs := bufs t\<rparr>"
  using k unfolding t_def
proof (induction k)
  case 0
  then show ?case using len by (auto simp: upd_buf_def bhead_def nx_def pv_def)
next
  case (Suc k)
  let ?t = "fold (\<lambda>b s. upd_buf b (\<lambda>x. x\<lparr>b_lock := initsleeplock\<rparr>) (link_front b s)) [0..<k]
       (upd_buf bhead (\<lambda>x. x\<lparr>b_prev := bhead, b_next := bhead\<rparr>) s)"
  have k: "k < NBUF" using Suc.prems by simp
  from Suc have IH: "length (bufs ?t) = Suc NBUF" "linked (nx (bufs ?t)) (pv (bufs ?t)) (bhead # rev [0..<k] @ [bhead])"
    "\<And>i. i < NBUF \<Longrightarrow> core (bufs ?t ! i) = core (if i < k then (bufs s ! i)\<lparr>b_lock := initsleeplock\<rparr> else bufs s ! i)"
    "?t = s\<lparr>bufs := bufs ?t\<rparr>" by auto
  have "nx (bufs ?t) bhead \<in> set (rev [0..<k] @ [bhead])" using IH(2) by (cases "rev [0..<k]") auto
  then have hd: "nx (bufs ?t) bhead < Suc NBUF" using k by (auto simp: bhead_def)
  note F = bufs_link_front [OF IH(1) k hd]
  have "distinct (bhead # k # rev [0..<k])" using k by (auto simp: bhead_def)
  from linked_front [OF IH(2) this] have l: "linked (nx (bufs (link_front k ?t))) (pv (bufs (link_front k ?t))) (bhead # k # rev [0..<k] @ [bhead])"
    using F(1,2) by simp
  let ?u = "upd_buf k (\<lambda>x. x\<lparr>b_lock := initsleeplock\<rparr>) (link_front k ?t)"
  have fu: "nx (bufs ?u) = nx (bufs (link_front k ?t))" "pv (bufs ?u) = pv (bufs (link_front k ?t))"
    using F(4) k by (auto simp: upd_buf_def nx_upd pv_upd fun_eq_iff nx_def pv_def)
  have "core (bufs ?u ! i) = core (if i < Suc k then (bufs s ! i)\<lparr>b_lock := initsleeplock\<rparr> else bufs s ! i)" if i: "i < NBUF" for i
  proof -
    have "core (bufs (link_front k ?t) ! i) = core (bufs ?t ! i)" using same_core_nth [OF F(3), of i] i IH(1) by simp
    then have c: "core (bufs (link_front k ?t) ! i) = core (if i < k then (bufs s ! i)\<lparr>b_lock := initsleeplock\<rparr> else bufs s ! i)"
      using IH(3) i by simp
    show ?thesis
    proof (cases "i = k")
      case True
      then have "core (bufs ?u ! i) = (core (bufs (link_front k ?t) ! i))\<lparr>b_lock := initsleeplock\<rparr>"
        using F(4) i by (simp add: upd_buf_def core_def)
      also have "\<dots> = core ((bufs s ! i)\<lparr>b_lock := initsleeplock\<rparr>)" unfolding c using True by (simp add: core_def)
      finally show ?thesis using True by simp
    next
      case False
      then show ?thesis using c by (simp add: upd_buf_def less_Suc_eq)
    qed
  qed
  moreover have "?u = s\<lparr>bufs := bufs ?u\<rparr>"
  proof -
    have "?u = ?t\<lparr>bufs := bufs ?u\<rparr>" by (simp add: upd_buf_def link_front_def Let_def)
    also have "\<dots> = s\<lparr>bufs := bufs ?u\<rparr>" by (subst IH(4)) simp
    finally show ?thesis .
  qed
  moreover have "length (bufs ?u) = Suc NBUF" using F(4) by (simp add: upd_buf_def)
  ultimately show ?case using l fu by simp
qed

lemma binit_ok:
  assumes "length (bufs s) = Suc NBUF"
  shows "dll (bufs (binit s)) (rev [0..<NBUF])"
    and "i < NBUF \<Longrightarrow> core (bufs (binit s) ! i) = core ((bufs s ! i)\<lparr>b_lock := initsleeplock\<rparr>)"
    and "binit s = s\<lparr>bufs := bufs (binit s)\<rparr>"
  using binit_prefix [OF assms order.refl] unfolding binit_def dll_def by auto

end
