(* ===== verification/Bcache.thy ===== *)
theory Bcache
  imports Bio
begin

text \<open>
  The contract of the buffer cache (kernel/bio.c): the invariant its operations keep, what its
  clients see of it, the laws of \<open>bread\<close>, \<open>bwrite\<close>, \<open>brelse\<close>, \<open>bpin\<close> and \<open>bunpin\<close> on that
  view, and the interface \<open>block_store\<close> with the facts the log builds on.
\<close>

section \<open>The contract of the cache\<close>

text \<open>
  The invariant: the list visits every buffer once; a buffer either was never used (device 0) or
  caches a block of the root disk, and no block has two buffers; a buffer that may be recycled
  (no references) is unlocked and, if valid, agrees with the disk. Block numbers are below
  \<open>2^31\<close>, where the sector computation of the driver does not wrap.
\<close>

definition caches :: "'a bstate_scheme \<Rightarrow> nat \<Rightarrow> u32 \<Rightarrow> bool" where
  "caches s i n \<longleftrightarrow> i < NBUF \<and> b_dev (bufs s ! i) = ROOTDEV \<and> b_blockno (bufs s ! i) = n"

definition clean :: "'a bstate_scheme \<Rightarrow> nat \<Rightarrow> bool" where
  "clean s i \<longleftrightarrow> \<not> sl_locked (b_lock (bufs s ! i)) \<and>
     (b_valid (bufs s ! i) \<longrightarrow> b_data (bufs s ! i) = disk s (sector_of (b_blockno (bufs s ! i))))"

definition buf_ok :: "'a bstate_scheme \<Rightarrow> nat \<Rightarrow> bool" where
  "buf_ok s i \<longleftrightarrow>
     (if b_dev (bufs s ! i) = ROOTDEV then b_blockno (bufs s ! i) < 2 ^ 31
      else b_dev (bufs s ! i) = 0 \<and> \<not> b_valid (bufs s ! i) \<and> b_refcnt (bufs s ! i) = 0) \<and>
     (b_refcnt (bufs s ! i) = 0 \<longrightarrow> clean s i)"

definition binv :: "'a bstate_scheme \<Rightarrow> bool" where
  "binv s \<longleftrightarrow> (\<exists>xs. dll (bufs s) xs) \<and> (\<forall>i < NBUF. buf_ok s i) \<and>
     (\<forall>i j n. caches s i n \<longrightarrow> caches s j n \<longrightarrow> i = j)"

text \<open>What clients see of a state: per block the content, references and lock, and the disk.\<close>

definition slot_of :: "'a bstate_scheme \<Rightarrow> u32 \<Rightarrow> nat option" where
  "slot_of s n = first_slot (\<lambda>x. b_dev x = ROOTDEV \<and> b_blockno x = n) (take NBUF (bufs s))"

definition bcontent :: "'a bstate_scheme \<Rightarrow> u32 \<Rightarrow> u8 list" where
  "bcontent s n = (case slot_of s n of
     Some i \<Rightarrow> if b_valid (bufs s ! i) then b_data (bufs s ! i) else disk s (sector_of n)
   | None \<Rightarrow> disk s (sector_of n))"

record 'r bview =
  v_cont :: "u32 \<Rightarrow> u8 list"
  v_ref :: "u32 \<Rightarrow> nat"
  v_held :: "u32 \<Rightarrow> bool"
  v_spare :: nat
  v_disk :: "u64 \<Rightarrow> u8 list"
  v_dwrites :: "(u64 \<times> u8 list) list"
  v_who :: "u32 option"
  v_rest :: 'r

definition who :: "'a pstate_scheme \<Rightarrow> u32 option" where
  "who s = (case myproc s of None \<Rightarrow> None | Some me \<Rightarrow>
     if me < length (procs s) then Some (p_pid (procs s ! me)) else None)"

definition bview :: "'a bstate_scheme \<Rightarrow> ('a bstate_scheme) bview" where
  "bview s = \<lparr>v_cont = (\<lambda>n. if n < 2 ^ 31 then bcontent s n else []),
     v_ref = (\<lambda>n. case slot_of s n of None \<Rightarrow> 0 | Some i \<Rightarrow> unat (b_refcnt (bufs s ! i))),
     v_held = (\<lambda>n. case slot_of s n of None \<Rightarrow> False | Some i \<Rightarrow> sl_locked (b_lock (bufs s ! i))),
     v_spare = card {i. i < NBUF \<and> b_refcnt (bufs s ! i) = 0},
     v_disk = disk s, v_dwrites = dwrites s, v_who = who s,
     v_rest = s\<lparr>bufs := [], disk := (\<lambda>_. []), dwrites := [], procs := []\<rparr>\<rparr>"

text \<open>\<open>at s b n\<close>: buffer \<open>b\<close> holds block \<open>n\<close>, and the running process has its lock.\<close>

definition at :: "'a bstate_scheme \<Rightarrow> nat \<Rightarrow> u32 \<Rightarrow> bool" where
  "at s b n \<longleftrightarrow> caches s b n \<and> b_valid (bufs s ! b) \<and> b_refcnt (bufs s ! b) \<noteq> 0 \<and>
     sl_locked (b_lock (bufs s ! b)) \<and> who s = Some (sl_pid (b_lock (bufs s ! b)))"

lemma sector_of_inj: "sector_of m = sector_of n \<Longrightarrow> m < 2 ^ 31 \<Longrightarrow> n < 2 ^ 31 \<Longrightarrow> m = n"
proof -
  assume e: "sector_of m = sector_of n" and b: "m < 2 ^ 31" "n < 2 ^ 31"
  have u: "unat (k * 2) = unat k * 2" if "k < 2 ^ 31" for k :: u32
    using that by (simp add: unat_word_ariths word_less_nat_alt)
  have "unat (sector_of k) = unat (k * 2)" for k
  proof -
    have "unat (k * 2) < 2 ^ 64" using unsigned_less [of "k * 2", where ?'a = nat] by simp
    then show ?thesis by (simp add: sector_of_def unsigned_ucast_eq take_bit_nat_eq_self)
  qed
  with e u b have "unat m * 2 = unat n * 2" by metis
  then show ?thesis by (simp add: word_unat_eq_iff)
qed

lemma slot_of_iff: "binv s \<Longrightarrow> slot_of s n = Some i \<longleftrightarrow> caches s i n"
proof
  assume i: "binv s"
  then have len: "length (bufs s) = Suc NBUF" by (auto simp: binv_def dll_def)
  { assume "slot_of s n = Some i"
    then show "caches s i n" using len by (auto simp: slot_of_def first_slot_Some caches_def) }
  assume c: "caches s i n"
  have "slot_of s n \<noteq> None"
    using c len by (auto simp: slot_of_def first_slot_None_nth caches_def)
  then obtain j where j: "slot_of s n = Some j" by auto
  then have "caches s j n" using len by (auto simp: slot_of_def first_slot_Some caches_def)
  with i c have "j = i" unfolding binv_def by blast
  with j show "slot_of s n = Some i" by simp
qed

lemma slot_of_None: "binv s \<Longrightarrow> slot_of s n = None \<longleftrightarrow> (\<forall>i. \<not> caches s i n)"
  by (metis not_Some_eq slot_of_iff)

text \<open>
  One buffer changes: \<open>b\<close> becomes \<open>y\<close>, apart from the links. Every operation of the cache is an
  instance.
\<close>

definition bchange :: "'a bstate_scheme \<Rightarrow> nat \<Rightarrow> buf \<Rightarrow> 'a bstate_scheme \<Rightarrow> bool" where
  "bchange s b y t \<longleftrightarrow> b < NBUF \<and> (\<exists>xs. dll (bufs t) xs) \<and> core (bufs t ! b) = core y \<and>
     (\<forall>i < NBUF. i \<noteq> b \<longrightarrow> core (bufs t ! i) = core (bufs s ! i))"

lemma bchange_nth:
  assumes "bchange s b y t" "i < NBUF"
  shows "b_valid (bufs t ! i) = b_valid (if i = b then y else bufs s ! i)"
    and "b_dev (bufs t ! i) = b_dev (if i = b then y else bufs s ! i)"
    and "b_blockno (bufs t ! i) = b_blockno (if i = b then y else bufs s ! i)"
    and "b_lock (bufs t ! i) = b_lock (if i = b then y else bufs s ! i)"
    and "b_refcnt (bufs t ! i) = b_refcnt (if i = b then y else bufs s ! i)"
    and "b_data (bufs t ! i) = b_data (if i = b then y else bufs s ! i)"
  by (rule core_eqD, use assms in \<open>auto simp: bchange_def\<close>)+

lemma upd_buf_cong: "b = b' \<Longrightarrow> s = s' \<Longrightarrow> f (bufs s' ! b') = g (bufs s' ! b') \<Longrightarrow> upd_buf b f s = upd_buf b' g s'"
  by (simp add: upd_buf_def)

lemma upd_buf_upd: "b < length (bufs s) \<Longrightarrow> upd_buf b f (upd_buf b g s) = upd_buf b (\<lambda>x. f (g x)) s"
  by (simp add: upd_buf_def)

lemma find_mem: "find P xs = Some x \<Longrightarrow> x \<in> set xs"
  by (induction xs) (auto split: if_splits)

lemma sleeplock_upd: "lk\<lparr>sl_locked := l, sl_pid := p\<rparr> = \<lparr>sl_locked = l, sl_pid = p\<rparr>"
  by (cases lk) simp

lemma lock_buf_ok:
  assumes "myproc s = Some me" "\<not> sl_locked (b_lock (bufs s ! b))"
  shows "lock_buf b s = Ret b (upd_buf b (\<lambda>x. x\<lparr>b_lock := \<lparr>sl_locked = True, sl_pid = p_pid (procs s ! me)\<rparr>\<rparr>) s)"
  using assms by (simp add: lock_buf_def acquiresleep_def with_proc_def sleeplock_upd)

text \<open>
  \<open>bget\<close>, when the block is cached and when it is not: the buffer it takes is then the unused one
  nearest the end of the list.
\<close>

definition bget_choice :: "buf list \<Rightarrow> nat list \<Rightarrow> u32 \<Rightarrow> u32 \<Rightarrow> nat option" where
  "bget_choice bs xs dev bno =
     (case find (\<lambda>i. b_dev (bs ! i) = dev \<and> b_blockno (bs ! i) = bno) xs of
        Some b \<Rightarrow> Some b | None \<Rightarrow> find (\<lambda>i. b_refcnt (bs ! i) = 0) (rev xs))"

lemma bget_ok:
  assumes d: "dll (bufs s) xs" and me: "myproc s = Some me"
    and c: "bget_choice (bufs s) xs dev bno = Some b" and ul: "\<not> sl_locked (b_lock (bufs s ! b))"
  shows "bget dev bno s = Ret b (upd_buf b (\<lambda>x. x\<lparr>b_lock := \<lparr>sl_locked = True, sl_pid = p_pid (procs s ! me)\<rparr>,
     b_dev := dev, b_blockno := bno,
     b_valid := (b_dev x = dev \<and> b_blockno x = bno \<and> b_valid x),
     b_refcnt := (if b_dev x = dev \<and> b_blockno x = bno then b_refcnt x + 1 else 1)\<rparr>) s) \<and> b < NBUF"
proof -
  have len: "length (bufs s) = Suc NBUF" and st: "set xs = {..<NBUF}" using d by (auto simp: dll_def)
  show ?thesis
  proof (cases "find (\<lambda>i. b_dev (bufs s ! i) = dev \<and> b_blockno (bufs s ! i) = bno) xs")
    case (Some b')
    then have "b' = b" using c by (simp add: bget_choice_def)
    with Some have b: "b \<in> set xs" "b_dev (bufs s ! b) = dev" "b_blockno (bufs s ! b) = bno"
      by (auto simp: find_Some_iff)
    then have bn: "b < NBUF" using st by auto
    have "lock_buf b (upd_buf b (\<lambda>x. x\<lparr>b_refcnt := b_refcnt x + 1\<rparr>) s) = Ret b (upd_buf b
        (\<lambda>x. x\<lparr>b_lock := \<lparr>sl_locked = True, sl_pid = p_pid (procs s ! me)\<rparr>\<rparr>) (upd_buf b (\<lambda>x. x\<lparr>b_refcnt := b_refcnt x + 1\<rparr>) s))"
      using me ul bn len by (subst lock_buf_ok [of _ me]) simp_all
    then show ?thesis
      using Some \<open>b' = b\<close> b bn len by (cases "bufs s ! b") (simp add: bget_def bscan_next [OF d] upd_buf_def)
  next
    case None
    then have f: "find (\<lambda>i. b_refcnt (bufs s ! i) = 0) (rev xs) = Some b" using c by (simp add: bget_choice_def)
    then have "b \<in> set (rev xs)" by (rule find_mem)
    then have b: "b \<in> set xs" by simp
    then have bn: "b < NBUF" using st by auto
    have nk: "\<not> (b_dev (bufs s ! b) = dev \<and> b_blockno (bufs s ! b) = bno)" using None b by (auto simp: find_None_iff)
    have "lock_buf b (upd_buf b (\<lambda>x. x\<lparr>b_dev := dev, b_blockno := bno, b_valid := False, b_refcnt := 1\<rparr>) s) =
      Ret b (upd_buf b (\<lambda>x. x\<lparr>b_lock := \<lparr>sl_locked = True, sl_pid = p_pid (procs s ! me)\<rparr>\<rparr>)
        (upd_buf b (\<lambda>x. x\<lparr>b_dev := dev, b_blockno := bno, b_valid := False, b_refcnt := 1\<rparr>) s))"
      using me ul bn len by (subst lock_buf_ok [of _ me]) simp_all
    moreover have "bget dev bno s = lock_buf b (upd_buf b (\<lambda>x. x\<lparr>b_dev := dev, b_blockno := bno, b_valid := False, b_refcnt := 1\<rparr>) s)"
      by (simp add: bget_def bscan_next [OF d] bscan_prev [OF d] None f)
    moreover have "x\<lparr>b_dev := dev, b_blockno := bno, b_valid := False, b_refcnt := 1, b_lock := l\<rparr> =
        x\<lparr>b_lock := l, b_dev := dev, b_blockno := bno, b_valid := False, b_refcnt := 1\<rparr>" for x :: buf and l
      by (cases x) simp
    ultimately show ?thesis using nk bn len by (auto simp: upd_buf_upd intro: upd_buf_cong)
  qed
qed

lemma caches_change:
  assumes "bchange s b y t" "b_dev y = ROOTDEV" "b_blockno y = n"
  shows "caches t i m \<longleftrightarrow> (if i = b then m = n else caches s i m)"
  using assms bchange_nth [OF assms(1), of i] by (auto simp: caches_def bchange_def)

lemma binv_change:
  assumes inv: "binv s" and ch: "bchange s b y t" and y: "b_dev y = ROOTDEV" "b_blockno y = n" "n < 2 ^ 31"
    and only: "\<And>i. caches s i n \<Longrightarrow> i = b"
    and disk: "\<And>m. m < 2 ^ 31 \<Longrightarrow> m \<noteq> n \<Longrightarrow> disk t (sector_of m) = disk s (sector_of m)"
    and fin: "b_refcnt y = 0 \<Longrightarrow> \<not> sl_locked (b_lock y) \<and> (b_valid y \<longrightarrow> b_data y = disk t (sector_of n))"
  shows "binv t"
  unfolding binv_def
proof (intro conjI allI impI)
  show "\<exists>xs. dll (bufs t) xs" using ch by (simp add: bchange_def)
next
  fix i j m assume "caches t i m" "caches t j m"
  then show "i = j"
    using inv only unfolding binv_def caches_change [OF ch y(1,2)] by (metis (full_types))
next
  fix i assume i: "i < NBUF"
  note f = bchange_nth [OF ch i]
  show "buf_ok t i"
  proof (cases "i = b")
    case True
    then show ?thesis using y fin f by (auto simp: buf_ok_def clean_def)
  next
    case False
    have ok: "buf_ok s i" using inv i by (simp add: binv_def)
    have "disk t (sector_of (b_blockno (bufs s ! i))) = disk s (sector_of (b_blockno (bufs s ! i)))"
      if "b_dev (bufs s ! i) = ROOTDEV"
    proof (rule disk)
      show "b_blockno (bufs s ! i) < 2 ^ 31" using ok that by (simp add: buf_ok_def)
      show "b_blockno (bufs s ! i) \<noteq> n" using only [of i] False i that by (auto simp: caches_def)
    qed
    with ok False show ?thesis by (auto simp: buf_ok_def clean_def f)
  qed
qed

lemma slot_of_change:
  assumes "binv s" "binv t" "bchange s b y t" "b_dev y = ROOTDEV" "b_blockno y = n"
  shows "slot_of t m = (if m = n then Some b else if slot_of s m = Some b then None else slot_of s m)"
proof -
  note c = caches_change [OF assms(3-5)]
  have "slot_of t n = Some b" by (simp add: slot_of_iff [OF assms(2)] c)
  moreover have "slot_of t m = None" if "m \<noteq> n" "slot_of s m = Some b"
  proof -
    have "caches s b m" using that(2) by (simp add: slot_of_iff [OF assms(1)])
    then have "\<not> caches s i m" if "i \<noteq> b" for i using assms(1) that unfolding binv_def by blast
    then show ?thesis using that(1) by (auto simp: slot_of_None [OF assms(2)] c)
  qed
  moreover have "slot_of t m = slot_of s m" if "m \<noteq> n" "slot_of s m \<noteq> Some b"
  proof (cases "slot_of s m")
    case None
    then have "\<not> caches s i m" for i by (simp add: slot_of_None [OF assms(1)])
    then have "slot_of t m = None" using that(1) by (auto simp: slot_of_None [OF assms(2)] c)
    with None show ?thesis by simp
  next
    case (Some i)
    then have "caches s i m" "i \<noteq> b" using that(2) by (auto simp: slot_of_iff [OF assms(1)])
    then have "slot_of t m = Some i" using that(1) by (simp add: slot_of_iff [OF assms(2)] c)
    with Some show ?thesis by simp
  qed
  ultimately show ?thesis by auto
qed

lemma view_change:
  assumes inv: "binv s" "binv t" and ch: "bchange s b y t" and y: "b_dev y = ROOTDEV" "b_blockno y = n" "n < 2 ^ 31"
    and old: "\<And>m. caches s b m \<Longrightarrow> m \<noteq> n \<Longrightarrow> b_refcnt (bufs s ! b) = 0"
    and disk: "\<And>m. m < 2 ^ 31 \<Longrightarrow> m \<noteq> n \<Longrightarrow> disk t (sector_of m) = disk s (sector_of m)"
  shows "v_cont (bview t) = (v_cont (bview s))(n := if b_valid y then b_data y else disk t (sector_of n))"
    and "v_ref (bview t) = (v_ref (bview s))(n := unat (b_refcnt y))"
    and "v_held (bview t) = (v_held (bview s))(n := sl_locked (b_lock y))"
proof -
  note sl = slot_of_change [OF inv ch y(1,2)]
  have b: "b < NBUF" using ch by (simp add: bchange_def)
  note fb = bchange_nth [OF ch b, simplified]
  have lost: "clean s b" "b_refcnt (bufs s ! b) = 0" "b_blockno (bufs s ! b) = m" if "m \<noteq> n" "slot_of s m = Some b" for m
  proof -
    have c: "caches s b m" using that(2) by (simp add: slot_of_iff [OF inv(1)])
    then show "b_refcnt (bufs s ! b) = 0" using old that(1) by simp
    moreover have "buf_ok s b" using inv(1) b by (simp add: binv_def)
    ultimately show "clean s b" by (simp add: buf_ok_def)
    show "b_blockno (bufs s ! b) = m" using c by (simp add: caches_def)
  qed
  have kept: "core (bufs t ! i) = core (bufs s ! i)" if "slot_of s m = Some i" "i \<noteq> b" for m i
    using that ch by (auto simp: bchange_def slot_of_iff [OF inv(1)] caches_def)
  note kept' = core_eqD [OF kept]
  have "bcontent t m = bcontent s m" if "m \<noteq> n" "m < 2 ^ 31" for m
    using that disk [of m] lost [of m] kept' [of m]
    by (auto simp: bcontent_def sl clean_def split: option.split)
  moreover have "bcontent t n = (if b_valid y then b_data y else disk t (sector_of n))"
    by (simp add: bcontent_def sl fb)
  ultimately show "v_cont (bview t) = (v_cont (bview s))(n := if b_valid y then b_data y else disk t (sector_of n))"
    using y(3) by (auto simp: bview_def fun_eq_iff)
  show "v_ref (bview t) = (v_ref (bview s))(n := unat (b_refcnt y))"
    using lost kept' by (auto simp: bview_def fun_eq_iff sl fb split: option.split)
  show "v_held (bview t) = (v_held (bview s))(n := sl_locked (b_lock y))"
    using lost kept' by (auto simp: bview_def fun_eq_iff sl fb clean_def split: option.split)
qed

lemma spare_change:
  assumes ch: "bchange s b y t"
  shows "v_spare (bview t) + (if b_refcnt (bufs s ! b) = 0 then 1 else 0) =
         v_spare (bview s) + (if b_refcnt y = 0 then 1 else 0)"
proof -
  define A where "A = {i. i < NBUF \<and> i \<noteq> b \<and> b_refcnt (bufs s ! i) = 0}"
  have b: "b < NBUF" using ch by (simp add: bchange_def)
  note f = bchange_nth (5) [OF ch]
  have "{i. i < NBUF \<and> b_refcnt (bufs t ! i) = 0} = A \<union> (if b_refcnt y = 0 then {b} else {})"
    using b f by (auto simp: A_def split: if_splits)
  moreover have "{i. i < NBUF \<and> b_refcnt (bufs s ! i) = 0} = A \<union> (if b_refcnt (bufs s ! b) = 0 then {b} else {})"
    using b by (auto simp: A_def)
  moreover have "finite A" "b \<notin> A" by (simp_all add: A_def)
  ultimately show ?thesis by (simp add: bview_def)
qed

lemma dll_upd:
  assumes "dll bs xs" "b_next y = b_next (bs ! b)" "b_prev y = b_prev (bs ! b)"
  shows "dll (bs[b := y]) xs"
proof -
  have "b_next (bs[b := y] ! i) = b_next (bs ! i) \<and> b_prev (bs[b := y] ! i) = b_prev (bs ! i)" for i
    using assms(2,3) by (cases "b < length bs"; cases "i = b") (simp_all add: list_update_beyond not_less)
  then have "nx (bs[b := y]) = nx bs" "pv (bs[b := y]) = pv bs" by (simp_all add: nx_def pv_def fun_eq_iff)
  then show ?thesis using assms(1) by (simp add: dll_def)
qed

lemma bchange_upd:
  assumes "binv s" "b < NBUF" "\<And>x. b_next (f x) = b_next x" "\<And>x. b_prev (f x) = b_prev x"
  shows "bchange s b (f (bufs s ! b)) (upd_buf b f s)"
proof -
  obtain xs where xs: "dll (bufs s) xs" using assms(1) by (auto simp: binv_def)
  then have "length (bufs s) = Suc NBUF" by (simp add: dll_def)
  moreover have "dll ((bufs s)[b := f (bufs s ! b)]) xs" using dll_upd [OF xs] assms(3,4) by simp
  ultimately show ?thesis using assms(2) by (auto simp: bchange_def upd_buf_def)
qed

lemma bget_choice_cached: "dll (bufs s) xs \<Longrightarrow> binv s \<Longrightarrow> caches s b n \<Longrightarrow> bget_choice (bufs s) xs ROOTDEV n = Some b"
proof -
  assume d: "dll (bufs s) xs" and i: "binv s" and c: "caches s b n"
  have "find (\<lambda>i. b_dev (bufs s ! i) = ROOTDEV \<and> b_blockno (bufs s ! i) = n) xs \<noteq> None"
    using d c by (auto simp: find_None_iff caches_def dll_def)
  then obtain b' where f: "find (\<lambda>i. b_dev (bufs s ! i) = ROOTDEV \<and> b_blockno (bufs s ! i) = n) xs = Some b'" by auto
  then have "b' \<in> set xs" "b_dev (bufs s ! b') = ROOTDEV \<and> b_blockno (bufs s ! b') = n"
    using find_mem by (fast, auto simp: find_Some_iff)
  then have "caches s b' n" using d by (auto simp: caches_def dll_def)
  then have "b' = b" using i c unfolding binv_def by blast
  with f show ?thesis by (simp add: bget_choice_def)
qed

lemma bget_choice_recycled:
  assumes "dll (bufs s) xs" "\<And>i. \<not> caches s i n" "0 < v_spare (bview s)"
  obtains b where "bget_choice (bufs s) xs ROOTDEV n = Some b" "b < NBUF" "b_refcnt (bufs s ! b) = 0"
proof -
  have st: "set xs = {..<NBUF}" using assms(1) by (simp add: dll_def)
  have "find (\<lambda>i. b_dev (bufs s ! i) = ROOTDEV \<and> b_blockno (bufs s ! i) = n) xs = None"
    using assms(2) st by (auto simp: find_None_iff caches_def)
  moreover have "\<exists>i. i < NBUF \<and> b_refcnt (bufs s ! i) = 0"
    using assms(3) by (auto simp: bview_def card_gt_0_iff)
  then have "find (\<lambda>i. b_refcnt (bufs s ! i) = 0) (rev xs) \<noteq> None"
    using st by (auto simp: find_None_iff)
  then obtain b where b: "find (\<lambda>i. b_refcnt (bufs s ! i) = 0) (rev xs) = Some b" by auto
  moreover have "b \<in> set (rev xs)" "b_refcnt (bufs s ! b) = 0"
    using b find_mem by (fast, auto simp: find_Some_iff)
  ultimately show thesis using st by (intro that [of b]) (auto simp: bget_choice_def)
qed

lemma who_Some: "who s = Some p \<longleftrightarrow> (\<exists>me. myproc s = Some me \<and> me < length (procs s) \<and> p = p_pid (procs s ! me))"
  by (auto simp: who_def split: option.splits)

lemma bview_upd [simp]:
  "v_disk (bview (upd_buf b f s)) = v_disk (bview s)" "v_dwrites (bview (upd_buf b f s)) = v_dwrites (bview s)"
  "v_who (bview (upd_buf b f s)) = v_who (bview s)" "v_rest (bview (upd_buf b f s)) = v_rest (bview s)"
  "who (upd_buf b f s) = who s" "disk (upd_buf b f s) = disk s"
  by (simp_all add: bview_def upd_buf_def who_def myproc_def cong: option.case_cong if_cong)

text \<open>Taking a buffer for block \<open>n\<close>: the net effect of \<open>bread\<close> as one change of one buffer.\<close>

lemma bread_upd:
  assumes inv: "binv s" and me: "myproc s = Some me" and n: "n < 2 ^ 31"
    and unl: "\<not> v_held (bview s) n" and av: "0 < v_ref (bview s) n \<or> 0 < v_spare (bview s)"
  obtains b f where "bread ROOTDEV n s = Ret b (upd_buf b f s)" "b < NBUF"
    "\<And>i. caches s i n \<Longrightarrow> i = b" "\<And>m. caches s b m \<Longrightarrow> m \<noteq> n \<Longrightarrow> b_refcnt (bufs s ! b) = 0"
    "f (bufs s ! b) = (bufs s ! b)\<lparr>b_valid := True, b_dev := ROOTDEV, b_blockno := n,
       b_lock := \<lparr>sl_locked = True, sl_pid = p_pid (procs s ! me)\<rparr>,
       b_refcnt := (if caches s b n then b_refcnt (bufs s ! b) else 0) + 1, b_data := bcontent s n\<rparr>"
    "b_refcnt (bufs s ! b) = 0 \<longleftrightarrow> v_ref (bview s) n = 0"
    "\<And>x. b_next (f x) = b_next x" "\<And>x. b_prev (f x) = b_prev x"
proof -
  obtain xs where d: "dll (bufs s) xs" using inv by (auto simp: binv_def)
  then have len: "length (bufs s) = Suc NBUF" by (simp add: dll_def)
  let ?g = "\<lambda>b x. x\<lparr>b_lock := \<lparr>sl_locked = True, sl_pid = p_pid (procs s ! me)\<rparr>, b_dev := ROOTDEV, b_blockno := n,
     b_valid := (b_dev x = ROOTDEV \<and> b_blockno x = n \<and> b_valid x),
     b_refcnt := (if b_dev x = ROOTDEV \<and> b_blockno x = n then b_refcnt x + 1 else 1)\<rparr>"
  let ?f = "\<lambda>b x. if b_valid (?g b x) then ?g b x else (?g b x)\<lparr>b_data := disk s (sector_of n), b_valid := True\<rparr>"
  note goal = that
  have go: thesis
    if c: "bget_choice (bufs s) xs ROOTDEV n = Some b" and b: "b < NBUF" and unl: "\<not> sl_locked (b_lock (bufs s ! b))"
      and only: "\<And>i. caches s i n \<Longrightarrow> i = b" and old: "\<And>m. caches s b m \<Longrightarrow> m \<noteq> n \<Longrightarrow> b_refcnt (bufs s ! b) = 0"
      and ref: "b_refcnt (bufs s ! b) = 0 \<longleftrightarrow> v_ref (bview s) n = 0" for b
  proof (rule goal)
    have g: "bget ROOTDEV n s = Ret b (upd_buf b (?g b) s)" using bget_ok [OF d me c unl] by simp
    have "bread ROOTDEV n s = Ret b (upd_buf b (?f b) s)"
    proof (cases "b_valid (?g b (bufs s ! b))")
      case True
      then show ?thesis using g b len by (auto simp: bread_def upd_buf_def)
    next
      case False
      then show ?thesis using g b len by (auto simp: bread_def disk_transfer_def upd_buf_def)
    qed
    then show "bread ROOTDEV n s = Ret b (upd_buf b (?f b) s)" .
    have ct: "bcontent s n = (if caches s b n \<and> b_valid (bufs s ! b) then b_data (bufs s ! b) else disk s (sector_of n))"
    proof (cases "caches s b n")
      case True
      then have "slot_of s n = Some b" using inv by (simp add: slot_of_iff)
      then show ?thesis using True by (simp add: bcontent_def)
    next
      case False
      then have "slot_of s n = None" using inv only by (auto simp: slot_of_None)
      then show ?thesis using False by (simp add: bcontent_def)
    qed
    show "?f b (bufs s ! b) = (bufs s ! b)\<lparr>b_valid := True, b_dev := ROOTDEV, b_blockno := n,
       b_lock := \<lparr>sl_locked = True, sl_pid = p_pid (procs s ! me)\<rparr>,
       b_refcnt := (if caches s b n then b_refcnt (bufs s ! b) else 0) + 1, b_data := bcontent s n\<rparr>"
      using b ct by (cases "bufs s ! b") (auto simp: caches_def)
  qed (use b only old ref in auto)
  show thesis
  proof (cases "\<exists>b. caches s b n")
    case True
    then obtain b where b: "caches s b n" by auto
    then have sl: "slot_of s n = Some b" using inv by (simp add: slot_of_iff)
    show thesis
    proof (rule go)
      show "bget_choice (bufs s) xs ROOTDEV n = Some b" using bget_choice_cached [OF d inv b] .
      show "b < NBUF" using b by (simp add: caches_def)
      show "\<not> sl_locked (b_lock (bufs s ! b))" using unl sl by (simp add: bview_def)
      show "i = b" if "caches s i n" for i using that b inv unfolding binv_def by blast
      show "b_refcnt (bufs s ! b) = 0" if "caches s b m" "m \<noteq> n" for m using that b by (simp add: caches_def)
      show "b_refcnt (bufs s ! b) = 0 \<longleftrightarrow> v_ref (bview s) n = 0" using sl by (simp add: bview_def unat_eq_0)
    qed
  next
    case False
    then have "slot_of s n = None" using inv by (auto simp: slot_of_None)
    then have r0: "v_ref (bview s) n = 0" by (simp add: bview_def)
    with av False obtain b where b: "bget_choice (bufs s) xs ROOTDEV n = Some b" "b < NBUF" "b_refcnt (bufs s ! b) = 0"
      using bget_choice_recycled [OF d] by auto
    then have "clean s b" using inv by (simp add: binv_def buf_ok_def)
    then show thesis using b False r0 by (intro go) (auto simp: clean_def)
  qed
qed

lemma bread_spec:
  assumes inv: "binv s" and w: "who s \<noteq> None" and n: "n < 2 ^ 31"
    and unl: "\<not> v_held (bview s) n" and av: "0 < v_ref (bview s) n \<or> 0 < v_spare (bview s)"
    and nw: "v_ref (bview s) n < 2 ^ 31"
  shows "returns (bread ROOTDEV n s) (\<lambda>b t. binv t \<and> at t b n \<and> b_data (bufs t ! b) = v_cont (bview s) n \<and>
      bview t = (bview s)\<lparr>v_ref := (v_ref (bview s))(n := v_ref (bview s) n + 1), v_held := (v_held (bview s))(n := True),
        v_spare := v_spare (bview s) - (if v_ref (bview s) n = 0 then 1 else 0)\<rparr> \<and>
      (\<forall>k m. at s k m \<longrightarrow> at t k m \<and> bufs t ! k = bufs s ! k))"
proof -
  obtain me where me: "myproc s = Some me" "me < length (procs s)" using w by (auto simp: who_def split: option.splits if_splits)
  obtain b f where
    r: "bread ROOTDEV n s = Ret b (upd_buf b f s)" and b: "b < NBUF" and only: "\<And>i. caches s i n \<Longrightarrow> i = b"
    and old: "\<And>m. caches s b m \<Longrightarrow> m \<noteq> n \<Longrightarrow> b_refcnt (bufs s ! b) = 0"
    and f: "f (bufs s ! b) = (bufs s ! b)\<lparr>b_valid := True, b_dev := ROOTDEV, b_blockno := n,
       b_lock := \<lparr>sl_locked = True, sl_pid = p_pid (procs s ! me)\<rparr>,
       b_refcnt := (if caches s b n then b_refcnt (bufs s ! b) else 0) + 1, b_data := bcontent s n\<rparr>"
    and ref: "b_refcnt (bufs s ! b) = 0 \<longleftrightarrow> v_ref (bview s) n = 0"
    and ptr: "\<And>x. b_next (f x) = b_next x" "\<And>x. b_prev (f x) = b_prev x"
    by (rule bread_upd [OF inv me(1) n unl av], rule that)
  define t where "t = upd_buf b f s"
  define y where "y = f (bufs s ! b)"
  have y: "b_dev y = ROOTDEV" "b_blockno y = n" "b_valid y" "sl_locked (b_lock y)" "b_data y = bcontent s n"
    "sl_pid (b_lock y) = p_pid (procs s ! me)" by (simp_all add: y_def f)
  have rn: "v_ref (bview s) n = unat (if caches s b n then b_refcnt (bufs s ! b) else 0)"
  proof (cases "caches s b n")
    case True
    then have "slot_of s n = Some b" using inv by (simp add: slot_of_iff)
    then show ?thesis using True by (simp add: bview_def)
  next
    case False
    then have "slot_of s n = None" using inv only by (auto simp: slot_of_None)
    then show ?thesis using False by (simp add: bview_def)
  qed
  have ry: "unat (b_refcnt y) = v_ref (bview s) n + 1"
    using nw unfolding rn y_def f by (simp add: unat_word_ariths)
  then have ry0: "b_refcnt y \<noteq> 0" by auto
  have ch: "bchange s b y t" unfolding t_def y_def using bchange_upd [OF inv b] ptr by auto
  have inv': "binv t"
    using binv_change [OF inv ch y(1,2) n only] ry0 by (auto simp: t_def)
  have dk: "disk t (sector_of m) = disk s (sector_of m)" for m by (simp add: t_def)
  have vc: "v_cont (bview t) = (v_cont (bview s))(n := bcontent s n)"
    "v_ref (bview t) = (v_ref (bview s))(n := unat (b_refcnt y))" "v_held (bview t) = (v_held (bview s))(n := True)"
    using view_change [OF inv inv' ch y(1,2) n] old y dk by auto
  have v: "bview t = (bview s)\<lparr>v_ref := (v_ref (bview s))(n := v_ref (bview s) n + 1), v_held := (v_held (bview s))(n := True),
        v_spare := v_spare (bview s) - (if v_ref (bview s) n = 0 then 1 else 0)\<rparr>"
  proof (rule bview.equality)
    have "v_cont (bview s) n = bcontent s n" using n by (simp add: bview_def)
    then show "v_cont (bview t) = v_cont ((bview s)\<lparr>v_ref := (v_ref (bview s))(n := v_ref (bview s) n + 1), v_held := (v_held (bview s))(n := True),
        v_spare := v_spare (bview s) - (if v_ref (bview s) n = 0 then 1 else 0)\<rparr>)"
      using vc(1) by (simp add: fun_upd_idem)
  qed (use vc(2,3) ry spare_change [OF ch] ref ry0 in \<open>auto simp: t_def\<close>)
  have yb: "bufs t ! b = y" using ch inv b by (auto simp: t_def y_def upd_buf_def binv_def dll_def)
  have other: "bufs t ! k = bufs s ! k" if "k \<noteq> b" for k using that by (simp add: t_def upd_buf_def)
  have "at t b n" using b y ry0 me by (simp add: at_def caches_def yb) (simp add: t_def who_def)
  moreover have "at t k m \<and> bufs t ! k = bufs s ! k" if "at s k m" for k m
  proof -
    have "k \<noteq> b"
    proof
      assume "k = b"
      then have "caches s b m" "sl_locked (b_lock (bufs s ! b))" "b_refcnt (bufs s ! b) \<noteq> 0" using that by (auto simp: at_def)
      then have "m = n" using old by auto
      then have "slot_of s n = Some b" using \<open>caches s b m\<close> inv by (simp add: slot_of_iff)
      then show False using unl \<open>sl_locked (b_lock (bufs s ! b))\<close> by (simp add: bview_def)
    qed
    with that other show ?thesis by (auto simp: at_def caches_def t_def)
  qed
  ultimately show ?thesis using r inv' v yb y n by (auto simp: t_def [symmetric] bview_def)
qed

lemma at_slot: "binv s \<Longrightarrow> at s b n \<Longrightarrow> slot_of s n = Some b \<and> b < NBUF \<and> n < 2 ^ 31"
proof -
  assume i: "binv s" and a: "at s b n"
  then have "b < NBUF" "buf_ok s b" by (auto simp: at_def caches_def binv_def)
  with i a show ?thesis by (auto simp: at_def caches_def slot_of_iff buf_ok_def)
qed

lemma at_only: "binv s \<Longrightarrow> at s b n \<Longrightarrow> caches s i n \<Longrightarrow> i = b"
  by (auto simp: at_def binv_def)

lemma at_other:
  assumes "binv s" "at s b n" "bchange s b y t" "who t = who s" "at s k m" "m \<noteq> n"
  shows "at t k m" and "b_data (bufs t ! k) = b_data (bufs s ! k)"
proof -
  have k: "k \<noteq> b" "k < NBUF" using assms by (auto simp: at_def caches_def)
  show "at t k m" "b_data (bufs t ! k) = b_data (bufs s ! k)"
    using bchange_nth [OF assms(3) k(2)] k assms(4,5) by (auto simp: at_def caches_def)
qed

text \<open>A change of a buffer the running process has locked.\<close>

lemma at_change:
  assumes inv: "binv s" and at: "at s b n" and ch: "bchange s b y t" and y: "b_dev y = ROOTDEV" "b_blockno y = n" "b_valid y"
    and disk: "\<And>m. m < 2 ^ 31 \<Longrightarrow> m \<noteq> n \<Longrightarrow> disk t (sector_of m) = disk s (sector_of m)"
    and fin: "b_refcnt y = 0 \<Longrightarrow> \<not> sl_locked (b_lock y) \<and> b_data y = disk t (sector_of n)"
  shows "binv t \<and> v_cont (bview t) = (v_cont (bview s))(n := b_data y) \<and> v_ref (bview t) = (v_ref (bview s))(n := unat (b_refcnt y)) \<and>
    v_held (bview t) = (v_held (bview s))(n := sl_locked (b_lock y)) \<and>
    v_spare (bview t) = v_spare (bview s) + (if b_refcnt y = 0 then 1 else 0)"
proof -
  have b: "b < NBUF" "n < 2 ^ 31" using at_slot [OF inv at] by auto
  have inv': "binv t" using binv_change [OF inv ch y(1,2) b(2)] at_only [OF inv at] disk fin by auto
  have "b_refcnt (bufs s ! b) = 0" if "caches s b m" "m \<noteq> n" for m
    using that at by (simp add: at_def caches_def)
  then have "v_cont (bview t) = (v_cont (bview s))(n := b_data y)" "v_ref (bview t) = (v_ref (bview s))(n := unat (b_refcnt y))"
    "v_held (bview t) = (v_held (bview s))(n := sl_locked (b_lock y))"
    using view_change [OF inv inv' ch y(1,2) b(2)] disk y(3) by auto
  then show ?thesis using inv' spare_change [OF ch] at by (auto simp: at_def)
qed

lemma at_view: "binv s \<Longrightarrow> at s b n \<Longrightarrow> v_cont (bview s) n = b_data (bufs s ! b) \<and> v_held (bview s) n \<and>
    v_ref (bview s) n = unat (b_refcnt (bufs s ! b)) \<and> 0 < v_ref (bview s) n"
  using at_slot [of s b n] by (auto simp: bview_def bcontent_def at_def unat_gt_0)

lemma set_data_spec:
  fixes d :: "u8 list"
  assumes inv: "binv s" and at: "at s b n"
  defines "t \<equiv> upd_buf b (\<lambda>x. x\<lparr>b_data := d\<rparr>) s"
  shows "binv t \<and> at t b n \<and> b_data (bufs t ! b) = d \<and> bview t = (bview s)\<lparr>v_cont := (v_cont (bview s))(n := d)\<rparr> \<and>
    (\<forall>k m. at s k m \<longrightarrow> m \<noteq> n \<longrightarrow> at t k m \<and> b_data (bufs t ! k) = b_data (bufs s ! k))"
proof -
  define y where "y = (bufs s ! b)\<lparr>b_data := d\<rparr>"
  have b: "b < NBUF" using at_slot [OF inv at] by simp
  have ch: "bchange s b y t" unfolding t_def y_def by (rule bchange_upd [OF inv b]) simp_all
  have y: "b_dev y = ROOTDEV" "b_blockno y = n" "b_valid y" "b_refcnt y \<noteq> 0" "sl_locked (b_lock y)"
    using at by (simp_all add: at_def caches_def y_def)
  have c: "binv t \<and> v_cont (bview t) = (v_cont (bview s))(n := b_data y) \<and> v_ref (bview t) = (v_ref (bview s))(n := unat (b_refcnt y)) \<and>
    v_held (bview t) = (v_held (bview s))(n := sl_locked (b_lock y)) \<and>
    v_spare (bview t) = v_spare (bview s) + (if b_refcnt y = 0 then 1 else 0)"
    by (rule at_change [OF inv at ch y(1-3)]) (use y(4) in \<open>simp_all add: t_def\<close>)
  have "bview t = (bview s)\<lparr>v_cont := (v_cont (bview s))(n := d)\<rparr>"
    by (rule bview.equality) (use c at_view [OF inv at] y in \<open>auto simp: t_def y_def fun_upd_idem\<close>)
  moreover have "bufs t ! b = y" using inv b by (auto simp: t_def y_def upd_buf_def binv_def dll_def)
  moreover have "at t b n" using at \<open>bufs t ! b = y\<close> by (auto simp: at_def caches_def y_def t_def)
  ultimately show ?thesis using c at_other [OF inv at ch] by (auto simp: t_def y_def)
qed

lemma bwrite_spec:
  assumes inv: "binv s" and at: "at s b n"
  shows "returns (bwrite b s) (\<lambda>_ t. binv t \<and> at t b n \<and> bufs t = bufs s \<and>
     bview t = (bview s)\<lparr>v_disk := (v_disk (bview s))(sector_of n := v_cont (bview s) n),
       v_dwrites := v_dwrites (bview s) @ [(sector_of n, v_cont (bview s) n)]\<rparr> \<and>
     (\<forall>k m. at s k m \<longrightarrow> at t k m))"
proof -
  define t where "t = s\<lparr>disk := (disk s)(sector_of n := b_data (bufs s ! b)), dwrites := dwrites s @ [(sector_of n, b_data (bufs s ! b))]\<rparr>"
  have h: "holdingsleep (b_lock (bufs s ! b)) s"
    using at by (auto simp: at_def holdingsleep_def who_def split: option.splits if_splits)
  have blk: "b_blockno (bufs s ! b) = n" using at by (simp add: at_def caches_def)
  have r: "bwrite b s = Ret () t" using h blk by (simp add: bwrite_def disk_transfer_def t_def Let_def)
  have b: "b < NBUF" "n < 2 ^ 31" using at_slot [OF inv at] by auto
  have w: "who t = who s" by (simp add: t_def who_def myproc_def cong: option.case_cong if_cong)
  have ch: "bchange s b (bufs s ! b) t" using inv b by (auto simp: bchange_def t_def binv_def)
  have y: "b_dev (bufs s ! b) = ROOTDEV" "b_blockno (bufs s ! b) = n" "b_valid (bufs s ! b)" "b_refcnt (bufs s ! b) \<noteq> 0"
    using at by (simp_all add: at_def caches_def)
  have dk: "disk t (sector_of m) = disk s (sector_of m)" if "m < 2 ^ 31" "m \<noteq> n" for m
    using that sector_of_inj [of m n] b by (auto simp: t_def)
  have c: "binv t \<and> v_cont (bview t) = (v_cont (bview s))(n := b_data (bufs s ! b)) \<and>
    v_ref (bview t) = (v_ref (bview s))(n := unat (b_refcnt (bufs s ! b))) \<and>
    v_held (bview t) = (v_held (bview s))(n := sl_locked (b_lock (bufs s ! b))) \<and>
    v_spare (bview t) = v_spare (bview s) + (if b_refcnt (bufs s ! b) = 0 then 1 else 0)"
    by (rule at_change [OF inv at ch y(1-3)]) (use y dk in simp_all)
  have vw: "v_cont (bview s) n = b_data (bufs s ! b)" "v_held (bview s) n" "v_ref (bview s) n = unat (b_refcnt (bufs s ! b))"
    using at_view [OF inv at] by auto
  have "bview t = (bview s)\<lparr>v_disk := (v_disk (bview s))(sector_of n := v_cont (bview s) n),
       v_dwrites := v_dwrites (bview s) @ [(sector_of n, v_cont (bview s) n)]\<rparr>"
  proof (rule bview.equality)
    show "v_held (bview t) = v_held ((bview s)\<lparr>v_disk := (v_disk (bview s))(sector_of n := v_cont (bview s) n),
       v_dwrites := v_dwrites (bview s) @ [(sector_of n, v_cont (bview s) n)]\<rparr>)"
      using c vw at by (simp add: at_def fun_upd_idem)
  qed (use c vw y w in \<open>simp_all add: fun_upd_idem\<close>, simp_all add: bview_def t_def)
  moreover have "at t k m" if "at s k m" for k m using that w by (auto simp: at_def caches_def t_def)
  ultimately show ?thesis using c r at by (auto simp: t_def)
qed

lemma bufs_only:
  "unlink b s = s\<lparr>bufs := bufs (unlink b s)\<rparr>" "link_front b s = s\<lparr>bufs := bufs (link_front b s)\<rparr>"
  by (simp_all add: unlink_def link_front_def upd_buf_def Let_def)

lemma bufs_only_move: "link_front b (unlink b s) = s\<lparr>bufs := bufs (link_front b (unlink b s))\<rparr>"
proof -
  have "link_front b (unlink b s) = (unlink b s)\<lparr>bufs := bufs (link_front b (unlink b s))\<rparr>" by (rule bufs_only)
  also have "\<dots> = s\<lparr>bufs := bufs (link_front b (unlink b s))\<rparr>" by (subst (1) bufs_only(1)) simp
  finally show ?thesis .
qed

lemma wakeup_bstate [simp]:
  "bufs (wakeup c s) = bufs s" "disk (wakeup c s) = disk s" "dwrites (wakeup c s) = dwrites s"
  by (simp_all add: wakeup_def)

lemma who_wakeup [simp]: "who (wakeup c s) = who s"
  by (auto simp: who_def wakeup_nth wake_proc_def split: option.split)

lemma who_bufs [simp]: "who (s\<lparr>bufs := bs\<rparr>) = who s"
  by (simp add: who_def myproc_def cong: option.case_cong if_cong)

lemma brelse_state:
  assumes inv: "binv s" and at: "at s b n" and xs: "dll (bufs s) xs"
  obtains t y where "brelse b s = Ret () t" "bchange s b y t"
    "y = (bufs s ! b)\<lparr>b_lock := \<lparr>sl_locked = False, sl_pid = 0\<rparr>, b_refcnt := b_refcnt (bufs s ! b) - 1\<rparr>"
    "t = (wakeup (Some (ChBufLock b)) s)\<lparr>bufs := bufs t\<rparr>"
    "dll (bufs t) (if b_refcnt y = 0 then b # remove1 b xs else xs)"
proof -
  have b: "b < NBUF" using at_slot [OF inv at] by auto
  have len: "length (bufs s) = Suc NBUF" using xs by (simp add: dll_def)
  have h: "holdingsleep (b_lock (bufs s ! b)) s"
    using at by (auto simp: at_def holdingsleep_def who_def split: option.splits if_splits)
  define y where "y = (bufs s ! b)\<lparr>b_lock := \<lparr>sl_locked = False, sl_pid = 0\<rparr>, b_refcnt := b_refcnt (bufs s ! b) - 1\<rparr>"
  define w where "w = (wakeup (Some (ChBufLock b)) s)\<lparr>bufs := (bufs s)[b := y]\<rparr>"
  define t where "t = (if b_refcnt y = 0 then link_front b (unlink b w) else w)"
  have r: "brelse b s = Ret () t"
    using h b len by (simp add: brelse_def releasesleep_def sleeplock_upd upd_buf_def w_def y_def t_def)
  have wb: "bufs w = (bufs s)[b := y]" by (simp add: w_def)
  have dw: "dll (bufs w) xs" unfolding wb by (rule dll_upd [OF xs]) (simp_all add: y_def)
  have "bchange s b y t"
  proof (cases "b_refcnt y = 0")
    case True
    then have t: "t = link_front b (unlink b w)" by (simp add: t_def)
    have "core (bufs t ! i) = core (bufs w ! i)" if "i < NBUF" for i
      using same_core_nth [OF move_front(2) [OF dw b], of i] that len by (simp add: t wb)
    with move_front(1) [OF dw b] show ?thesis using b len by (auto simp: bchange_def t wb)
  next
    case False
    then show ?thesis using dw b len by (auto simp: bchange_def t_def wb)
  qed
  moreover have "t = (wakeup (Some (ChBufLock b)) s)\<lparr>bufs := bufs t\<rparr>"
  proof -
    have "t = w\<lparr>bufs := bufs t\<rparr>" by (auto simp: t_def bufs_only_move [symmetric])
    then show ?thesis by (simp add: w_def)
  qed
  moreover have "dll (bufs t) (if b_refcnt y = 0 then b # remove1 b xs else xs)"
    using move_front(1) [OF dw b] dw by (simp add: t_def)
  ultimately show thesis using that r y_def by blast
qed

lemma brelse_spec:
  assumes inv: "binv s" and at: "at s b n"
    and cl: "v_ref (bview s) n = 1 \<Longrightarrow> v_cont (bview s) n = v_disk (bview s) (sector_of n)"
  shows "returns (brelse b s) (\<lambda>_ t. binv t \<and>
     bview t = (bview s)\<lparr>v_ref := (v_ref (bview s))(n := v_ref (bview s) n - 1), v_held := (v_held (bview s))(n := False),
       v_spare := v_spare (bview s) + (if v_ref (bview s) n = 1 then 1 else 0)\<rparr> \<and>
     (\<forall>k m. at s k m \<longrightarrow> m \<noteq> n \<longrightarrow> at t k m \<and> b_data (bufs t ! k) = b_data (bufs s ! k)))"
proof -
  obtain xs where xs: "dll (bufs s) xs" using inv by (auto simp: binv_def)
  obtain t y where r: "brelse b s = Ret () t" and ch: "bchange s b y t"
    and y': "y = (bufs s ! b)\<lparr>b_lock := \<lparr>sl_locked = False, sl_pid = 0\<rparr>, b_refcnt := b_refcnt (bufs s ! b) - 1\<rparr>"
    and t: "t = (wakeup (Some (ChBufLock b)) s)\<lparr>bufs := bufs t\<rparr>"
    by (rule brelse_state [OF inv at xs])
  have y: "b_dev y = ROOTDEV" "b_blockno y = n" "b_valid y" "b_data y = b_data (bufs s ! b)" "\<not> sl_locked (b_lock y)"
    using at by (simp_all add: at_def caches_def y')
  have dk: "disk t = disk s" "dwrites t = dwrites s" by (subst t, simp)+
  have wt: "who t = who s" by (subst t) simp
  have vw: "v_cont (bview s) n = b_data (bufs s ! b)" "v_ref (bview s) n = unat (b_refcnt (bufs s ! b))" "b_refcnt (bufs s ! b) \<noteq> 0"
    using at_view [OF inv at] by (auto simp: unat_gt_0)
  have ry: "unat (b_refcnt y) = v_ref (bview s) n - 1"
    using vw by (simp add: y' unat_minus_one)
  have ry0: "b_refcnt y = 0 \<longleftrightarrow> v_ref (bview s) n = 1"
    using ry at_view [OF inv at] unat_eq_0 [of "b_refcnt y"] by linarith
  have c: "binv t \<and> v_cont (bview t) = (v_cont (bview s))(n := b_data y) \<and> v_ref (bview t) = (v_ref (bview s))(n := unat (b_refcnt y)) \<and>
    v_held (bview t) = (v_held (bview s))(n := sl_locked (b_lock y)) \<and>
    v_spare (bview t) = v_spare (bview s) + (if b_refcnt y = 0 then 1 else 0)"
  proof (rule at_change [OF inv at ch y(1-3)])
    assume "b_refcnt y = 0"
    then show "\<not> sl_locked (b_lock y) \<and> b_data y = disk t (sector_of n)"
      using cl ry0 vw y(4,5) dk by (simp add: bview_def)
  qed (simp add: dk)
  have rest: "v_rest (bview t) = v_rest (bview s)"
    by (subst t) (simp add: bview_def wakeup_def)
  have "bview t = (bview s)\<lparr>v_ref := (v_ref (bview s))(n := v_ref (bview s) n - 1), v_held := (v_held (bview s))(n := False),
       v_spare := v_spare (bview s) + (if v_ref (bview s) n = 1 then 1 else 0)\<rparr>"
    by (rule bview.equality) (use c vw y ry ry0 rest dk wt in \<open>simp_all add: fun_upd_idem\<close>, simp_all add: bview_def)
  with r c at_other [OF inv at ch wt] show ?thesis by auto
qed

lemma set_ref_spec:
  fixes r :: u32
  assumes inv: "binv s" and at: "at s b n" and r: "r \<noteq> 0"
  defines "t \<equiv> upd_buf b (\<lambda>x. x\<lparr>b_refcnt := r\<rparr>) s"
  shows "binv t \<and> at t b n \<and> b_data (bufs t ! b) = b_data (bufs s ! b) \<and>
    bview t = (bview s)\<lparr>v_ref := (v_ref (bview s))(n := unat r)\<rparr> \<and>
    (\<forall>k m. at s k m \<longrightarrow> m \<noteq> n \<longrightarrow> at t k m \<and> b_data (bufs t ! k) = b_data (bufs s ! k))"
proof -
  define y where "y = (bufs s ! b)\<lparr>b_refcnt := r\<rparr>"
  have b: "b < NBUF" using at_slot [OF inv at] by simp
  have ch: "bchange s b y t" unfolding t_def y_def by (rule bchange_upd [OF inv b]) simp_all
  have y: "b_dev y = ROOTDEV" "b_blockno y = n" "b_valid y" "b_refcnt y = r" "sl_locked (b_lock y)" "b_data y = b_data (bufs s ! b)"
    using at by (simp_all add: at_def caches_def y_def)
  have c: "binv t \<and> v_cont (bview t) = (v_cont (bview s))(n := b_data y) \<and> v_ref (bview t) = (v_ref (bview s))(n := unat (b_refcnt y)) \<and>
    v_held (bview t) = (v_held (bview s))(n := sl_locked (b_lock y)) \<and>
    v_spare (bview t) = v_spare (bview s) + (if b_refcnt y = 0 then 1 else 0)"
    by (rule at_change [OF inv at ch y(1-3)]) (use y r in \<open>simp_all add: t_def\<close>)
  have "bview t = (bview s)\<lparr>v_ref := (v_ref (bview s))(n := unat r)\<rparr>"
    by (rule bview.equality) (use c at_view [OF inv at] y r in \<open>auto simp: t_def fun_upd_idem\<close>)
  moreover have "bufs t ! b = y" using inv b by (auto simp: t_def y_def upd_buf_def binv_def dll_def)
  moreover have "at t b n" using at r \<open>bufs t ! b = y\<close> by (auto simp: at_def caches_def y_def t_def)
  ultimately show ?thesis using c at_other [OF inv at ch] y by (auto simp: t_def)
qed

lemma bpin_spec:
  assumes inv: "binv s" and at: "at s b n" and nw: "v_ref (bview s) n < 2 ^ 31"
  shows "binv (bpin b s) \<and> at (bpin b s) b n \<and> b_data (bufs (bpin b s) ! b) = b_data (bufs s ! b) \<and>
     bview (bpin b s) = (bview s)\<lparr>v_ref := (v_ref (bview s))(n := v_ref (bview s) n + 1)\<rparr> \<and>
     (\<forall>k m. at s k m \<longrightarrow> m \<noteq> n \<longrightarrow> at (bpin b s) k m \<and> b_data (bufs (bpin b s) ! k) = b_data (bufs s ! k))"
proof -
  define r where "r = b_refcnt (bufs s ! b) + 1"
  have "unat r = v_ref (bview s) n + 1"
    using at_view [OF inv at] nw by (simp add: r_def unat_word_ariths)
  moreover from this have "r \<noteq> 0" by auto
  moreover have "bpin b s = upd_buf b (\<lambda>x. x\<lparr>b_refcnt := r\<rparr>) s"
    unfolding bpin_def by (rule upd_buf_cong) (simp_all add: r_def)
  ultimately show ?thesis using set_ref_spec [OF inv at, of r] by simp
qed

lemma bunpin_spec:
  assumes inv: "binv s" and at: "at s b n" and nw: "1 < v_ref (bview s) n"
  shows "binv (bunpin b s) \<and> at (bunpin b s) b n \<and> b_data (bufs (bunpin b s) ! b) = b_data (bufs s ! b) \<and>
     bview (bunpin b s) = (bview s)\<lparr>v_ref := (v_ref (bview s))(n := v_ref (bview s) n - 1)\<rparr> \<and>
     (\<forall>k m. at s k m \<longrightarrow> m \<noteq> n \<longrightarrow> at (bunpin b s) k m \<and> b_data (bufs (bunpin b s) ! k) = b_data (bufs s ! k))"
proof -
  define r where "r = b_refcnt (bufs s ! b) - 1"
  have "unat r = v_ref (bview s) n - 1"
  proof -
    have "b_refcnt (bufs s ! b) \<noteq> 0" using at by (simp add: at_def)
    then show ?thesis using at_view [OF inv at] by (simp add: r_def unat_minus_one)
  qed
  moreover from this have "r \<noteq> 0" using nw by auto
  moreover have "bunpin b s = upd_buf b (\<lambda>x. x\<lparr>b_refcnt := r\<rparr>) s"
    unfolding bunpin_def by (rule upd_buf_cong) (simp_all add: r_def)
  ultimately show ?thesis using set_ref_spec [OF inv at, of r] by simp
qed

lemma unreferenced_clean:
  assumes inv: "binv s" and n: "n < 2 ^ 31" and r: "v_ref (bview s) n = 0"
  shows "v_cont (bview s) n = v_disk (bview s) (sector_of n)"
proof (cases "slot_of s n")
  case None
  then show ?thesis using n by (simp add: bview_def bcontent_def)
next
  case (Some i)
  then have c: "caches s i n" using inv by (simp add: slot_of_iff)
  moreover have "b_refcnt (bufs s ! i) = 0" using r Some by (simp add: bview_def unat_eq_0)
  ultimately have "clean s i" using inv by (auto simp: binv_def caches_def buf_ok_def)
  then show ?thesis using Some c n by (simp add: bview_def bcontent_def clean_def caches_def)
qed

text \<open>The view depends on the buffers, the disk and the running process only.\<close>

lemma bcache_frame:
  assumes "bufs t = bufs s" "disk t = disk s" "dwrites t = dwrites s" "who t = who s"
  shows "binv t = binv s" "at t = at s" "bview t = (bview s)\<lparr>v_rest := v_rest (bview t)\<rparr>"
proof -
  show "binv t = binv s" by (simp add: binv_def buf_ok_def clean_def caches_def assms)
  show "at t = at s" by (simp add: at_def caches_def assms fun_eq_iff)
  show "bview t = (bview s)\<lparr>v_rest := v_rest (bview t)\<rparr>"
    by (simp add: bview_def bcontent_def slot_of_def assms cong: option.case_cong if_cong)
qed

section \<open>The interface of the cache\<close>

text \<open>
  What the clients of the cache rely on: the laws of the operations on what a state shows of each
  block. \<open>rd\<close> is \<open>bread\<close> on the root disk, \<open>put\<close> stores into the data of a locked buffer.
\<close>

definition ready :: "'r bview \<Rightarrow> u32 \<Rightarrow> bool" where
  "ready v n \<longleftrightarrow> n < 2 ^ 31 \<and> \<not> v_held v n \<and> (0 < v_ref v n \<or> 0 < v_spare v) \<and> v_ref v n < 2 ^ 30 \<and> v_who v \<noteq> None"

locale block_store =
  fixes inv :: "'s \<Rightarrow> bool" and view :: "'s \<Rightarrow> 'r bview" and held :: "'s \<Rightarrow> nat \<Rightarrow> u32 \<Rightarrow> bool"
    and data :: "'s \<Rightarrow> nat \<Rightarrow> u8 list"
    and rd :: "u32 \<Rightarrow> 's \<Rightarrow> (nat, 's) run" and put :: "nat \<Rightarrow> u8 list \<Rightarrow> 's \<Rightarrow> 's"
    and wr :: "nat \<Rightarrow> 's \<Rightarrow> (unit, 's) run" and rel :: "nat \<Rightarrow> 's \<Rightarrow> (unit, 's) run"
    and pin :: "nat \<Rightarrow> 's \<Rightarrow> 's" and unpin :: "nat \<Rightarrow> 's \<Rightarrow> 's"
  assumes held_data: "inv s \<Longrightarrow> held s b n \<Longrightarrow> data s b = v_cont (view s) n \<and> n < 2 ^ 31 \<and> 0 < v_ref (view s) n"
    and clean_law: "inv s \<Longrightarrow> n < 2 ^ 31 \<Longrightarrow> v_ref (view s) n = 0 \<Longrightarrow> v_cont (view s) n = v_disk (view s) (sector_of n)"
    and rd_law: "inv s \<Longrightarrow> ready (view s) n \<Longrightarrow> returns (rd n s) (\<lambda>b t. inv t \<and> held t b n \<and>
      view t = (view s)\<lparr>v_ref := (v_ref (view s))(n := v_ref (view s) n + 1), v_held := (v_held (view s))(n := True),
        v_spare := v_spare (view s) - (if v_ref (view s) n = 0 then 1 else 0)\<rparr> \<and> (\<forall>k m. held s k m \<longrightarrow> held t k m))"
    and put_law: "inv s \<Longrightarrow> held s b n \<Longrightarrow> inv (put b d s) \<and> held (put b d s) b n \<and>
      view (put b d s) = (view s)\<lparr>v_cont := (v_cont (view s))(n := d)\<rparr> \<and> (\<forall>k m. held s k m \<longrightarrow> m \<noteq> n \<longrightarrow> held (put b d s) k m)"
    and wr_law: "inv s \<Longrightarrow> held s b n \<Longrightarrow> returns (wr b s) (\<lambda>_ t. inv t \<and>
      view t = (view s)\<lparr>v_disk := (v_disk (view s))(sector_of n := v_cont (view s) n),
        v_dwrites := v_dwrites (view s) @ [(sector_of n, v_cont (view s) n)]\<rparr> \<and> (\<forall>k m. held s k m \<longrightarrow> held t k m))"
    and rel_law: "inv s \<Longrightarrow> held s b n \<Longrightarrow>
      (v_ref (view s) n = 1 \<Longrightarrow> v_cont (view s) n = v_disk (view s) (sector_of n)) \<Longrightarrow> returns (rel b s) (\<lambda>_ t. inv t \<and>
      view t = (view s)\<lparr>v_ref := (v_ref (view s))(n := v_ref (view s) n - 1), v_held := (v_held (view s))(n := False),
        v_spare := v_spare (view s) + (if v_ref (view s) n = 1 then 1 else 0)\<rparr> \<and> (\<forall>k m. held s k m \<longrightarrow> m \<noteq> n \<longrightarrow> held t k m))"
    and pin_law: "inv s \<Longrightarrow> held s b n \<Longrightarrow> v_ref (view s) n < 2 ^ 31 \<Longrightarrow> inv (pin b s) \<and> held (pin b s) b n \<and>
      view (pin b s) = (view s)\<lparr>v_ref := (v_ref (view s))(n := v_ref (view s) n + 1)\<rparr> \<and> (\<forall>k m. held s k m \<longrightarrow> m \<noteq> n \<longrightarrow> held (pin b s) k m)"
    and unpin_law: "inv s \<Longrightarrow> held s b n \<Longrightarrow> 1 < v_ref (view s) n \<Longrightarrow> inv (unpin b s) \<and> held (unpin b s) b n \<and>
      view (unpin b s) = (view s)\<lparr>v_ref := (v_ref (view s))(n := v_ref (view s) n - 1)\<rparr> \<and> (\<forall>k m. held s k m \<longrightarrow> m \<noteq> n \<longrightarrow> held (unpin b s) k m)"
begin

text \<open>Reading a block: nothing that a client sees has changed afterwards.\<close>

lemma read_block:
  assumes "inv s" "ready (view s) n"
  shows "returns (bnd (rd n s) (\<lambda>b s. bnd (rel b s) (\<lambda>_ t. Ret (data s b) t))) (\<lambda>x t. inv t \<and> x = v_cont (view s) n \<and> view t = view s)"
proof -
  obtain b t where 1: "rd n s = Ret b t" "inv t" "held t b n"
    "view t = (view s)\<lparr>v_ref := (v_ref (view s))(n := v_ref (view s) n + 1), v_held := (v_held (view s))(n := True),
        v_spare := v_spare (view s) - (if v_ref (view s) n = 0 then 1 else 0)\<rparr>"
    using rd_law [OF assms(1,2)] by (auto simp: returns_iff)
  have "v_cont (view t) n = v_disk (view t) (sector_of n)" if "v_ref (view t) n = 1"
    using that clean_law [OF assms(1)] assms(2) by (simp add: 1(4) ready_def)
  from rel_law [OF 1(2,3) this] obtain u where 2: "rel b t = Ret () u" "inv u"
    "view u = (view t)\<lparr>v_ref := (v_ref (view t))(n := v_ref (view t) n - 1), v_held := (v_held (view t))(n := False),
        v_spare := v_spare (view t) + (if v_ref (view t) n = 1 then 1 else 0)\<rparr>"
    by (auto simp: returns_iff)
  have "view u = view s"
    by (rule bview.equality) (use assms(2) in \<open>auto simp: 2(3) 1(4) ready_def fun_eq_iff\<close>)
  moreover have "data t b = v_cont (view s) n" using held_data [OF 1(2,3)] by (simp add: 1(4))
  ultimately show ?thesis using 1 2 by simp
qed

text \<open>Read, modify, write through.\<close>

lemma write_block:
  assumes "inv s" "ready (view s) n"
  shows "returns (bnd (rd n s) (\<lambda>b s. bnd (wr b (put b (f (data s b)) s)) (\<lambda>_ s. rel b s))) (\<lambda>_ t. inv t \<and>
    view t = (view s)\<lparr>v_cont := (v_cont (view s))(n := f (v_cont (view s) n)),
      v_disk := (v_disk (view s))(sector_of n := f (v_cont (view s) n)),
      v_dwrites := v_dwrites (view s) @ [(sector_of n, f (v_cont (view s) n))]\<rparr>)"
proof -
  obtain b t where 1: "rd n s = Ret b t" "inv t" "held t b n"
    "view t = (view s)\<lparr>v_ref := (v_ref (view s))(n := v_ref (view s) n + 1), v_held := (v_held (view s))(n := True),
        v_spare := v_spare (view s) - (if v_ref (view s) n = 0 then 1 else 0)\<rparr>"
    using rd_law [OF assms] by (auto simp: returns_iff)
  have d: "data t b = v_cont (view s) n" using held_data [OF 1(2,3)] by (simp add: 1(4))
  let ?p = "put b (f (data t b)) t"
  note 2 = put_law [OF 1(2,3), of "f (data t b)"]
  obtain u where 3: "wr b ?p = Ret () u" "inv u" "held u b n"
    "view u = (view ?p)\<lparr>v_disk := (v_disk (view ?p))(sector_of n := v_cont (view ?p) n),
        v_dwrites := v_dwrites (view ?p) @ [(sector_of n, v_cont (view ?p) n)]\<rparr>"
    using wr_law [of ?p b n] 2 by (auto simp: returns_iff)
  have "v_cont (view u) n = v_disk (view u) (sector_of n)" by (simp add: 3(4))
  then obtain w where 4: "rel b u = Ret () w" "inv w"
    "view w = (view u)\<lparr>v_ref := (v_ref (view u))(n := v_ref (view u) n - 1), v_held := (v_held (view u))(n := False),
        v_spare := v_spare (view u) + (if v_ref (view u) n = 1 then 1 else 0)\<rparr>"
    using rel_law [OF 3(2,3)] by (auto simp: returns_iff)
  have "view w = (view s)\<lparr>v_cont := (v_cont (view s))(n := f (v_cont (view s) n)),
      v_disk := (v_disk (view s))(sector_of n := f (v_cont (view s) n)),
      v_dwrites := v_dwrites (view s) @ [(sector_of n, f (v_cont (view s) n))]\<rparr>"
    by (rule bview.equality) (use assms(2) 2 in \<open>auto simp: 4(3) 3(4) 1(4) d ready_def fun_eq_iff\<close>)
  then show ?thesis using 1(1) 3(1) 4 by simp
qed

text \<open>The two copies of the log: a block of the cache to the log, and a block of the log to its home.\<close>

lemma copy_to:
  assumes inv: "inv s" and m: "ready (view s) m" and n: "ready (view s) n" and d: "m \<noteq> n"
    and sp: "0 < v_ref (view s) n"
  shows "returns (bnd (rd m s) (\<lambda>a s. bnd (rd n s) (\<lambda>b s. bnd (wr a (put a (data s b) s)) (\<lambda>_ s.
      bnd (rel b s) (\<lambda>_ s. rel a s))))) (\<lambda>_ t. inv t \<and>
    view t = (view s)\<lparr>v_cont := (v_cont (view s))(m := v_cont (view s) n),
      v_disk := (v_disk (view s))(sector_of m := v_cont (view s) n),
      v_dwrites := v_dwrites (view s) @ [(sector_of m, v_cont (view s) n)]\<rparr>)"
proof -
  obtain a t where 1: "rd m s = Ret a t" "inv t" "held t a m"
    "view t = (view s)\<lparr>v_ref := (v_ref (view s))(m := v_ref (view s) m + 1), v_held := (v_held (view s))(m := True),
        v_spare := v_spare (view s) - (if v_ref (view s) m = 0 then 1 else 0)\<rparr>"
    using rd_law [OF inv m] by (auto simp: returns_iff)
  have "ready (view t) n" using n d sp by (simp add: 1(4) ready_def)
  then obtain b u where 2: "rd n t = Ret b u" "inv u" "held u b n" "held u a m"
    "view u = (view t)\<lparr>v_ref := (v_ref (view t))(n := v_ref (view t) n + 1), v_held := (v_held (view t))(n := True),
        v_spare := v_spare (view t) - (if v_ref (view t) n = 0 then 1 else 0)\<rparr>"
    using rd_law [OF 1(2), of n] 1(3) by (auto simp: returns_iff)
  have x: "data u b = v_cont (view s) n" using held_data [OF 2(2,3)] by (simp add: 2(5) 1(4))
  let ?p = "put a (data u b) u"
  have p: "inv ?p" "held ?p a m" "held ?p b n" "view ?p = (view u)\<lparr>v_cont := (v_cont (view u))(m := data u b)\<rparr>"
    using put_law [OF 2(2,4), of "data u b"] 2(3) d by auto
  obtain w where 3: "wr a ?p = Ret () w" "inv w" "held w a m" "held w b n"
    "view w = (view ?p)\<lparr>v_disk := (v_disk (view ?p))(sector_of m := v_cont (view ?p) m),
        v_dwrites := v_dwrites (view ?p) @ [(sector_of m, v_cont (view ?p) m)]\<rparr>"
    using wr_law [OF p(1,2)] p(2,3) by (auto simp: returns_iff)
  have "v_ref (view w) n \<noteq> 1" using sp d by (simp add: 3(5) p(4) 2(5) 1(4))
  then obtain x where 4: "rel b w = Ret () x" "inv x" "held x a m"
    "view x = (view w)\<lparr>v_ref := (v_ref (view w))(n := v_ref (view w) n - 1), v_held := (v_held (view w))(n := False),
        v_spare := v_spare (view w) + (if v_ref (view w) n = 1 then 1 else 0)\<rparr>"
    using rel_law [OF 3(2,4)] 3(3) d by (auto simp: returns_iff)
  have "v_cont (view x) m = v_disk (view x) (sector_of m)" by (simp add: 4(4) 3(5) p(4))
  then obtain y where 5: "rel a x = Ret () y" "inv y"
    "view y = (view x)\<lparr>v_ref := (v_ref (view x))(m := v_ref (view x) m - 1), v_held := (v_held (view x))(m := False),
        v_spare := v_spare (view x) + (if v_ref (view x) m = 1 then 1 else 0)\<rparr>"
    using rel_law [OF 4(2,3)] by (auto simp: returns_iff)
  have vu: "view u = (view s)\<lparr>v_ref := (v_ref (view s))(m := v_ref (view s) m + 1, n := v_ref (view s) n + 1),
      v_held := (v_held (view s))(m := True, n := True), v_spare := v_spare (view s) - (if v_ref (view s) m = 0 then 1 else 0)\<rparr>"
    using d sp by (simp add: 2(5) 1(4))
  have vp: "view ?p = (view u)\<lparr>v_cont := (v_cont (view s))(m := v_cont (view s) n)\<rparr>" using p(4) x vu by simp
  have vw: "view w = (view u)\<lparr>v_cont := (v_cont (view s))(m := v_cont (view s) n),
      v_disk := (v_disk (view s))(sector_of m := v_cont (view s) n),
      v_dwrites := v_dwrites (view s) @ [(sector_of m, v_cont (view s) n)]\<rparr>"
    unfolding 3(5) vp by (simp add: vu)
  have vx: "view x = (view w)\<lparr>v_ref := (v_ref (view s))(m := v_ref (view s) m + 1),
      v_held := (v_held (view s))(m := True)\<rparr>"
    by (rule bview.equality) (use d sp m n in \<open>simp_all add: 4(4) vw vu ready_def fun_eq_iff\<close>)
  have r: "\<not> v_held (view s) m" "\<not> v_held (view s) n" "v_ref (view s) m = 0 \<Longrightarrow> 0 < v_spare (view s)"
    using m n by (auto simp: ready_def)
  have "view y = (view s)\<lparr>v_cont := (v_cont (view s))(m := v_cont (view s) n),
      v_disk := (v_disk (view s))(sector_of m := v_cont (view s) n),
      v_dwrites := v_dwrites (view s) @ [(sector_of m, v_cont (view s) n)]\<rparr>"
    by (rule bview.equality) (use r in \<open>simp_all add: 5(3) vx vw vu fun_eq_iff\<close>)
  then show ?thesis using 1(1) 2(1) 3(1) 4(1) 5 by simp
qed

lemma copy_home:
  assumes inv: "inv s" and m: "ready (view s) m" and n: "ready (view s) n" and d: "m \<noteq> n"
    and sp: "if un then 0 < v_ref (view s) n else 0 < v_ref (view s) n \<or> 1 < v_spare (view s)"
  shows "returns (bnd (rd m s) (\<lambda>a s. bnd (rd n s) (\<lambda>b s. bnd (wr b (put b (data s a) s)) (\<lambda>_ s.
      bnd (rel a (if un then unpin b s else s)) (\<lambda>_ s. rel b s))))) (\<lambda>_ t. inv t \<and>
    view t = (view s)\<lparr>v_cont := (v_cont (view s))(n := v_cont (view s) m),
      v_disk := (v_disk (view s))(sector_of n := v_cont (view s) m),
      v_dwrites := v_dwrites (view s) @ [(sector_of n, v_cont (view s) m)],
      v_ref := (v_ref (view s))(n := if un then v_ref (view s) n - 1 else v_ref (view s) n),
      v_spare := v_spare (view s) + (if un \<and> v_ref (view s) n = 1 then 1 else 0)\<rparr>)"
proof -
  obtain a t where 1: "rd m s = Ret a t" "inv t" "held t a m"
    "view t = (view s)\<lparr>v_ref := (v_ref (view s))(m := v_ref (view s) m + 1), v_held := (v_held (view s))(m := True),
        v_spare := v_spare (view s) - (if v_ref (view s) m = 0 then 1 else 0)\<rparr>"
    using rd_law [OF inv m] by (auto simp: returns_iff)
  have "ready (view t) n" using n d sp by (auto simp: 1(4) ready_def split: if_splits)
  then obtain b u where 2: "rd n t = Ret b u" "inv u" "held u b n" "held u a m"
    "view u = (view t)\<lparr>v_ref := (v_ref (view t))(n := v_ref (view t) n + 1), v_held := (v_held (view t))(n := True),
        v_spare := v_spare (view t) - (if v_ref (view t) n = 0 then 1 else 0)\<rparr>"
    using rd_law [OF 1(2), of n] 1(3) by (auto simp: returns_iff)
  have x: "data u a = v_cont (view s) m" using held_data [OF 2(2,4)] by (simp add: 2(5) 1(4))
  let ?p = "put b (data u a) u"
  have p: "inv ?p" "held ?p a m" "held ?p b n" "view ?p = (view u)\<lparr>v_cont := (v_cont (view u))(n := data u a)\<rparr>"
    using put_law [OF 2(2,3), of "data u a"] 2(4) d by auto
  obtain w' where 3: "wr b ?p = Ret () w'" "inv w'" "held w' a m" "held w' b n"
    "view w' = (view ?p)\<lparr>v_disk := (v_disk (view ?p))(sector_of n := v_cont (view ?p) n),
        v_dwrites := v_dwrites (view ?p) @ [(sector_of n, v_cont (view ?p) n)]\<rparr>"
    using wr_law [OF p(1,3)] p(2,3) by (auto simp: returns_iff)
  define w where "w = (if un then unpin b w' else w')"
  have "1 < v_ref (view w') n" if un using that sp d by (simp add: 3(5) p(4) 2(5) 1(4))
  then have 6: "inv w" "held w a m" "held w b n"
    "view w = (view w')\<lparr>v_ref := (v_ref (view w'))(n := v_ref (view w') n - (if un then 1 else 0))\<rparr>"
    using unpin_law [OF 3(2,4)] 3 d by (auto simp: w_def)
  have nm: "sector_of n \<noteq> sector_of m" using sector_of_inj [of n m] m n d by (auto simp: ready_def)
  have "v_cont (view w) m = v_disk (view w) (sector_of m)" if "v_ref (view w) m = 1"
    using that d nm clean_law [OF inv, of m] m by (simp add: 6(4) 3(5) p(4) 2(5) 1(4) ready_def)
  then obtain x where 4: "rel a w = Ret () x" "inv x" "held x b n"
    "view x = (view w)\<lparr>v_ref := (v_ref (view w))(m := v_ref (view w) m - 1), v_held := (v_held (view w))(m := False),
        v_spare := v_spare (view w) + (if v_ref (view w) m = 1 then 1 else 0)\<rparr>"
    using rel_law [OF 6(1,2)] 6(3) d by (auto simp: returns_iff)
  have "v_cont (view x) n = v_disk (view x) (sector_of n)" by (simp add: 4(4) 6(4) 3(5) p(4))
  then obtain y where 5: "rel b x = Ret () y" "inv y"
    "view y = (view x)\<lparr>v_ref := (v_ref (view x))(n := v_ref (view x) n - 1), v_held := (v_held (view x))(n := False),
        v_spare := v_spare (view x) + (if v_ref (view x) n = 1 then 1 else 0)\<rparr>"
    using rel_law [OF 4(2,3)] by (auto simp: returns_iff)
  have r: "\<not> v_held (view s) m" "\<not> v_held (view s) n" "v_ref (view s) m = 0 \<Longrightarrow> 0 < v_spare (view s)"
    using m n by (auto simp: ready_def)
  have sp': "v_ref (view s) n = 0 \<Longrightarrow> \<not> un \<and> 1 < v_spare (view s)" using sp by (auto split: if_splits)
  have vu: "view u = (view s)\<lparr>v_ref := (v_ref (view s))(m := v_ref (view s) m + 1, n := v_ref (view s) n + 1),
      v_held := (v_held (view s))(m := True, n := True), v_spare := v_spare (view s) - (if v_ref (view s) m = 0 then 1 else 0)
        - (if v_ref (view s) n = 0 then 1 else 0)\<rparr>"
    using d by (simp add: 2(5) 1(4))
  have vp: "view ?p = (view u)\<lparr>v_cont := (v_cont (view s))(n := v_cont (view s) m)\<rparr>" using p(4) x vu by simp
  have vw': "view w' = (view u)\<lparr>v_cont := (v_cont (view s))(n := v_cont (view s) m),
      v_disk := (v_disk (view s))(sector_of n := v_cont (view s) m),
      v_dwrites := v_dwrites (view s) @ [(sector_of n, v_cont (view s) m)]\<rparr>"
    unfolding 3(5) vp by (simp add: vu)
  have vx: "view x = (view w')\<lparr>v_ref := (v_ref (view s))(n := v_ref (view s) n + 1 - (if un then 1 else 0)),
      v_held := (v_held (view s))(n := True), v_spare := v_spare (view s) - (if v_ref (view s) n = 0 then 1 else 0)\<rparr>"
    by (rule bview.equality) (use r d sp' in \<open>auto simp: 4(4) 6(4) vw' vu fun_eq_iff\<close>)
  have "view y = (view s)\<lparr>v_cont := (v_cont (view s))(n := v_cont (view s) m),
      v_disk := (v_disk (view s))(sector_of n := v_cont (view s) m),
      v_dwrites := v_dwrites (view s) @ [(sector_of n, v_cont (view s) m)],
      v_ref := (v_ref (view s))(n := if un then v_ref (view s) n - 1 else v_ref (view s) n),
      v_spare := v_spare (view s) + (if un \<and> v_ref (view s) n = 1 then 1 else 0)\<rparr>"
    by (rule bview.equality) (use r sp' in \<open>auto simp: 5(3) vx vw' vu fun_eq_iff\<close>)
  then show ?thesis using 1(1) 2(1) 3(1) 4(1) 5 by (simp add: w_def)
qed

end

interpretation bio: block_store binv bview at "\<lambda>s b. b_data (bufs s ! b)" "bread ROOTDEV"
    "\<lambda>b d. upd_buf b (\<lambda>x. x\<lparr>b_data := d\<rparr>)" bwrite brelse bpin bunpin
proof (unfold_locales, goal_cases)
  case (1 s b n)
  then show ?case using at_view at_slot by metis
next
  case (2 s n)
  then show ?case by (rule unreferenced_clean)
next
  case (3 s n)
  then have "returns (bread ROOTDEV n s) (\<lambda>b t. binv t \<and> at t b n \<and> b_data (bufs t ! b) = v_cont (bview s) n \<and>
      bview t = (bview s)\<lparr>v_ref := (v_ref (bview s))(n := v_ref (bview s) n + 1), v_held := (v_held (bview s))(n := True),
        v_spare := v_spare (bview s) - (if v_ref (bview s) n = 0 then 1 else 0)\<rparr> \<and>
      (\<forall>k m. at s k m \<longrightarrow> at t k m \<and> bufs t ! k = bufs s ! k))"
    by (intro bread_spec) (auto simp: ready_def bview_def)
  then show ?case by (rule returns_mono) auto
next
  case (4 s b n d)
  then show ?case using set_data_spec [of s b n d] by simp
next
  case (5 s b n)
  from bwrite_spec [OF this] show ?case by (rule returns_mono) auto
next
  case (6 s b n)
  from brelse_spec [OF this] show ?case by (rule returns_mono) auto
next
  case (7 s b n)
  then show ?case using bpin_spec [of s b n] by simp
next
  case (8 s b n)
  then show ?case using bunpin_spec [of s b n] by simp
qed

section \<open>The cache implements a block store\<close>

lemma binv_binit:
  assumes len: "length (bufs s) = Suc NBUF"
    and z: "\<And>i. i < NBUF \<Longrightarrow> b_dev (bufs s ! i) = 0 \<and> \<not> b_valid (bufs s ! i) \<and> b_refcnt (bufs s ! i) = 0"
  shows "binv (binit s) \<and> v_spare (bview (binit s)) = NBUF \<and> v_ref (bview (binit s)) = (\<lambda>_. 0) \<and>
    v_held (bview (binit s)) = (\<lambda>_. False) \<and> v_cont (bview (binit s)) = (\<lambda>n. if n < 2 ^ 31 then disk s (sector_of n) else [])"
proof -
  note ok = binit_ok [OF len]
  note f = core_eqD [OF ok(2)]
  have dk: "disk (binit s) = disk s" by (subst ok(3)) simp
  have nc: "\<not> caches (binit s) i n" for i n using z f by (auto simp: caches_def params)
  have inv: "binv (binit s)"
    using ok(1) z f nc by (auto simp: binv_def buf_ok_def clean_def initsleeplock_def params)
  moreover have "slot_of (binit s) n = None" for n using inv nc by (simp add: slot_of_None)
  moreover have "{i. i < NBUF \<and> b_refcnt (bufs (binit s) ! i) = 0} = {..<NBUF}" using z f by auto
  ultimately show ?thesis by (simp add: bview_def bcontent_def dk fun_eq_iff)
qed

text \<open>
  A client that reads and overwrites whole blocks, and the store it should see: an array of
  blocks.
\<close>

datatype breq = Rd u32 | Wr u32 "u8 list"

fun serve :: "breq list \<Rightarrow> 'a bstate_scheme \<Rightarrow> (u8 list list, 'a bstate_scheme) run" where
  "serve [] s = Ret [] s"
| "serve (Rd n # rs) s =
     bnd (bnd (bread ROOTDEV n s) (\<lambda>b s. bnd (brelse b s) (\<lambda>_ t. Ret (b_data (bufs s ! b)) t))) (\<lambda>x s.
       bnd (serve rs s) (\<lambda>out s. Ret (x # out) s))"
| "serve (Wr n d # rs) s =
     bnd (bnd (bread ROOTDEV n s) (\<lambda>b s. bnd (bwrite b (upd_buf b (\<lambda>x. x\<lparr>b_data := d\<rparr>) s)) (\<lambda>_ s. brelse b s))) (\<lambda>_ s.
       serve rs s)"

fun store :: "breq list \<Rightarrow> (u32 \<Rightarrow> u8 list) \<Rightarrow> u8 list list \<times> (u32 \<Rightarrow> u8 list)" where
  "store [] a = ([], a)"
| "store (Rd n # rs) a = (let (out, a') = store rs a in (a n # out, a'))"
| "store (Wr n d # rs) a = store rs (a(n := d))"

primrec req_block :: "breq \<Rightarrow> u32" where
  "req_block (Rd n) = n"
| "req_block (Wr n d) = n"

lemma serve_store:
  assumes "binv s" "\<And>n. n < 2 ^ 31 \<Longrightarrow> ready (bview s) n" "\<forall>r \<in> set rs. req_block r < 2 ^ 31"
  shows "returns (serve rs s) (\<lambda>out t. binv t \<and> (out, v_cont (bview t)) = store rs (v_cont (bview s)))"
  using assms
proof (induction rs arbitrary: s)
  case Nil
  then show ?case by simp
next
  case (Cons r rs)
  show ?case
  proof (cases r)
    case (Rd n)
    then have "ready (bview s) n" using Cons.prems by simp
    from bio.read_block [OF Cons.prems(1) this] obtain t where
      t: "bnd (bread ROOTDEV n s) (\<lambda>b s. bnd (brelse b s) (\<lambda>_ t. Ret (b_data (bufs s ! b)) t)) = Ret (v_cont (bview s) n) t"
        "binv t" "bview t = bview s" by (auto simp: returns_iff)
    then have "returns (serve rs t) (\<lambda>out u. binv u \<and> (out, v_cont (bview u)) = store rs (v_cont (bview t)))"
      by (intro Cons.IH) (use t Cons.prems in auto)
    then show ?thesis using t(3) by (simp add: Rd t(1) del: returns_bnd) (auto simp: returns_iff split: prod.splits)
  next
    case (Wr n d)
    then have "ready (bview s) n" using Cons.prems by simp
    from bio.write_block [OF Cons.prems(1) this, of "\<lambda>_. d"] obtain t where
      t: "bnd (bread ROOTDEV n s) (\<lambda>b s. bnd (bwrite b (upd_buf b (\<lambda>x. x\<lparr>b_data := d\<rparr>) s)) (\<lambda>_ s. brelse b s)) = Ret () t"
        "binv t" "bview t = (bview s)\<lparr>v_cont := (v_cont (bview s))(n := d),
          v_disk := (v_disk (bview s))(sector_of n := d), v_dwrites := v_dwrites (bview s) @ [(sector_of n, d)]\<rparr>"
      by (auto simp: returns_iff)
    then have "returns (serve rs t) (\<lambda>out u. binv u \<and> (out, v_cont (bview u)) = store rs (v_cont (bview t)))"
      by (intro Cons.IH) (use t(2) Cons.prems in \<open>auto simp: t(3) ready_def\<close>)
    then show ?thesis using t(3) by (simp add: Wr t(1))
  qed
qed

text \<open>A machine right after \<open>binit\<close>, with process 1 running.\<close>

definition demo_bstate0 :: bstate where
  "demo_bstate0 = pstate.extend demo_pstate (bstate.fields (replicate (Suc NBUF) \<lparr>b_valid = False, b_disk = False, b_dev = 0,
      b_blockno = 0, b_lock = initsleeplock, b_refcnt = 0, b_prev = 0, b_next = 0, b_data = replicate BSIZE 0\<rparr>)
      (\<lambda>_. replicate BSIZE 0) [])"

lemma demo_bstate0_fields:
  "bufs demo_bstate0 = replicate (Suc NBUF) \<lparr>b_valid = False, b_disk = False, b_dev = 0,
      b_blockno = 0, b_lock = initsleeplock, b_refcnt = 0, b_prev = 0, b_next = 0, b_data = replicate BSIZE 0\<rparr>"
  "disk demo_bstate0 = (\<lambda>_. replicate BSIZE 0)" "dwrites demo_bstate0 = []" "who demo_bstate0 = Some 2"
  by (simp_all add: demo_bstate0_def pstate.defs bstate.defs demo_pstate_def who_def myproc_def demo_proc_def)

lemma demo_bstate:
  "binv (binit demo_bstate0)" "n < 2 ^ 31 \<Longrightarrow> ready (bview (binit demo_bstate0)) n"
  "v_cont (bview (binit demo_bstate0)) = (\<lambda>n. if n < 2 ^ 31 then replicate BSIZE 0 else [])"
  "v_ref (bview (binit demo_bstate0)) = (\<lambda>_. 0)"
proof -
  have len: "length (bufs demo_bstate0) = Suc NBUF" by (simp add: demo_bstate0_fields)
  have z: "b_dev (bufs demo_bstate0 ! i) = 0 \<and> \<not> b_valid (bufs demo_bstate0 ! i) \<and> b_refcnt (bufs demo_bstate0 ! i) = 0" if "i < NBUF" for i
    using that by (simp add: demo_bstate0_fields nth_append del: replicate_Suc)
  note b = binv_binit [OF len z]
  have "who (binit demo_bstate0) = Some 2"
    by (subst binit_ok(3) [OF len]) (simp add: demo_bstate0_fields)
  then show "n < 2 ^ 31 \<Longrightarrow> ready (bview (binit demo_bstate0)) n"
    using b by (simp add: ready_def params bview_def [of "binit demo_bstate0"])
  show "binv (binit demo_bstate0)" "v_cont (bview (binit demo_bstate0)) = (\<lambda>n. if n < 2 ^ 31 then replicate BSIZE 0 else [])"
    "v_ref (bview (binit demo_bstate0)) = (\<lambda>_. 0)"
    using b by (simp_all add: demo_bstate0_fields cong: if_cong)
qed

text \<open>
  C4. The buffer cache is a store of disk blocks (kernel/bio.c): from any state that satisfies the
  cache invariant with a spare buffer and no buffer locked, every sequence of whole-block reads and
  writes through \<open>bread\<close>, \<open>bwrite\<close> and \<open>brelse\<close> returns (it does not sleep or panic), each read
  yields the block last written to that number, and the invariant holds again; recycling of buffers
  is not visible.
\<close>

theorem bcache_is_a_block_store:
  assumes "binv s" and "\<And>n. n < 2 ^ 31 \<Longrightarrow> ready (bview s) n" and "\<forall>r \<in> set rs. req_block r < 2 ^ 31"
  shows "returns (serve rs s) (\<lambda>out t. binv t \<and> (out, v_cont (bview t)) = store rs (v_cont (bview s)))"
  using assms by (rule serve_store)

theorem bcache_is_a_block_store_witness:
  "returns (serve [Wr 7 [1], Rd 9, Rd 7] (binit demo_bstate0)) (\<lambda>out t. out = [replicate BSIZE 0, [1]])"
proof -
  have "\<forall>r \<in> set [Wr 7 [1], Rd 9, Rd 7]. req_block r < 2 ^ 31" by simp
  from bcache_is_a_block_store [OF demo_bstate(1,2) this] show ?thesis
    by (rule returns_mono) (auto simp: demo_bstate(3))
qed

section \<open>Recycling is least recently used\<close>

lemma find_last: "P b \<Longrightarrow> (\<And>i. i \<in> set vs \<Longrightarrow> \<not> P i) \<Longrightarrow> find P (rev (us @ b # vs)) = Some b"
proof -
  assume "P b" "\<And>i. i \<in> set vs \<Longrightarrow> \<not> P i"
  then have "find P (rev vs @ b # ys) = Some b" for ys by (induction vs rule: rev_induct) auto
  then show ?thesis by simp
qed

lemma bget_lru:
  assumes inv: "binv s" and d: "dll (bufs s) xs" and me: "myproc s = Some me"
    and xs: "xs = us @ b # vs" and b: "b_refcnt (bufs s ! b) = 0" and vs: "\<forall>i \<in> set vs. b_refcnt (bufs s ! i) \<noteq> 0"
    and nc: "\<forall>i. \<not> caches s i n"
  shows "returns (bget ROOTDEV n s) (\<lambda>c t. c = b \<and> dll (bufs t) xs)"
proof -
  have "b < NBUF" using d xs by (auto simp: dll_def)
  then have ul: "\<not> sl_locked (b_lock (bufs s ! b))" using inv b by (auto simp: binv_def buf_ok_def clean_def)
  have "find (\<lambda>i. b_dev (bufs s ! i) = ROOTDEV \<and> b_blockno (bufs s ! i) = n) xs = None"
    using nc d by (auto simp: find_None_iff caches_def dll_def)
  moreover have "find (\<lambda>i. b_refcnt (bufs s ! i) = 0) (rev xs) = Some b"
    unfolding xs by (rule find_last) (use b vs in auto)
  ultimately have "bget_choice (bufs s) xs ROOTDEV n = Some b" by (simp add: bget_choice_def)
  from bget_ok [OF d me this ul] show "returns (bget ROOTDEV n s) (\<lambda>c t. c = b \<and> dll (bufs t) xs)"
    using dll_upd [OF d] by (auto simp: upd_buf_def)
qed

lemma brelse_front:
  assumes inv: "binv s" and d: "dll (bufs s) xs" and at: "at s b m" and r: "b_refcnt (bufs s ! b) = 1"
  shows "returns (brelse b s) (\<lambda>_ t. dll (bufs t) (b # remove1 b xs))"
proof -
  obtain t y where t: "brelse b s = Ret () t"
    "y = (bufs s ! b)\<lparr>b_lock := \<lparr>sl_locked = False, sl_pid = 0\<rparr>, b_refcnt := b_refcnt (bufs s ! b) - 1\<rparr>"
    "dll (bufs t) (if b_refcnt y = 0 then b # remove1 b xs else xs)"
    by (rule brelse_state [OF inv at d])
  then show "returns (brelse b s) (\<lambda>_ t. dll (bufs t) (b # remove1 b xs))" using r by simp
qed

text \<open>
  C12. Buffers are recycled in least-recently-used order (kernel/bio.c). The list \<open>xs\<close> of the cache
  runs from the most to the least recently released buffer: \<open>bget\<close> of a block that is not cached
  takes the unused buffer nearest the end of the list and leaves the order alone, and \<open>brelse\<close> of
  the last reference to a buffer moves exactly that buffer to the front.
\<close>

theorem bcache_lru:
  assumes "binv s" and "dll (bufs s) xs" and "myproc s = Some me"
  shows "(\<forall>us b vs n. xs = us @ b # vs \<longrightarrow> b_refcnt (bufs s ! b) = 0 \<longrightarrow> (\<forall>i \<in> set vs. b_refcnt (bufs s ! i) \<noteq> 0) \<longrightarrow>
        (\<forall>i. \<not> caches s i n) \<longrightarrow> returns (bget ROOTDEV n s) (\<lambda>c t. c = b \<and> dll (bufs t) xs)) \<and>
    (\<forall>b m. at s b m \<longrightarrow> b_refcnt (bufs s ! b) = 1 \<longrightarrow> returns (brelse b s) (\<lambda>_ t. dll (bufs t) (b # remove1 b xs)))"
  using bget_lru [OF assms] brelse_front [OF assms(1,2)] by blast

text \<open>After \<open>binit\<close> the last buffer of the list is number 0; releasing it brings it to the front.\<close>

theorem bcache_lru_witness:
  "returns (bget ROOTDEV 5 (binit demo_bstate0)) (\<lambda>c t. c = 0) \<and>
   returns (bread ROOTDEV 5 (binit demo_bstate0)) (\<lambda>b t. returns (brelse b t) (\<lambda>_ u. \<exists>ys. dll (bufs u) (b # ys)))"
proof
  let ?s = "binit demo_bstate0"
  have len: "length (bufs demo_bstate0) = Suc NBUF" by (simp add: demo_bstate0_fields)
  have d: "dll (bufs ?s) (rev [1..<NBUF] @ 0 # [])" using binit_ok(1) [OF len] by (simp add: params upt_rec)
  have w: "who ?s = Some 2" by (subst binit_ok(3) [OF len]) (simp add: demo_bstate0_fields)
  then obtain me where me: "myproc ?s = Some me" by (auto simp: who_Some)
  have "core (bufs ?s ! i) = core ((bufs demo_bstate0 ! i)\<lparr>b_lock := initsleeplock\<rparr>)" if "i < NBUF" for i
    using binit_ok(2) [OF len that] .
  note f = core_eqD [OF this]
  have z: "b_refcnt (bufs ?s ! 0) = 0" using f(5) [of 0] by (simp add: demo_bstate0_fields params)
  have nc: "\<forall>i. \<not> caches ?s i 5"
    using f(2) by (auto simp: caches_def demo_bstate0_fields params nth_append simp del: replicate_Suc)
  show "returns (bget ROOTDEV 5 ?s) (\<lambda>c t. c = 0)"
    using conjunct1 [OF bcache_lru [OF demo_bstate(1) d me], rule_format, of _ 0 "[]" 5] z nc by (auto elim: returns_mono)
  have "returns (bread ROOTDEV 5 ?s) (\<lambda>b t. binv t \<and> at t b 5 \<and> b_refcnt (bufs t ! b) = 1 \<and> who t = Some 2)"
  proof (rule returns_mono [OF bio.rd_law [OF demo_bstate(1,2)]])
    fix b t assume t: "binv t \<and> at t b 5 \<and> bview t = (bview ?s)\<lparr>v_ref := (v_ref (bview ?s))(5 := v_ref (bview ?s) 5 + 1),
      v_held := (v_held (bview ?s))(5 := True), v_spare := v_spare (bview ?s) - (if v_ref (bview ?s) 5 = 0 then 1 else 0)\<rparr> \<and>
      (\<forall>k m. at ?s k m \<longrightarrow> at t k m)"
    then have "unat (b_refcnt (bufs t ! b)) = 1" using at_view [of t b 5] by (simp add: demo_bstate(4))
    moreover have "v_who (bview t) = v_who (bview ?s)" using t by simp
    then have "who t = Some 2" using w by (simp add: bview_def)
    ultimately show "binv t \<and> at t b 5 \<and> b_refcnt (bufs t ! b) = 1 \<and> who t = Some 2" using t by (simp add: word_unat_eq_iff)
  qed simp
  then show "returns (bread ROOTDEV 5 ?s) (\<lambda>b t. returns (brelse b t) (\<lambda>_ u. \<exists>ys. dll (bufs u) (b # ys)))"
  proof (rule returns_mono)
    fix b t assume t: "binv t \<and> at t b 5 \<and> b_refcnt (bufs t ! b) = 1 \<and> who t = Some 2"
    then obtain xs me where "dll (bufs t) xs" "myproc t = Some me" by (auto simp: binv_def who_Some)
    from conjunct2 [OF bcache_lru [OF _ this]] t show "returns (brelse b t) (\<lambda>_ u. \<exists>ys. dll (bufs u) (b # ys))"
      by (auto elim!: returns_mono)
  qed
qed

end
