(* ===== verification/Log.thy ===== *)
theory Log
  imports Bcache Bytes
begin

text \<open>
  The log (kernel/log.c): the reservation of log space by \<open>begin_op\<close>, the recording of blocks by
  \<open>log_write\<close>, the commit, and the recovery at boot. \<open>begin_op\<close> is one round of its loop; where it
  sleeps, the woken process runs it again. An \<open>int\<close> is kept as a 32-bit word and compared signed.
\<close>

section \<open>The state of the log\<close>

record lstate = bstate +
  lg_start :: u32
  lg_size :: u32
  lg_outstanding :: u32
  lg_committing :: bool
  lg_dev :: u32
  lg_n :: u32
  lg_block :: "u32 list"

text \<open>The number of rounds of \<open>for (i = 0; i < n; i++)\<close> with an \<open>int\<close> bound.\<close>

definition int_count :: "u32 \<Rightarrow> nat" where
  "int_count n = nat (sint n)"

section \<open>Recovery and commit\<close>

definition install_trans_step :: "bool \<Rightarrow> nat \<Rightarrow> 'a lstate_scheme \<Rightarrow> (unit, 'a lstate_scheme) run" where
  "install_trans_step recovering tail s =
     bnd (bread (lg_dev s) (lg_start s + of_nat tail + 1) s) (\<lambda>lbuf s.
     index (lg_block s) tail (\<lambda>home.
     bnd (bread (lg_dev s) home s) (\<lambda>dbuf s.
     bnd (bwrite dbuf (upd_buf dbuf (\<lambda>x. x\<lparr>b_data := b_data (bufs s ! lbuf)\<rparr>) s)) (\<lambda>_ s.
     bnd (brelse lbuf (if \<not> recovering then bunpin dbuf s else s)) (\<lambda>_ s.
     brelse dbuf s)))))"

definition install_trans :: "bool \<Rightarrow> 'a lstate_scheme \<Rightarrow> (unit, 'a lstate_scheme) run" where
  "install_trans recovering s = each (install_trans_step recovering) [0..<int_count (lg_n s)] s"

text \<open>The loop of \<open>read_head\<close> stores into \<open>log.lh.block\<close>, which has \<open>LOGSIZE\<close> entries.\<close>

definition read_head :: "'a lstate_scheme \<Rightarrow> (unit, 'a lstate_scheme) run" where
  "read_head s =
     bnd (bread (lg_dev s) (lg_start s) s) (\<lambda>b s.
       let lh = b_data (bufs s ! b);
           n = get32 0 lh
       in if LOGSIZE < int_count n then Undef
          else brelse b (s\<lparr>lg_n := n,
                 lg_block := map (\<lambda>i. get32 (4 + 4 * i) lh) [0..<int_count n] @ drop (int_count n) (lg_block s)\<rparr>))"

definition fill_head :: "u32 \<Rightarrow> u32 list \<Rightarrow> u8 list \<Rightarrow> u8 list" where
  "fill_head n block hb =
     fold (\<lambda>i hb. put32 (4 + 4 * i) (block ! i) hb) [0..<int_count n] (put32 0 n hb)"

definition write_head :: "'a lstate_scheme \<Rightarrow> (unit, 'a lstate_scheme) run" where
  "write_head s =
     bnd (bread (lg_dev s) (lg_start s) s) (\<lambda>b s.
       if length (lg_block s) < int_count (lg_n s) then Undef
       else bnd (bwrite b (upd_buf b (\<lambda>x. x\<lparr>b_data := fill_head (lg_n s) (lg_block s) (b_data (bufs s ! b))\<rparr>) s)) (\<lambda>_ s.
         brelse b s))"

definition recover_from_log :: "'a lstate_scheme \<Rightarrow> (unit, 'a lstate_scheme) run" where
  "recover_from_log s =
     bnd (read_head s) (\<lambda>_ s.
     bnd (install_trans True s) (\<lambda>_ s.
     write_head (s\<lparr>lg_n := 0\<rparr>)))"

definition initlog :: "u32 \<Rightarrow> u32 \<Rightarrow> u32 \<Rightarrow> 'a lstate_scheme \<Rightarrow> (unit, 'a lstate_scheme) run" where
  "initlog dev sb_logstart sb_nlog s =
     (if BSIZE \<le> 4 + 4 * LOGSIZE then Panic ''initlog: too big logheader''
      else recover_from_log (s\<lparr>lg_start := sb_logstart, lg_size := sb_nlog, lg_dev := dev\<rparr>))"

definition write_log_step :: "nat \<Rightarrow> 'a lstate_scheme \<Rightarrow> (unit, 'a lstate_scheme) run" where
  "write_log_step tail s =
     bnd (bread (lg_dev s) (lg_start s + of_nat tail + 1) s) (\<lambda>to s.
     index (lg_block s) tail (\<lambda>home.
     bnd (bread (lg_dev s) home s) (\<lambda>from s.
     bnd (bwrite to (upd_buf to (\<lambda>x. x\<lparr>b_data := b_data (bufs s ! from)\<rparr>) s)) (\<lambda>_ s.
     bnd (brelse from s) (\<lambda>_ s.
     brelse to s)))))"

definition write_log :: "'a lstate_scheme \<Rightarrow> (unit, 'a lstate_scheme) run" where
  "write_log s = each write_log_step [0..<int_count (lg_n s)] s"

definition commit :: "'a lstate_scheme \<Rightarrow> (unit, 'a lstate_scheme) run" where
  "commit s =
     (if 0 <s lg_n s
      then bnd (write_log s) (\<lambda>_ s.
           bnd (write_head s) (\<lambda>_ s.
           bnd (install_trans False s) (\<lambda>_ s.
           write_head (s\<lparr>lg_n := 0\<rparr>))))
      else Ret () s)"

section \<open>Operations\<close>

definition begin_op :: "'a lstate_scheme \<Rightarrow> (unit, 'a lstate_scheme) run" where
  "begin_op s =
     (if lg_committing s then sleep ChLog s
      else if of_nat LOGSIZE <s lg_n s + (lg_outstanding s + 1) * of_nat MAXOPBLOCKS then sleep ChLog s
      else Ret () (s\<lparr>lg_outstanding := lg_outstanding s + 1\<rparr>))"

text \<open>\<open>end_op\<close> holds the log's lock in two stretches; the commit runs between them.\<close>

definition end_op_enter :: "'a lstate_scheme \<Rightarrow> (bool, 'a lstate_scheme) run" where
  "end_op_enter s =
     (let s = s\<lparr>lg_outstanding := lg_outstanding s - 1\<rparr>
      in if lg_committing s then Panic ''log.committing''
         else if lg_outstanding s = 0 then Ret True (s\<lparr>lg_committing := True\<rparr>)
         else Ret False (wakeup (Some ChLog) s))"

definition end_op :: "'a lstate_scheme \<Rightarrow> (unit, 'a lstate_scheme) run" where
  "end_op s =
     bnd (end_op_enter s) (\<lambda>do_commit s.
       if do_commit
       then bnd (commit s) (\<lambda>_ s. Ret () (wakeup (Some ChLog) (s\<lparr>lg_committing := False\<rparr>)))
       else Ret () s)"

definition log_write :: "nat \<Rightarrow> 'a lstate_scheme \<Rightarrow> (unit, 'a lstate_scheme) run" where
  "log_write b s =
     (if of_nat LOGSIZE \<le>s lg_n s \<or> lg_size s - 1 \<le>s lg_n s then Panic ''too big a transaction''
      else if lg_outstanding s <s 1 then Panic ''log_write outside of trans''
      else
        let n = int_count (lg_n s);
            i = (case first_slot (\<lambda>x. x = b_blockno (bufs s ! b)) (take n (lg_block s)) of Some i \<Rightarrow> i | None \<Rightarrow> n);
            s = s\<lparr>lg_block := (lg_block s)[i := b_blockno (bufs s ! b)]\<rparr>
        in Ret () (if i = n then (bpin b s)\<lparr>lg_n := lg_n s + 1\<rparr> else s))"

end
