(* ===== verification/Recovery.thy ===== *)
theory Recovery
  imports Log
begin

text \<open>
  Commit and recovery of the log (kernel/log.c). A commit is a fixed sequence of disk writes; a
  crash leaves the disk after some prefix of it. The lemmas follow \<open>commit\<close> and
  \<open>recover_from_log\<close> through the interface of the buffer cache, and the main theorem is that
  recovery after a crash at any point yields all of the transaction or none of it.
\<close>

section \<open>Writes through the cache\<close>

definition wr_v :: "u32 \<times> u8 list \<Rightarrow> 'r bview \<Rightarrow> 'r bview" where
  "wr_v w v = (case w of (n, x) \<Rightarrow> v\<lparr>v_cont := (v_cont v)(n := x), v_disk := (v_disk v)(sector_of n := x),
      v_dwrites := v_dwrites v @ [(sector_of n, x)]\<rparr>)"

definition wrs :: "(u32 \<times> u8 list) list \<Rightarrow> 'r bview \<Rightarrow> 'r bview" where
  "wrs ws v = fold wr_v ws v"

text \<open>A store (of sectors or of blocks) after a sequence of writes.\<close>

definition replay :: "('k \<times> u8 list) list \<Rightarrow> ('k \<Rightarrow> u8 list) \<Rightarrow> ('k \<Rightarrow> u8 list)" where
  "replay ws d = fold (\<lambda>(a, x) d. d(a := x)) ws d"

definition sectors :: "(u32 \<times> u8 list) list \<Rightarrow> (u64 \<times> u8 list) list" where
  "sectors ws = map (\<lambda>(n, x). (sector_of n, x)) ws"

lemma wrs_append: "wrs (xs @ ys) v = wrs ys (wrs xs v)"
  by (simp add: wrs_def)

lemma wrs_simps [simp]: "wrs [] v = v" "wrs (w # ws) v = wrs ws (wr_v w v)"
  by (simp_all add: wrs_def)

lemma replay_append: "replay (xs @ ys) d = replay ys (replay xs d)"
  by (simp add: replay_def)

lemma replay_simps [simp]: "replay [] d = d" "replay ((a, x) # ws) d = replay ws (d(a := x))"
  by (simp_all add: replay_def)

lemma replay_other: "a \<notin> fst ` set ws \<Longrightarrow> replay ws d a = d a"
  by (induction ws arbitrary: d) auto

lemma replay_in: "(a, x) \<in> set ws \<Longrightarrow> distinct (map fst ws) \<Longrightarrow> replay ws d a = x"
proof (induction ws arbitrary: d)
  case (Cons w ws)
  obtain b y where w: "w = (b, y)" by (cases w)
  show ?case
  proof (cases "(a, x) = w")
    case True
    then have "a \<notin> fst ` set ws" using Cons.prems(2) w by auto
    then show ?thesis using True w by (simp add: replay_other)
  next
    case False
    then show ?thesis using Cons w by auto
  qed
qed simp

lemma sectors_simps [simp]: "sectors [] = []" "sectors ((n, x) # ws) = (sector_of n, x) # sectors ws"
  "sectors (ws @ vs) = sectors ws @ sectors vs" "length (sectors ws) = length ws"
  by (simp_all add: sectors_def)

lemma wrs_fields [simp]:
  "v_disk (wrs ws v) = replay (sectors ws) (v_disk v)" "v_dwrites (wrs ws v) = v_dwrites v @ sectors ws"
  "v_ref (wrs ws v) = v_ref v" "v_held (wrs ws v) = v_held v" "v_spare (wrs ws v) = v_spare v"
  "v_who (wrs ws v) = v_who v" "v_rest (wrs ws v) = v_rest v"
  by (induction ws arbitrary: v; simp add: wr_v_def split: prod.splits)+

lemma v_cont_wrs: "v_cont (wrs ws v) = replay ws (v_cont v)"
  by (induction ws arbitrary: v) (auto simp: wr_v_def split: prod.splits)

lemma v_cont_other: "n \<notin> fst ` set ws \<Longrightarrow> v_cont (wrs ws v) n = v_cont v n"
  by (induction ws arbitrary: v) (auto simp: wr_v_def split: prod.splits)

section \<open>Well-formed logs\<close>

definition laddr :: "'a lstate_scheme \<Rightarrow> nat \<Rightarrow> u32" where
  "laddr s i = lg_start s + of_nat i"

definition homes :: "'a lstate_scheme \<Rightarrow> u32 list" where
  "homes s = take (int_count (lg_n s)) (lg_block s)"

definition log_wf :: "'a lstate_scheme \<Rightarrow> bool" where
  "log_wf s \<longleftrightarrow> lg_dev s = ROOTDEV \<and> unat (lg_start s) + LOGSIZE < 2 ^ 31 \<and> length (lg_block s) = LOGSIZE \<and>
     lg_n s = of_nat (int_count (lg_n s)) \<and> int_count (lg_n s) \<le> LOGSIZE"

definition in_log :: "'a lstate_scheme \<Rightarrow> u32 \<Rightarrow> bool" where
  "in_log s m \<longleftrightarrow> (\<exists>i \<le> LOGSIZE. m = laddr s i)"

text \<open>No buffer is locked, and one can be recycled.\<close>

definition quiet :: "'r bview \<Rightarrow> bool" where
  "quiet v \<longleftrightarrow> (\<forall>n < 2 ^ 31. \<not> v_held v n \<and> v_ref v n < 2 ^ 30) \<and> 0 < v_spare v \<and> v_who v \<noteq> None"

lemma quiet_ready: "quiet v \<Longrightarrow> n < 2 ^ 31 \<Longrightarrow> ready v n"
  by (simp add: quiet_def ready_def)

lemma quiet_wrs [simp]: "quiet (wrs ws v) = quiet v"
  by (simp add: quiet_def)

definition homes_ok :: "'a lstate_scheme \<Rightarrow> bool" where
  "homes_ok s \<longleftrightarrow> distinct (homes s) \<and> (\<forall>m \<in> set (homes s). m < 2 ^ 31 \<and> \<not> in_log s m)"

lemma rest_log:
  assumes "v_rest (bview t) = v_rest (bview s)"
  shows "lg_start t = lg_start s" "lg_size t = lg_size s" "lg_outstanding t = lg_outstanding s"
    "lg_committing t = lg_committing s" "lg_dev t = lg_dev s" "lg_n t = lg_n s" "lg_block t = lg_block s"
proof -
  have e: "t\<lparr>bufs := [], disk := (\<lambda>_. []), dwrites := [], procs := []\<rparr> = s\<lparr>bufs := [], disk := (\<lambda>_. []), dwrites := [], procs := []\<rparr>"
    using assms by (simp add: bview_def)
  from arg_cong [OF e, of lg_start] arg_cong [OF e, of lg_size] arg_cong [OF e, of lg_outstanding]
    arg_cong [OF e, of lg_committing] arg_cong [OF e, of lg_dev] arg_cong [OF e, of lg_n] arg_cong [OF e, of lg_block]
  show "lg_start t = lg_start s" "lg_size t = lg_size s" "lg_outstanding t = lg_outstanding s"
    "lg_committing t = lg_committing s" "lg_dev t = lg_dev s" "lg_n t = lg_n s" "lg_block t = lg_block s" by simp_all
qed

lemma laddr_unat: "log_wf s \<Longrightarrow> i \<le> LOGSIZE \<Longrightarrow> unat (laddr s i) = unat (lg_start s) + i"
proof -
  assume "log_wf s" "i \<le> LOGSIZE"
  then have "unat (lg_start s) + i < 2 ^ 31" by (simp add: log_wf_def)
  moreover have "unat (of_nat i :: u32) = i" using \<open>i \<le> LOGSIZE\<close> by (simp add: unat_of_nat params)
  ultimately show ?thesis by (simp add: laddr_def unat_word_ariths)
qed

lemma laddr_ok:
  assumes "log_wf s" "i \<le> LOGSIZE"
  shows "laddr s i < 2 ^ 31" and "j \<le> LOGSIZE \<Longrightarrow> laddr s i = laddr s j \<longleftrightarrow> i = j"
proof -
  show "laddr s i < 2 ^ 31" using assms laddr_unat [OF assms] by (simp add: word_less_nat_alt log_wf_def)
  show "j \<le> LOGSIZE \<Longrightarrow> laddr s i = laddr s j \<longleftrightarrow> i = j"
    by (metis add_left_cancel assms laddr_unat)
qed

lemma length_homes: "log_wf s \<Longrightarrow> length (homes s) = int_count (lg_n s)"
  by (simp add: homes_def log_wf_def)

section \<open>What \<open>bread\<close> leaves alone\<close>

lemma bnd_cong_Ret: "(\<And>x t. r = Ret x t \<Longrightarrow> f x t = g x t) \<Longrightarrow> bnd r f = bnd r g"
  by (cases r) auto

lemma loop_same_state:
  assumes "\<And>l s r t. body l s = Ret r t \<Longrightarrow> t = s" and "loop k body l s = Ret x t"
  shows "t = s"
  using assms(2)
proof (induction k arbitrary: l)
  case (Suc k)
  then obtain r u where u: "body l s = Ret r u" "(case r of Inl l' \<Rightarrow> loop k body l' u | Inr x \<Rightarrow> Ret x u) = Ret x t"
    by (auto simp: run_simps)
  with assms(1) have "u = s" by blast
  with u Suc.IH show ?case by (cases r) auto
qed simp

lemma bscan_state: "bscan dir P s = Ret x t \<Longrightarrow> t = s"
  unfolding bscan_def by (erule loop_same_state [rotated]) (auto split: if_splits)

lemma lock_buf_only: "lock_buf b s = Ret x t \<Longrightarrow> \<exists>bs. t = s\<lparr>bufs := bs\<rparr>"
  by (auto simp: lock_buf_def acquiresleep_def sleep_def with_proc_def upd_buf_def run_simps split: if_splits option.splits)

lemma bget_only: "bget d n s = Ret b t \<Longrightarrow> \<exists>bs. t = s\<lparr>bufs := bs\<rparr>"
  unfolding bget_def
  by ((auto simp: run_simps upd_buf_def dest!: bscan_state lock_buf_only split: option.splits)?; blast)

lemma bread_only: "bread d n s = Ret b t \<Longrightarrow> \<exists>bs. t = s\<lparr>bufs := bs\<rparr>"
  unfolding bread_def
  by ((auto simp: run_simps upd_buf_def disk_transfer_def dest!: bget_only split: if_splits)?; blast)

lemma bread_log:
  assumes "bread d n s = Ret b t"
  shows "lg_start t = lg_start s" "lg_dev t = lg_dev s" "lg_n t = lg_n s" "lg_block t = lg_block s"
  using bread_only [OF assms] by auto

section \<open>The steps of a commit\<close>

lemma write_log_step_eq:
  assumes "i < length (lg_block s)"
  shows "write_log_step i s =
    bnd (bread (lg_dev s) (lg_start s + of_nat i + 1) s) (\<lambda>a s1. bnd (bread (lg_dev s) (lg_block s ! i) s1) (\<lambda>b s.
      bnd (bwrite a (upd_buf a (\<lambda>x. x\<lparr>b_data := b_data (bufs s ! b)\<rparr>) s)) (\<lambda>_ s. bnd (brelse b s) (\<lambda>_ s. brelse a s))))"
  unfolding write_log_step_def by (rule bnd_cong_Ret) (use assms in \<open>simp add: bread_log\<close>)

lemma install_trans_step_eq:
  assumes "i < length (lg_block s)"
  shows "install_trans_step rc i s =
    bnd (bread (lg_dev s) (lg_start s + of_nat i + 1) s) (\<lambda>a s1. bnd (bread (lg_dev s) (lg_block s ! i) s1) (\<lambda>b s.
      bnd (bwrite b (upd_buf b (\<lambda>x. x\<lparr>b_data := b_data (bufs s ! a)\<rparr>) s)) (\<lambda>_ s.
      bnd (brelse a (if \<not> rc then bunpin b s else s)) (\<lambda>_ s. brelse b s))))"
  unfolding install_trans_step_def by (rule bnd_cong_Ret) (use assms in \<open>simp add: bread_log\<close>)

lemma homes_nth:
  assumes "log_wf s" "homes_ok s" "i < int_count (lg_n s)"
  shows "lg_block s ! i = homes s ! i" "homes s ! i < 2 ^ 31" "i < length (lg_block s)"
    "homes s ! i \<noteq> laddr s (Suc i)" "\<not> in_log s (homes s ! i)"
proof -
  have i: "i < length (homes s)" using assms by (simp add: length_homes)
  then have "homes s ! i \<in> set (homes s)" by simp
  then show "homes s ! i < 2 ^ 31" "\<not> in_log s (homes s ! i)" using assms(2) by (auto simp: homes_ok_def)
  then show "homes s ! i \<noteq> laddr s (Suc i)" using assms by (auto simp: in_log_def log_wf_def)
  show "lg_block s ! i = homes s ! i" "i < length (lg_block s)" using assms i by (auto simp: homes_def log_wf_def)
qed

lemma laddr_0: "laddr s 0 = lg_start s"
  by (simp add: laddr_def)

lemma laddr_Suc: "laddr s (Suc i) = lg_start s + of_nat i + 1"
  by (simp add: laddr_def)

lemma write_log_step_ok:
  assumes inv: "binv s" and q: "quiet (bview s)" and wf: "log_wf s" and ok: "homes_ok s"
    and i: "i < int_count (lg_n s)" and pin: "0 < v_ref (bview s) (homes s ! i)"
  shows "returns (write_log_step i s) (\<lambda>_ t. binv t \<and> bview t = wr_v (laddr s (Suc i), v_cont (bview s) (homes s ! i)) (bview s))"
proof -
  note h = homes_nth [OF wf ok i]
  have "Suc i \<le> LOGSIZE" using wf i by (simp add: log_wf_def)
  then have l: "laddr s (Suc i) < 2 ^ 31" using laddr_ok [OF wf] by simp
  have eq: "write_log_step i s = bnd (bread ROOTDEV (laddr s (Suc i)) s) (\<lambda>a s1. bnd (bread ROOTDEV (homes s ! i) s1) (\<lambda>b s.
      bnd (bwrite a (upd_buf a (\<lambda>x. x\<lparr>b_data := b_data (bufs s ! b)\<rparr>) s)) (\<lambda>_ s. bnd (brelse b s) (\<lambda>_ s. brelse a s))))"
    using wf h(1) by (simp add: write_log_step_eq [OF h(3)] laddr_Suc log_wf_def)
  show ?thesis unfolding eq wr_v_def prod.case
    by (rule bio.copy_to [OF inv quiet_ready [OF q l] quiet_ready [OF q h(2)] h(4) [symmetric] pin])
qed

lemma install_trans_step_ok:
  assumes inv: "binv s" and q: "quiet (bview s)" and wf: "log_wf s" and ok: "homes_ok s"
    and i: "i < int_count (lg_n s)"
    and pin: "if rc then 0 < v_ref (bview s) (homes s ! i) \<or> 1 < v_spare (bview s) else 0 < v_ref (bview s) (homes s ! i)"
  defines "v \<equiv> bview s" and "h \<equiv> homes s ! i"
  shows "returns (install_trans_step rc i s) (\<lambda>_ t. binv t \<and> bview t = wr_v (h, v_cont v (laddr s (Suc i)))
    (v\<lparr>v_ref := (v_ref v)(h := if rc then v_ref v h else v_ref v h - 1),
       v_spare := v_spare v + (if \<not> rc \<and> v_ref v h = 1 then 1 else 0)\<rparr>))"
proof -
  note h = homes_nth [OF wf ok i]
  have "Suc i \<le> LOGSIZE" using wf i by (simp add: log_wf_def)
  then have l: "laddr s (Suc i) < 2 ^ 31" using laddr_ok [OF wf] by simp
  have eq: "install_trans_step rc i s = bnd (bread ROOTDEV (laddr s (Suc i)) s) (\<lambda>a s1. bnd (bread ROOTDEV (homes s ! i) s1) (\<lambda>b s.
      bnd (bwrite b (upd_buf b (\<lambda>x. x\<lparr>b_data := b_data (bufs s ! a)\<rparr>) s)) (\<lambda>_ s.
      bnd (brelse a (if \<not> rc then bunpin b s else s)) (\<lambda>_ s. brelse b s))))"
    using wf h(1) by (simp add: install_trans_step_eq [OF h(3)] laddr_Suc log_wf_def)
  have "if \<not> rc then 0 < v_ref (bview s) (homes s ! i) else 0 < v_ref (bview s) (homes s ! i) \<or> 1 < v_spare (bview s)"
    using pin by auto
  from bio.copy_home [OF inv quiet_ready [OF q l] quiet_ready [OF q h(2)] h(4) [symmetric] this]
  show ?thesis unfolding eq by (rule returns_mono) (auto simp: wr_v_def v_def h_def)
qed

lemma write_head_eq:
  assumes "int_count (lg_n s) \<le> length (lg_block s)"
  shows "write_head s = bnd (bread (lg_dev s) (lg_start s) s) (\<lambda>b s1. bnd (bwrite b (upd_buf b
      (\<lambda>x. x\<lparr>b_data := fill_head (lg_n s) (lg_block s) (b_data (bufs s1 ! b))\<rparr>) s1)) (\<lambda>_ s. brelse b s))"
  unfolding write_head_def by (rule bnd_cong_Ret) (use assms in \<open>simp add: bread_log\<close>)

lemma write_head_ok:
  assumes inv: "binv s" and q: "quiet (bview s)" and wf: "log_wf s"
  shows "returns (write_head s) (\<lambda>_ t. binv t \<and>
     bview t = wr_v (lg_start s, fill_head (lg_n s) (lg_block s) (v_cont (bview s) (lg_start s))) (bview s))"
proof -
  have "laddr s 0 < 2 ^ 31" using laddr_ok [OF wf] by simp
  then have l: "lg_start s < 2 ^ 31" by (simp add: laddr_def)
  have eq: "write_head s = bnd (bread ROOTDEV (lg_start s) s) (\<lambda>b s1. bnd (bwrite b (upd_buf b
      (\<lambda>x. x\<lparr>b_data := fill_head (lg_n s) (lg_block s) (b_data (bufs s1 ! b))\<rparr>) s1)) (\<lambda>_ s. brelse b s))"
    using wf by (subst write_head_eq) (simp_all add: log_wf_def)
  show ?thesis unfolding eq wr_v_def prod.case by (rule bio.write_block [OF inv quiet_ready [OF q l]])
qed

section \<open>The loops\<close>

lemma rest_wf:
  assumes "v_rest (bview t) = v_rest (bview s)"
  shows "log_wf t = log_wf s" "homes t = homes s" "laddr t = laddr s" "in_log t = in_log s" "homes_ok t = homes_ok s"
proof -
  note r = rest_log [OF assms]
  show "log_wf t = log_wf s" "homes t = homes s" and l: "laddr t = laddr s"
    by (simp_all add: log_wf_def homes_def laddr_def fun_eq_iff r)
  then show "in_log t = in_log s" by (simp add: in_log_def fun_eq_iff)
  with \<open>homes t = homes s\<close> show "homes_ok t = homes_ok s" by (simp add: homes_ok_def)
qed

definition log_ws :: "'a lstate_scheme \<Rightarrow> (u32 \<times> u8 list) list" where
  "log_ws s = map (\<lambda>i. (laddr s (Suc i), v_cont (bview s) (homes s ! i))) [0..<int_count (lg_n s)]"

lemma log_ws_addr: "log_wf s \<Longrightarrow> m \<in> fst ` set (log_ws s) \<Longrightarrow> \<exists>i. 0 < i \<and> i \<le> LOGSIZE \<and> m = laddr s i"
proof -
  assume wf: "log_wf s" and "m \<in> fst ` set (log_ws s)"
  then obtain i where "i < int_count (lg_n s)" "m = laddr s (Suc i)" by (auto simp: log_ws_def)
  then show ?thesis using wf by (intro exI [of _ "Suc i"]) (simp add: log_wf_def)
qed

lemma log_ws_in_log: "log_wf s \<Longrightarrow> m \<in> fst ` set (log_ws s) \<Longrightarrow> in_log s m"
  using log_ws_addr by (fastforce simp: in_log_def)

lemma write_log_ok:
  assumes inv: "binv s" and q: "quiet (bview s)" and wf: "log_wf s" and ok: "homes_ok s"
    and pin: "\<And>m. m \<in> set (homes s) \<Longrightarrow> 0 < v_ref (bview s) m"
  shows "returns (write_log s) (\<lambda>_ t. binv t \<and> bview t = wrs (log_ws s) (bview s))"
proof -
  let ?n = "int_count (lg_n s)"
  let ?I = "\<lambda>i t. binv t \<and> bview t = wrs (take i (log_ws s)) (bview s)"
  have "returns (each write_log_step [0..<?n] s) (\<lambda>_ t. ?I ?n t)"
  proof (rule each_upt)
    show "?I 0 s" using inv by simp
    fix i t assume i: "i < ?n" and "?I i t"
    then have t: "binv t" "bview t = wrs (take i (log_ws s)) (bview s)" by auto
    then have "v_rest (bview t) = v_rest (bview s)" by simp
    note r = rest_wf [OF this] rest_log [OF this]
    have hi: "homes s ! i \<in> set (homes s)" using i wf by (simp add: length_homes)
    have "returns (write_log_step i t) (\<lambda>_ u. binv u \<and> bview u = wr_v (laddr t (Suc i), v_cont (bview t) (homes t ! i)) (bview t))"
      by (rule write_log_step_ok) (use t q wf ok i pin hi in \<open>simp_all add: r\<close>)
    moreover have "homes s ! i \<notin> fst ` set (take i (log_ws s))"
      using log_ws_in_log [OF wf] homes_nth(5) [OF wf ok i] set_take_subset [of i "log_ws s"] by blast
    then have "v_cont (bview t) (homes s ! i) = v_cont (bview s) (homes s ! i)" by (simp add: t(2) v_cont_other)
    moreover have "log_ws s ! i = (laddr s (Suc i), v_cont (bview s) (homes s ! i))" "i < length (log_ws s)"
      using i by (simp_all add: log_ws_def)
    ultimately show "returns (write_log_step i t) (\<lambda>_ u. ?I (Suc i) u)"
      by (elim returns_mono) (simp add: r t(2) take_Suc_conv_app_nth wrs_append)
  qed
  moreover have "length (log_ws s) = ?n" by (simp add: log_ws_def)
  ultimately show ?thesis by (simp add: write_log_def)
qed

definition home_ws :: "'a lstate_scheme \<Rightarrow> (u32 \<times> u8 list) list" where
  "home_ws s = map (\<lambda>i. (homes s ! i, v_cont (bview s) (laddr s (Suc i)))) [0..<int_count (lg_n s)]"

lemma map_fst_home_ws: "log_wf s \<Longrightarrow> map fst (home_ws s) = homes s"
  by (rule nth_equalityI) (simp_all add: home_ws_def length_homes)

lemma wr_v_refs: "(wr_v w v)\<lparr>v_ref := f, v_spare := k\<rparr> = wr_v w (v\<lparr>v_ref := f, v_spare := k\<rparr>)"
  by (cases v) (simp add: wr_v_def split: prod.split)

lemma wrs_refs: "(wrs ws v)\<lparr>v_ref := f, v_spare := k\<rparr> = wrs ws (v\<lparr>v_ref := f, v_spare := k\<rparr>)"
  by (induction ws arbitrary: v) (simp_all add: wr_v_refs)

lemma wrs_cont_refs: "v_cont (wrs ws (v\<lparr>v_ref := f, v_spare := k\<rparr>)) = v_cont (wrs ws v)"
  by (simp add: v_cont_wrs)

definition unpinned :: "bool \<Rightarrow> u32 list \<Rightarrow> 'r bview \<Rightarrow> 'r bview \<Rightarrow> bool" where
  "unpinned rc hs v v' \<longleftrightarrow> (\<exists>k. v' = v\<lparr>v_ref := (\<lambda>m. if \<not> rc \<and> m \<in> set hs then v_ref v m - 1 else v_ref v m),
     v_spare := v_spare v + k\<rparr>)"

lemma install_trans_ok:
  assumes inv: "binv s" and q: "quiet (bview s)" and wf: "log_wf s" and ok: "homes_ok s"
    and pin: "if rc then 1 < v_spare (bview s) else \<forall>m \<in> set (homes s). 0 < v_ref (bview s) m"
  shows "returns (install_trans rc s) (\<lambda>_ t. binv t \<and> (\<exists>v. unpinned rc (homes s) (bview s) v \<and> bview t = wrs (home_ws s) v))"
proof -
  let ?n = "int_count (lg_n s)"
  let ?I = "\<lambda>i t. binv t \<and> (\<exists>v. unpinned rc (take i (homes s)) (bview s) v \<and> bview t = wrs (take i (home_ws s)) v)"
  have len: "length (home_ws s) = ?n" "length (homes s) = ?n" using wf by (simp_all add: home_ws_def length_homes)
  have d: "distinct (homes s)" using ok by (simp add: homes_ok_def)
  have "returns (each (install_trans_step rc) [0..<?n] s) (\<lambda>_ t. ?I ?n t)"
  proof (rule each_upt)
    show "?I 0 s" using inv by (auto simp: unpinned_def intro!: exI [of _ "bview s"] exI [of _ 0])
    fix i t assume i: "i < ?n" and "?I i t"
    then obtain k where t: "binv t" "bview t = wrs (take i (home_ws s)) ((bview s)\<lparr>v_ref :=
        (\<lambda>m. if \<not> rc \<and> m \<in> set (take i (homes s)) then v_ref (bview s) m - 1 else v_ref (bview s) m), v_spare := v_spare (bview s) + k\<rparr>)"
      by (auto simp: unpinned_def)
    then have "v_rest (bview t) = v_rest (bview s)" by simp
    note r = rest_wf [OF this] rest_log [OF this]
    have hi: "homes s ! i \<in> set (homes s)" using i wf by (simp add: length_homes)
    have hn: "homes s ! i \<notin> set (take i (homes s))"
      using d i len by (auto simp: in_set_conv_nth nth_eq_iff_index_eq)
    have qt: "quiet (bview t)" using q by (auto simp: t(2) quiet_def)
    have vr: "v_ref (bview t) (homes s ! i) = v_ref (bview s) (homes s ! i)" using hn by (simp add: t(2))
    have sp: "v_spare (bview s) \<le> v_spare (bview t)" by (simp add: t(2))
    have st: "returns (install_trans_step rc i t) (\<lambda>_ u. binv u \<and> bview u = wr_v (homes t ! i, v_cont (bview t) (laddr t (Suc i)))
      ((bview t)\<lparr>v_ref := (v_ref (bview t))(homes t ! i := if rc then v_ref (bview t) (homes t ! i) else v_ref (bview t) (homes t ! i) - 1),
       v_spare := v_spare (bview t) + (if \<not> rc \<and> v_ref (bview t) (homes t ! i) = 1 then 1 else 0)\<rparr>))"
    proof (rule install_trans_step_ok)
      show "if rc then 0 < v_ref (bview t) (homes t ! i) \<or> 1 < v_spare (bview t) else 0 < v_ref (bview t) (homes t ! i)"
        using pin hi sp by (auto simp: r vr split: if_splits)
    qed (use t(1) qt wf ok i in \<open>simp_all add: r\<close>)
    have "in_log s (laddr s (Suc i))" using i wf by (auto simp: in_log_def log_wf_def intro!: exI [of _ "Suc i"])
    then have "laddr s (Suc i) \<notin> set (homes s)" using ok by (auto simp: homes_ok_def)
    then have "laddr s (Suc i) \<notin> fst ` set (take i (home_ws s))"
      using arg_cong [OF map_fst_home_ws [OF wf], of set] by (auto dest: in_set_takeD)
    then have vc: "v_cont (bview t) (laddr s (Suc i)) = v_cont (bview s) (laddr s (Suc i))"
      by (simp add: t(2) v_cont_other)
    have ni: "home_ws s ! i = (homes s ! i, v_cont (bview s) (laddr s (Suc i)))" using i by (simp add: home_ws_def)
    from st show "returns (install_trans_step rc i t) (\<lambda>_ u. ?I (Suc i) u)"
    proof (rule returns_mono)
      fix x u assume u: "binv u \<and> bview u = wr_v (homes t ! i, v_cont (bview t) (laddr t (Suc i)))
      ((bview t)\<lparr>v_ref := (v_ref (bview t))(homes t ! i := if rc then v_ref (bview t) (homes t ! i) else v_ref (bview t) (homes t ! i) - 1),
       v_spare := v_spare (bview t) + (if \<not> rc \<and> v_ref (bview t) (homes t ! i) = 1 then 1 else 0)\<rparr>)"
      let ?k = "k + (if \<not> rc \<and> v_ref (bview s) (homes s ! i) = 1 then 1 else 0)"
      let ?v = "(bview s)\<lparr>v_ref := (\<lambda>m. if \<not> rc \<and> m \<in> set (take (Suc i) (homes s)) then v_ref (bview s) m - 1 else v_ref (bview s) m),
        v_spare := v_spare (bview s) + ?k\<rparr>"
      have A: "(v_ref (bview t))(homes s ! i := if rc then v_ref (bview s) (homes s ! i) else v_ref (bview s) (homes s ! i) - 1) =
        (\<lambda>m. if \<not> rc \<and> m \<in> set (take (Suc i) (homes s)) then v_ref (bview s) m - 1 else v_ref (bview s) m)"
        using i hn len by (auto simp: t(2) fun_eq_iff take_Suc_conv_app_nth)
      have B: "v_spare (bview t) + (if \<not> rc \<and> v_ref (bview s) (homes s ! i) = 1 then 1 else 0) = v_spare (bview s) + ?k"
        by (simp add: t(2))
      have C: "(bview t)\<lparr>v_ref := f, v_spare := l\<rparr> = wrs (take i (home_ws s)) ((bview s)\<lparr>v_ref := f, v_spare := l\<rparr>)" for f l
        by (simp add: t(2) wrs_refs)
      have "bview u = wr_v (home_ws s ! i) (wrs (take i (home_ws s)) ?v)"
        using conjunct2 [OF u] unfolding r vr vc A B C ni .
      then have "bview u = wrs (take (Suc i) (home_ws s)) ?v"
        using i len by (simp add: take_Suc_conv_app_nth [of i "home_ws s"] wrs_append)
      moreover have "unpinned rc (take (Suc i) (homes s)) (bview s) ?v" unfolding unpinned_def by blast
      ultimately show "?I (Suc i) u" using u by blast
    qed
  qed
  then show ?thesis using len by (simp add: install_trans_def)
qed

section \<open>The commit\<close>

text \<open>The in-memory header does not show in the cache.\<close>

lemma who_lg [simp]: "who (s\<lparr>lg_n := k\<rparr>) = who s" "who (s\<lparr>lg_n := k, lg_block := l\<rparr>) = who s"
    "who (s\<lparr>lg_start := a, lg_size := b, lg_dev := c\<rparr>) = who s"
  by (simp_all add: who_def myproc_def cong: option.case_cong if_cong)

lemma binv_lg [simp]: "binv (s\<lparr>lg_n := k\<rparr>) = binv s" "binv (s\<lparr>lg_n := k, lg_block := l\<rparr>) = binv s"
    "binv (s\<lparr>lg_start := a, lg_size := b, lg_dev := c\<rparr>) = binv s"
  by (rule bcache_frame; simp)+

lemma bview_lg:
  "bview (s\<lparr>lg_n := k\<rparr>) = (bview s)\<lparr>v_rest := (v_rest (bview s))\<lparr>lg_n := k\<rparr>\<rparr>"
  "bview (s\<lparr>lg_n := k, lg_block := l\<rparr>) = (bview s)\<lparr>v_rest := (v_rest (bview s))\<lparr>lg_n := k, lg_block := l\<rparr>\<rparr>"
  "bview (s\<lparr>lg_start := a, lg_size := b, lg_dev := c\<rparr>) = (bview s)\<lparr>v_rest := (v_rest (bview s))\<lparr>lg_start := a, lg_size := b, lg_dev := c\<rparr>\<rparr>"
  by (subst bcache_frame(3) [of _ s]; simp add: bview_def)+

definition head_of :: "'a lstate_scheme \<Rightarrow> u8 list" where
  "head_of s = fill_head (lg_n s) (lg_block s) (v_cont (bview s) (lg_start s))"

text \<open>The disk writes of a commit, in order.\<close>

definition commit_ws :: "'a lstate_scheme \<Rightarrow> (u32 \<times> u8 list) list" where
  "commit_ws s = log_ws s @ [(lg_start s, head_of s)] @ map (\<lambda>m. (m, v_cont (bview s) m)) (homes s) @
     [(lg_start s, fill_head 0 (lg_block s) (head_of s))]"

lemma v_cont_log_ws:
  assumes wf: "log_wf s" and i: "i < int_count (lg_n s)"
  shows "v_cont (wrs (log_ws s) v) (laddr s (Suc i)) = v_cont (bview s) (homes s ! i)"
proof -
  have "(laddr s (Suc i), v_cont (bview s) (homes s ! i)) \<in> set (log_ws s)" using i by (auto simp: log_ws_def)
  moreover have "distinct (map fst (log_ws s))"
    using wf laddr_ok(2) [OF wf, of "Suc _" "Suc _"] by (auto simp: log_ws_def distinct_map inj_on_def log_wf_def comp_def)
  ultimately show ?thesis by (simp add: v_cont_wrs replay_in)
qed

lemma commit_ok:
  assumes inv: "binv s" and q: "quiet (bview s)" and wf: "log_wf s" and ok: "homes_ok s"
    and pin: "\<forall>m \<in> set (homes s). 0 < v_ref (bview s) m" and n: "0 < int_count (lg_n s)"
  shows "returns (commit s) (\<lambda>_ t. binv t \<and> lg_n t = 0 \<and> (\<exists>v. unpinned False (homes s) (bview s) v \<and>
    bview t = (wrs (commit_ws s) v)\<lparr>v_rest := (v_rest (bview s))\<lparr>lg_n := 0\<rparr>\<rparr>))"
proof -
  have g: "0 <s lg_n s" using n by (simp add: int_count_def word_sless_alt)
  obtain t1 where t1: "write_log s = Ret () t1" "binv t1" "bview t1 = wrs (log_ws s) (bview s)"
    using write_log_ok [OF inv q wf ok] pin by (auto simp: returns_iff)
  then have "v_rest (bview t1) = v_rest (bview s)" by simp
  note r1 = rest_wf [OF this] rest_log [OF this]
  obtain t2 where t2: "write_head t1 = Ret () t2" "binv t2"
    "bview t2 = wr_v (lg_start t1, fill_head (lg_n t1) (lg_block t1) (v_cont (bview t1) (lg_start t1))) (bview t1)"
    using write_head_ok [of t1] t1 q wf by (auto simp: returns_iff r1)
  have st: "lg_start s \<notin> fst ` set (log_ws s)"
  proof
    assume "lg_start s \<in> fst ` set (log_ws s)"
    then obtain i where "0 < i" "i \<le> LOGSIZE" "lg_start s = laddr s i"
      using log_ws_addr [OF wf] by blast
    then show False using laddr_ok(2) [OF wf, of 0 i] by (simp add: laddr_0)
  qed
  have v2: "bview t2 = wrs (log_ws s @ [(lg_start s, head_of s)]) (bview s)"
    using t2(3) by (simp add: r1 t1(3) v_cont_other [OF st] head_of_def wrs_append)
  then have "v_rest (bview t2) = v_rest (bview s)" by simp
  note r2 = rest_wf [OF this] rest_log [OF this]
  obtain t3 v where t3: "install_trans False t2 = Ret () t3" "binv t3" "unpinned False (homes s) (bview t2) v" "bview t3 = wrs (home_ws t2) v"
    using install_trans_ok [of t2 False] t2(2) q wf ok pin by (auto simp: returns_iff r2 v2)
  have hw: "home_ws t2 = map (\<lambda>m. (m, v_cont (bview s) m)) (homes s)"
  proof (rule nth_equalityI)
    fix i assume "i < length (home_ws t2)"
    then have i: "i < int_count (lg_n s)" by (simp add: home_ws_def r2)
    have "laddr s (Suc i) \<noteq> laddr s 0" using laddr_ok(2) [OF wf, of 0 "Suc i"] i wf by (auto simp: log_wf_def)
    then have "laddr s (Suc i) \<noteq> lg_start s" by (simp add: laddr_def)
    then have "v_cont (bview t2) (laddr s (Suc i)) = v_cont (bview s) (homes s ! i)"
      using v_cont_log_ws [OF wf i] by (simp add: v2 wrs_append wr_v_def)
    then show "home_ws t2 ! i = map (\<lambda>m. (m, v_cont (bview s) m)) (homes s) ! i"
      using i wf by (simp add: home_ws_def r2 length_homes)
  qed (use wf in \<open>simp add: home_ws_def r2 length_homes\<close>)
  obtain k where v: "v = (bview t2)\<lparr>v_ref := (\<lambda>m. if m \<in> set (homes s) then v_ref (bview t2) m - 1 else v_ref (bview t2) m),
     v_spare := v_spare (bview t2) + k\<rparr>" using t3(3) by (auto simp: unpinned_def)
  let ?v = "(bview s)\<lparr>v_ref := (\<lambda>m. if m \<in> set (homes s) then v_ref (bview s) m - 1 else v_ref (bview s) m), v_spare := v_spare (bview s) + k\<rparr>"
  have v3: "bview t3 = wrs (log_ws s @ [(lg_start s, head_of s)] @ map (\<lambda>m. (m, v_cont (bview s) m)) (homes s)) ?v"
    unfolding t3(4) hw v v2 wrs_refs by (simp only: wrs_fields wrs_append [symmetric] append.assoc)
  then have "v_rest (bview t3) = v_rest (bview s)" by simp
  note r3 = rest_wf [OF this] rest_log [OF this]
  have q3: "quiet (bview (t3\<lparr>lg_n := 0\<rparr>))" using q by (auto simp: bview_lg v3 quiet_def)
  have wf3: "log_wf (t3\<lparr>lg_n := 0\<rparr>)" using wf r3 by (simp add: log_wf_def int_count_def)
  have ns: "lg_start s \<notin> set (homes s)" using ok by (auto simp: homes_ok_def in_log_def laddr_def dest: spec [of _ 0])
  have hc: "v_cont (bview t3) (lg_start s) = head_of s"
    using ns by (simp add: v3 wrs_append v_cont_other image_comp comp_def) (simp add: wr_v_def)
  obtain t4 where t4: "write_head (t3\<lparr>lg_n := 0\<rparr>) = Ret () t4" "binv t4"
    "bview t4 = wr_v (lg_start s, fill_head 0 (lg_block s) (head_of s)) (bview (t3\<lparr>lg_n := 0\<rparr>))"
    using write_head_ok [OF _ q3 wf3] t3(2) hc by (auto simp: returns_iff r3 bview_lg)
  have "bview t4 = (wrs (commit_ws s) ?v)\<lparr>v_rest := (v_rest (bview s))\<lparr>lg_n := 0\<rparr>\<rparr>"
    unfolding t4(3) by (simp add: bview_lg v3 commit_ws_def wrs_append wr_v_def)
  moreover have "unpinned False (homes s) (bview s) ?v" unfolding unpinned_def by auto
  moreover have "lg_n t4 = 0"
  proof -
    have "v_rest (bview t4) = v_rest (bview (t3\<lparr>lg_n := 0\<rparr>))" by (simp add: t4(3) wr_v_def)
    from rest_log(6) [OF this] show ?thesis by simp
  qed
  ultimately show ?thesis using t1(1) t2(1) t3(1) t4(1,2) g by (auto simp: commit_def)
qed

section \<open>Recovery\<close>

lemma read_head_ok:
  assumes inv: "binv s" and q: "quiet (bview s)" and dev: "lg_dev s = ROOTDEV" and st: "lg_start s < 2 ^ 31"
  defines "hb \<equiv> v_cont (bview s) (lg_start s)"
  defines "n \<equiv> get32 0 hb"
  assumes n: "int_count n \<le> LOGSIZE"
  defines "l \<equiv> map (\<lambda>i. get32 (4 + 4 * i) hb) [0..<int_count n] @ drop (int_count n) (lg_block s)"
  shows "returns (read_head s) (\<lambda>_ t. binv t \<and> lg_n t = n \<and> lg_block t = l \<and>
     bview t = (bview s)\<lparr>v_rest := (v_rest (bview s))\<lparr>lg_n := n, lg_block := l\<rparr>\<rparr>)"
proof -
  let ?v = "bview s" and ?a = "lg_start s"
  obtain b t where 1: "bread ROOTDEV ?a s = Ret b t" "binv t" "at t b ?a"
    "bview t = ?v\<lparr>v_ref := (v_ref ?v)(?a := v_ref ?v ?a + 1), v_held := (v_held ?v)(?a := True),
        v_spare := v_spare ?v - (if v_ref ?v ?a = 0 then 1 else 0)\<rparr>"
    using bio.rd_law [OF inv quiet_ready [OF q st]] by (auto simp: returns_iff)
  have d: "b_data (bufs t ! b) = hb" using bio.held_data [OF 1(2,3)] by (simp add: 1(4) hb_def)
  have lt: "lg_block t = lg_block s" using bread_log [OF 1(1)] by simp
  define u where "u = t\<lparr>lg_n := n, lg_block := l\<rparr>"
  have u: "binv u" "at u b ?a" "bview u = (bview t)\<lparr>v_rest := (v_rest (bview t))\<lparr>lg_n := n, lg_block := l\<rparr>\<rparr>"
    using 1(2,3) bcache_frame(2) [of u t] by (simp_all add: u_def bview_lg)
  have "v_cont (bview u) ?a = v_disk (bview u) (sector_of ?a)" if "v_ref (bview u) ?a = 1"
    using that bio.clean_law [OF inv st] by (simp add: u(3) 1(4))
  then obtain w where 2: "brelse b u = Ret () w" "binv w"
    "bview w = (bview u)\<lparr>v_ref := (v_ref (bview u))(?a := v_ref (bview u) ?a - 1), v_held := (v_held (bview u))(?a := False),
        v_spare := v_spare (bview u) + (if v_ref (bview u) ?a = 1 then 1 else 0)\<rparr>"
    using bio.rel_law [OF u(1,2)] by (auto simp: returns_iff)
  have "read_head s = Ret () w"
    using 1(1) 2(1) n lt by (simp add: read_head_def dev d u_def n_def l_def Let_def)
  moreover have "v_rest (bview w) = v_rest (bview u)" by (simp add: 2(3))
  from rest_log [OF this] have "lg_n w = n" "lg_block w = l" by (simp_all add: u_def)
  moreover have "bview w = (bview s)\<lparr>v_rest := (v_rest (bview s))\<lparr>lg_n := n, lg_block := l\<rparr>\<rparr>"
    by (rule bview.equality) (use quiet_ready [OF q st] in \<open>auto simp: 2(3) u(3) 1(4) ready_def fun_eq_iff\<close>)
  ultimately show ?thesis using 2(2) by simp
qed

text \<open>The log that a disk holds: the home addresses named by its header and the logged copies.\<close>

definition disk_log :: "u32 \<Rightarrow> (u32 \<Rightarrow> u8 list) \<Rightarrow> (u32 \<times> u8 list) list" where
  "disk_log start c = map (\<lambda>i. (get32 (4 + 4 * i) (c start), c (start + of_nat (Suc i)))) [0..<int_count (get32 0 (c start))]"

definition log_area :: "u32 \<Rightarrow> u32 \<Rightarrow> bool" where
  "log_area start m \<longleftrightarrow> (\<exists>i \<le> LOGSIZE. m = start + of_nat i)"

definition disk_log_ok :: "u32 \<Rightarrow> (u32 \<Rightarrow> u8 list) \<Rightarrow> bool" where
  "disk_log_ok start c \<longleftrightarrow> get32 0 (c start) = of_nat (int_count (get32 0 (c start))) \<and> int_count (get32 0 (c start)) \<le> LOGSIZE \<and>
     distinct (map fst (disk_log start c)) \<and> (\<forall>m \<in> fst ` set (disk_log start c). m < 2 ^ 31 \<and> \<not> log_area start m)"

lemma initlog_ok:
  assumes inv: "binv s" and q: "quiet (bview s)" and sp: "1 < v_spare (bview s)" and st: "unat start + LOGSIZE < 2 ^ 31"
    and len: "length (lg_block s) = LOGSIZE" and ok: "disk_log_ok start (v_cont (bview s))"
  defines "v \<equiv> bview s"
  shows "returns (initlog ROOTDEV start nlog s) (\<lambda>_ t. binv t \<and> lg_n t = 0 \<and> (\<exists>l. v_dwrites (bview t) =
      v_dwrites v @ sectors (disk_log start (v_cont v) @ [(start, fill_head 0 l (v_cont v start))]) \<and>
    v_disk (bview t) = replay (sectors (disk_log start (v_cont v) @ [(start, fill_head 0 l (v_cont v start))])) (v_disk v)))"
proof -
  let ?s = "s\<lparr>lg_start := start, lg_size := nlog, lg_dev := ROOTDEV\<rparr>"
  define hb where "hb = v_cont v start"
  define n where "n = get32 0 hb"
  define l where "l = map (\<lambda>i. get32 (4 + 4 * i) hb) [0..<int_count n] @ drop (int_count n) (lg_block s)"
  have n: "int_count n \<le> LOGSIZE" "n = of_nat (int_count n)" using ok by (simp_all add: disk_log_ok_def n_def hb_def v_def)
  have s0: "start < 2 ^ 31" using st by (simp add: word_less_nat_alt)
  have "returns (read_head ?s) (\<lambda>_ t. binv t \<and> lg_n t = n \<and> lg_block t = l \<and>
     bview t = (bview ?s)\<lparr>v_rest := (v_rest (bview ?s))\<lparr>lg_n := n, lg_block := l\<rparr>\<rparr>)"
    using read_head_ok [of ?s] inv q s0 n(1) by (simp add: bview_lg quiet_def n_def hb_def l_def v_def)
  then obtain t1 where t1: "read_head ?s = Ret () t1" "binv t1" "lg_n t1 = n" "lg_block t1 = l"
    "bview t1 = v\<lparr>v_rest := (v_rest (bview ?s))\<lparr>lg_n := n, lg_block := l\<rparr>\<rparr>"
    by (auto simp: returns_iff bview_lg v_def)
  have ls: "lg_start t1 = start" "lg_dev t1 = ROOTDEV"
  proof -
    have "v_rest (bview t1) = v_rest (bview (?s\<lparr>lg_n := n, lg_block := l\<rparr>))" by (simp add: t1(5) bview_lg)
    from rest_log [OF this] show "lg_start t1 = start" "lg_dev t1 = ROOTDEV" by simp_all
  qed
  have wf: "log_wf t1" using n st len by (simp add: log_wf_def ls t1 l_def)
  have la: "laddr t1 i = start + of_nat i" for i by (simp add: laddr_def ls)
  have hm: "homes t1 = map fst (disk_log start (v_cont v))"
    by (simp add: homes_def t1 l_def disk_log_def n_def hb_def comp_def)
  have hws: "home_ws t1 = disk_log start (v_cont v)"
    by (rule nth_equalityI) (simp_all add: home_ws_def disk_log_def t1(3,5) n_def hb_def hm la)
  have hok: "homes_ok t1" using ok by (auto simp: homes_ok_def hm disk_log_ok_def v_def in_log_def log_area_def la)
  have q1: "quiet (bview t1)" "1 < v_spare (bview t1)" using q sp by (simp_all add: t1(5) quiet_def v_def)
  obtain t2 k where t2: "install_trans True t1 = Ret () t2" "binv t2"
    "bview t2 = wrs (disk_log start (v_cont v)) ((bview t1)\<lparr>v_ref := v_ref (bview t1), v_spare := v_spare (bview t1) + k\<rparr>)"
    using install_trans_ok [OF t1(2) q1(1) wf hok, of True] q1(2) by (auto simp: returns_iff unpinned_def hws)
  then have "v_rest (bview t2) = v_rest (bview t1)" by simp
  note r2 = rest_wf [OF this] rest_log [OF this]
  have "start \<notin> fst ` set (disk_log start (v_cont v))"
    using ok by (auto simp: disk_log_ok_def v_def log_area_def dest!: bspec dest: spec [of _ 0])
  then have hc: "v_cont (bview t2) start = hb" by (simp add: t2(3) v_cont_other t1(5) hb_def)
  have q3: "quiet (bview (t2\<lparr>lg_n := 0\<rparr>))" using q1 by (auto simp: bview_lg t2(3) quiet_def)
  have wf3: "log_wf (t2\<lparr>lg_n := 0\<rparr>)" using wf r2 by (simp add: log_wf_def int_count_def)
  obtain t3 where t3: "write_head (t2\<lparr>lg_n := 0\<rparr>) = Ret () t3" "binv t3"
    "bview t3 = wr_v (start, fill_head 0 l hb) (bview (t2\<lparr>lg_n := 0\<rparr>))"
    using write_head_ok [OF _ q3 wf3] t2(2) hc by (auto simp: returns_iff r2 ls t1 bview_lg)
  have "initlog ROOTDEV start nlog s = Ret () t3"
    using t1(1) t2(1) t3(1) by (simp add: initlog_def recover_from_log_def params)
  moreover have "v_rest (bview t3) = v_rest (bview (t2\<lparr>lg_n := 0\<rparr>))" by (simp add: t3(3) wr_v_def)
  from rest_log(6) [OF this] have "lg_n t3 = 0" by simp
  moreover have "v_dwrites (bview t3) = v_dwrites v @ sectors (disk_log start (v_cont v) @ [(start, fill_head 0 l (v_cont v start))])"
    by (simp add: t3(3) wr_v_def bview_lg t2(3) t1(5) hb_def)
  moreover have "v_disk (bview t3) = replay (sectors (disk_log start (v_cont v) @ [(start, fill_head 0 l (v_cont v start))])) (v_disk v)"
    by (simp add: t3(3) wr_v_def bview_lg t2(3) t1(5) hb_def replay_append)
  ultimately show ?thesis using t3(2) by auto
qed

section \<open>Crashes\<close>

lemma fill_head_get:
  assumes "length hb = BSIZE" "int_count n \<le> LOGSIZE"
  shows "length (fill_head n bl hb) = BSIZE" "get32 0 (fill_head n bl hb) = n"
    "i < int_count n \<Longrightarrow> get32 (4 + 4 * i) (fill_head n bl hb) = bl ! i"
proof -
  have "length (fold (\<lambda>i hb. put32 (4 + 4 * i) (bl ! i) hb) [0..<k] (put32 0 n hb)) = BSIZE \<and>
    get32 0 (fold (\<lambda>i hb. put32 (4 + 4 * i) (bl ! i) hb) [0..<k] (put32 0 n hb)) = n \<and>
    (\<forall>i < k. get32 (4 + 4 * i) (fold (\<lambda>i hb. put32 (4 + 4 * i) (bl ! i) hb) [0..<k] (put32 0 n hb)) = bl ! i)"
    if "k \<le> LOGSIZE" for k
    using that
  proof (induction k)
    case 0
    then show ?case using assms(1) by (simp add: params)
  next
    case (Suc k)
    let ?f = "fold (\<lambda>i hb. put32 (4 + 4 * i) (bl ! i) hb) [0..<k] (put32 0 n hb)"
    from Suc have IH: "length ?f = BSIZE" "get32 0 ?f = n" "\<And>i. i < k \<Longrightarrow> get32 (4 + 4 * i) ?f = bl ! i" by auto
    have k: "4 + 4 * k + 4 \<le> length ?f" using Suc.prems by (simp add: IH(1) params)
    have "get32 (4 + 4 * i) (put32 (4 + 4 * k) (bl ! k) ?f) = bl ! i" if "i < Suc k" for i
      using that k IH(3) [of i] by (cases "i = k") auto
    then show ?case using IH k by simp
  qed
  from this [OF assms(2)] show "length (fill_head n bl hb) = BSIZE" "get32 0 (fill_head n bl hb) = n"
    "i < int_count n \<Longrightarrow> get32 (4 + 4 * i) (fill_head n bl hb) = bl ! i"
    by (simp_all add: fill_head_def)
qed

text \<open>The blocks of a disk.\<close>

definition blocks :: "(u64 \<Rightarrow> u8 list) \<Rightarrow> u32 \<Rightarrow> u8 list" where
  "blocks d m = (if m < 2 ^ 31 then d (sector_of m) else [])"

lemma blocks_replay:
  assumes "\<forall>m \<in> fst ` set ws. m < 2 ^ 31"
  shows "blocks (replay (sectors ws) d) = replay ws (blocks d)"
  using assms
proof (induction ws arbitrary: d)
  case (Cons w ws)
  obtain n x where w: "w = (n, x)" by (cases w)
  have "blocks (d(sector_of n := x)) = (blocks d)(n := x)"
    using Cons.prems sector_of_inj by (auto simp: blocks_def fun_eq_iff w)
  then show ?case using Cons by (simp add: w)
qed simp

lemma sectors_take: "take p (sectors ws) = sectors (take p ws)"
  by (simp add: sectors_def take_map)

definition booted :: "(u64 \<Rightarrow> u8 list) \<Rightarrow> 'a lstate_scheme \<Rightarrow> bool" where
  "booted d b \<longleftrightarrow> binv b \<and> quiet (bview b) \<and> 1 < v_spare (bview b) \<and> (\<forall>m. v_ref (bview b) m = 0) \<and>
     length (lg_block b) = LOGSIZE \<and> disk b = d"

lemma booted_cont: "booted d b \<Longrightarrow> v_cont (bview b) = blocks d"
proof
  fix m assume b: "booted d b"
  show "v_cont (bview b) m = blocks d m"
  proof (cases "m < 2 ^ 31")
    case True
    then have "v_cont (bview b) m = v_disk (bview b) (sector_of m)"
      using b by (intro bio.clean_law) (auto simp: booted_def)
    then show ?thesis using True b by (simp add: blocks_def booted_def bview_def)
  qed (simp add: bview_def blocks_def)
qed

lemma recovery_blocks:
  assumes b: "booted d b" and st: "unat start + LOGSIZE < 2 ^ 31" and ok: "disk_log_ok start (blocks d)"
  shows "returns (initlog ROOTDEV start nlog b) (\<lambda>_ u. \<forall>m < 2 ^ 31. \<not> log_area start m \<longrightarrow>
     blocks (disk u) m = replay (disk_log start (blocks d)) (blocks d) m)"
proof -
  note bc = booted_cont [OF b]
  have s0: "start < 2 ^ 31" using st by (simp add: word_less_nat_alt)
  have "returns (initlog ROOTDEV start nlog b) (\<lambda>_ t. binv t \<and> lg_n t = 0 \<and> (\<exists>l. v_dwrites (bview t) =
      v_dwrites (bview b) @ sectors (disk_log start (v_cont (bview b)) @ [(start, fill_head 0 l (v_cont (bview b) start))]) \<and>
    v_disk (bview t) = replay (sectors (disk_log start (v_cont (bview b)) @ [(start, fill_head 0 l (v_cont (bview b) start))])) (v_disk (bview b))))"
    by (rule initlog_ok) (use b st ok bc in \<open>auto simp: booted_def\<close>)
  then show ?thesis
  proof (rule returns_mono)
    fix x u
    assume "binv u \<and> lg_n u = 0 \<and> (\<exists>l. v_dwrites (bview u) =
      v_dwrites (bview b) @ sectors (disk_log start (v_cont (bview b)) @ [(start, fill_head 0 l (v_cont (bview b) start))]) \<and>
    v_disk (bview u) = replay (sectors (disk_log start (v_cont (bview b)) @ [(start, fill_head 0 l (v_cont (bview b) start))])) (v_disk (bview b)))"
    then obtain l where "v_disk (bview u) = replay (sectors (disk_log start (blocks d) @ [(start, fill_head 0 l (blocks d start))])) (v_disk (bview b))"
      using bc by auto
    then have "disk u = replay (sectors (disk_log start (blocks d) @ [(start, fill_head 0 l (blocks d start))])) d"
      using b by (simp add: bview_def booted_def)
    moreover have "\<forall>m \<in> fst ` set (disk_log start (blocks d) @ [(start, fill_head 0 l (blocks d start))]). m < 2 ^ 31"
      using ok s0 by (auto simp: disk_log_ok_def)
    ultimately have "blocks (disk u) = replay (disk_log start (blocks d) @ [(start, fill_head 0 l (blocks d start))]) (blocks d)"
      using blocks_replay by metis
    moreover have "m \<noteq> start" if "\<not> log_area start m" for m using that by (auto simp: log_area_def dest: spec [of _ 0])
    ultimately show "\<forall>m < 2 ^ 31. \<not> log_area start m \<longrightarrow> blocks (disk u) m = replay (disk_log start (blocks d)) (blocks d) m"
      by (auto simp: replay_append)
  qed
qed

definition commit_ready :: "'a lstate_scheme \<Rightarrow> bool" where
  "commit_ready s \<longleftrightarrow> binv s \<and> quiet (bview s) \<and> log_wf s \<and> homes_ok s \<and> 0 < int_count (lg_n s) \<and>
     (\<forall>m \<in> set (homes s). 0 < v_ref (bview s) m) \<and>
     v_ref (bview s) (lg_start s) = 0 \<and> length (bcontent s (lg_start s)) = BSIZE \<and> get32 0 (bcontent s (lg_start s)) = 0 \<and>
     (\<forall>m < 2 ^ 31. m \<notin> set (homes s) \<longrightarrow> \<not> log_area (lg_start s) m \<longrightarrow> bcontent s m = disk s (sector_of m))"

lemma in_log_area: "in_log s m = log_area (lg_start s) m"
  by (simp add: in_log_def log_area_def laddr_def)

lemma area_start: "log_area start start"
  by (auto simp: log_area_def intro!: exI [of _ 0])

lemma commit_ws_small:
  assumes "commit_ready s"
  shows "\<forall>m \<in> fst ` set (commit_ws s). m < 2 ^ 31"
proof -
  have wf: "log_wf s" and ok: "homes_ok s" using assms by (auto simp: commit_ready_def)
  have "lg_start s < 2 ^ 31" using laddr_ok(1) [OF wf, of 0] by (simp add: laddr_0)
  moreover have "m < 2 ^ 31" if "m \<in> fst ` set (log_ws s)" for m
    using log_ws_addr [OF wf that] laddr_ok(1) [OF wf] by auto
  moreover have "m < 2 ^ 31" if "m \<in> set (homes s)" for m using ok that by (auto simp: homes_ok_def)
  ultimately show ?thesis unfolding commit_ws_def by (auto simp: image_Un image_image)
qed

lemma int_count_0 [simp]: "int_count 0 = 0"
  by (simp add: int_count_def)

lemma empty_log: "get32 0 (c start) = 0 \<Longrightarrow> disk_log start c = [] \<and> disk_log_ok start c"
  by (simp add: disk_log_def disk_log_ok_def)

text \<open>Before the header is written the disk's log is empty; after it, it is the whole transaction.\<close>

lemma crash_before:
  assumes r: "commit_ready s" and p: "p \<le> int_count (lg_n s)"
  defines "c \<equiv> replay (take p (commit_ws s)) (blocks (disk s))"
  shows "disk_log (lg_start s) c = []" "disk_log_ok (lg_start s) c"
    "\<not> log_area (lg_start s) m \<Longrightarrow> c m = blocks (disk s) m"
proof -
  have wf: "log_wf s" using r by (simp add: commit_ready_def)
  have "length (log_ws s) = int_count (lg_n s)" by (simp add: log_ws_def)
  then have c: "c = replay (take p (log_ws s)) (blocks (disk s))" using p by (simp add: c_def commit_ws_def)
  have nl: "c m = blocks (disk s) m" if "m \<notin> fst ` set (log_ws s)" for m
    unfolding c by (rule replay_other) (use that in \<open>auto dest: in_set_takeD\<close>)
  show "c m = blocks (disk s) m" if "\<not> log_area (lg_start s) m" for m
    using that log_ws_in_log [OF wf, of m] nl by (auto simp: in_log_area)
  have "lg_start s \<notin> fst ` set (log_ws s)"
  proof
    assume "lg_start s \<in> fst ` set (log_ws s)"
    then obtain i where "0 < i" "i \<le> LOGSIZE" "lg_start s = laddr s i" using log_ws_addr [OF wf] by blast
    then show False using laddr_ok(2) [OF wf, of 0 i] by (simp add: laddr_0)
  qed
  then have "c (lg_start s) = blocks (disk s) (lg_start s)" by (rule nl)
  moreover have s0: "lg_start s < 2 ^ 31" using laddr_ok(1) [OF wf, of 0] by (simp add: laddr_0)
  moreover have "bcontent s (lg_start s) = disk s (sector_of (lg_start s))"
    using bio.clean_law [of s "lg_start s"] r s0 by (simp add: commit_ready_def bview_def)
  ultimately have "get32 0 (c (lg_start s)) = 0" using r by (simp add: commit_ready_def blocks_def)
  then show "disk_log (lg_start s) c = []" "disk_log_ok (lg_start s) c" using empty_log by auto
qed

lemma crash_after:
  assumes r: "commit_ready s" and p: "int_count (lg_n s) < p"
  defines "c \<equiv> replay (take p (commit_ws s)) (blocks (disk s))"
  shows "disk_log_ok (lg_start s) c"
    "\<not> log_area (lg_start s) m \<Longrightarrow> m < 2 ^ 31 \<Longrightarrow> replay (disk_log (lg_start s) c) c m = bcontent s m"
proof -
  let ?n = "int_count (lg_n s)" and ?hw = "map (\<lambda>m. (m, v_cont (bview s) m)) (homes s)"
  have wf: "log_wf s" and ok: "homes_ok s" using r by (auto simp: commit_ready_def)
  have ll: "length (log_ws s) = ?n" "length (homes s) = ?n" using wf by (simp_all add: log_ws_def length_homes)
  have hb: "length (v_cont (bview s) (lg_start s)) = BSIZE"
    using r laddr_ok(1) [OF wf, of 0] by (simp add: commit_ready_def bview_def laddr_0)
  have cnt: "?n \<le> LOGSIZE" using wf by (simp add: log_wf_def)
  note fh = fill_head_get [OF hb cnt, where bl = "lg_block s", folded head_of_def]
  have nh: "lg_start s \<notin> set (homes s)" using ok area_start by (auto simp: homes_ok_def in_log_area)
  have vc: "v_cont (bview s) m = bcontent s m" if "m < 2 ^ 31" for m using that by (simp add: bview_def)
  have clean: "blocks (disk s) m = bcontent s m" if "m < 2 ^ 31" "m \<notin> set (homes s)" "\<not> log_area (lg_start s) m" for m
    using r that by (simp add: commit_ready_def blocks_def)
  have final: "replay ?hw d m = bcontent s m"
    if m: "m < 2 ^ 31" "\<not> log_area (lg_start s) m" and d: "m \<notin> set (homes s) \<Longrightarrow> d m = blocks (disk s) m" for d m
  proof (cases "m \<in> set (homes s)")
    case True
    then have "(m, v_cont (bview s) m) \<in> set ?hw" by auto
    moreover have "distinct (map fst ?hw)" using ok by (simp add: homes_ok_def comp_def)
    ultimately show ?thesis using replay_in vc m(1) by metis
  next
    case False
    then show ?thesis using d clean m by (simp add: replay_other image_image)
  qed
  have lw: "m \<notin> fst ` set (log_ws s)" if "\<not> log_area (lg_start s) m" for m
    using that log_ws_in_log [OF wf] by (auto simp: in_log_area)
  have "disk_log_ok (lg_start s) c \<and> (\<not> log_area (lg_start s) m \<longrightarrow> m < 2 ^ 31 \<longrightarrow> replay (disk_log (lg_start s) c) c m = bcontent s m)" for m
  proof (cases "p \<le> ?n + 1 + ?n")
    case True
    define k where "k = p - Suc ?n"
    have c: "c = replay (take k ?hw) (replay (log_ws s @ [(lg_start s, head_of s)]) (blocks (disk s)))"
      using p True ll by (simp add: c_def commit_ws_def k_def take_Cons' replay_append)
    have tk: "m \<notin> fst ` set (take k ?hw)" if "m \<notin> set (homes s)" for m
      using that by (auto dest: in_set_takeD)
    have cs: "c (lg_start s) = head_of s" using tk [OF nh] by (simp add: c replay_other replay_append)
    have cl: "c (laddr s (Suc i)) = v_cont (bview s) (homes s ! i)" if i: "i < ?n" for i
    proof -
      have "in_log s (laddr s (Suc i))" using i cnt by (auto simp: in_log_def intro!: exI [of _ "Suc i"])
      then have "laddr s (Suc i) \<notin> set (homes s)" using ok by (auto simp: homes_ok_def)
      moreover have "laddr s (Suc i) \<noteq> lg_start s" using laddr_ok(2) [OF wf, of 0 "Suc i"] i cnt by (auto simp: laddr_0)
      moreover have "v_cont (wrs (log_ws s) ((bview s)\<lparr>v_cont := blocks (disk s)\<rparr>)) (laddr s (Suc i)) = v_cont (bview s) (homes s ! i)"
        by (rule v_cont_log_ws [OF wf i])
      then have "replay (log_ws s) (blocks (disk s)) (laddr s (Suc i)) = v_cont (bview s) (homes s ! i)" by (simp add: v_cont_wrs)
      ultimately show ?thesis using tk by (simp add: c replay_other replay_append)
    qed
    have dl: "disk_log (lg_start s) c = ?hw"
    proof (rule nth_equalityI)
      fix i assume "i < length (disk_log (lg_start s) c)"
      then have i: "i < ?n" by (simp add: disk_log_def cs fh)
      then show "disk_log (lg_start s) c ! i = ?hw ! i"
        using cl [OF i] fh(3) [OF i] homes_nth(1) [OF wf ok i] ll by (simp add: disk_log_def cs fh laddr_Suc add.commute add.left_commute)
    qed (simp add: disk_log_def cs fh ll)
    have "disk_log_ok (lg_start s) c"
      using ok wf by (auto simp: disk_log_ok_def cs fh dl homes_ok_def in_log_area log_wf_def comp_def)
    moreover have "c m = blocks (disk s) m" if "\<not> log_area (lg_start s) m" "m \<notin> set (homes s)"
      using that tk lw area_start by (auto simp: c replay_other replay_append)
    ultimately show ?thesis using final by (auto simp: dl)
  next
    case False
    then have c: "c = replay (log_ws s @ [(lg_start s, head_of s)] @ ?hw @ [(lg_start s, fill_head 0 (lg_block s) (head_of s))]) (blocks (disk s))"
      using ll by (simp add: c_def commit_ws_def)
    have "get32 0 (c (lg_start s)) = 0"
      using fill_head_get(2) [of "head_of s" 0] fh(1) by (simp add: c replay_append)
    then have e: "disk_log (lg_start s) c = [] \<and> disk_log_ok (lg_start s) c" by (rule empty_log)
    moreover have "c m = bcontent s m" if m: "\<not> log_area (lg_start s) m" "m < 2 ^ 31"
    proof -
      have "m \<noteq> lg_start s" using m area_start by auto
      then show ?thesis using final [OF m(2,1), of "replay (log_ws s @ [(lg_start s, head_of s)]) (blocks (disk s))"] lw m
        by (simp add: c replay_append replay_other)
    qed
    ultimately show ?thesis by simp
  qed
  then show "disk_log_ok (lg_start s) c"
    "\<not> log_area (lg_start s) m \<Longrightarrow> m < 2 ^ 31 \<Longrightarrow> replay (disk_log (lg_start s) c) c m = bcontent s m" by auto
qed

section \<open>Recording blocks\<close>

lemma sint_small: "k < 2 ^ 31 \<Longrightarrow> sint (of_nat k :: u32) = int k"
  by (simp add: signed_of_nat signed_take_bit_int_eq_self)

lemma int_count_of_nat: "k < 2 ^ 31 \<Longrightarrow> int_count (of_nat k) = k"
  by (simp add: int_count_def sint_small)

lemma small_signed: "a < 2 ^ 31 \<Longrightarrow> b < 2 ^ 31 \<Longrightarrow> (of_nat a \<le>s (of_nat b :: u32)) = (a \<le> b)"
  by (simp add: word_sle_eq sint_small)

lemma log_write_ok:
  assumes inv: "binv s" and at: "at s b m" and wf: "log_wf s" and nw: "v_ref (bview s) m < 2 ^ 31"
    and room: "int_count (lg_n s) < LOGSIZE" "lg_n s <s lg_size s - 1" and out: "\<not> lg_outstanding s <s 1"
  shows "returns (log_write b s) (\<lambda>_ t. binv t \<and> at t b m \<and> log_wf t \<and>
     homes t = (if m \<in> set (homes s) then homes s else homes s @ [m]) \<and>
     (\<exists>r. bview t = (bview s)\<lparr>v_ref := (v_ref (bview s))(m := v_ref (bview s) m + (if m \<in> set (homes s) then 0 else 1)), v_rest := r\<rparr>) \<and>
     lg_start t = lg_start s \<and> lg_outstanding t = lg_outstanding s \<and> lg_size t = lg_size s)"
proof -
  define k where "k = int_count (lg_n s)"
  have n: "lg_n s = of_nat k" "length (lg_block s) = LOGSIZE" "k \<le> LOGSIZE" using wf by (simp_all add: log_wf_def k_def)
  have g: "\<not> of_nat LOGSIZE \<le>s lg_n s" "\<not> lg_size s - 1 \<le>s lg_n s"
  proof -
    have "k < LOGSIZE" "LOGSIZE < 2 ^ 31" using room by (simp_all add: k_def params)
    then show "\<not> of_nat LOGSIZE \<le>s lg_n s" unfolding n(1) by (subst small_signed) simp_all
    show "\<not> lg_size s - 1 \<le>s lg_n s" using room(2) by (simp add: signed.not_le)
  qed
  have kl: "k < LOGSIZE" using room by (simp add: k_def)
  have hs: "homes s = take k (lg_block s)" by (simp add: homes_def k_def)
  have bn: "b_blockno (bufs s ! b) = m" using at by (simp add: at_def caches_def)
  show ?thesis
  proof (cases "first_slot (\<lambda>x. x = m) (take k (lg_block s))")
    case (Some i)
    then have i: "i < k" "lg_block s ! i = m" using n by (auto simp: first_slot_Some)
    then have mem: "m \<in> set (homes s)" using n(2,3) by (auto simp: hs in_set_conv_nth)
    have "log_write b s = Ret () (s\<lparr>lg_block := (lg_block s)[i := m]\<rparr>)"
      using g out i Some by (simp add: log_write_def bn k_def [symmetric])
    moreover have "(lg_block s)[i := m] = lg_block s" using i by (metis list_update_id)
    moreover have "s\<lparr>lg_block := lg_block s\<rparr> = s" by simp
    ultimately show ?thesis using inv at wf mem by (auto intro!: exI [of _ "v_rest (bview s)"])
  next
    case None
    then have nm: "m \<notin> set (homes s)" using n(2,3) by (auto simp: first_slot_None_nth hs in_set_conv_nth)
    define u where "u = s\<lparr>lg_block := (lg_block s)[k := m]\<rparr>"
    have uf: "bufs u = bufs s" "disk u = disk s" "dwrites u = dwrites s" "who u = who s"
      by (simp_all add: u_def who_def myproc_def cong: option.case_cong if_cong)
    note fr = bcache_frame [OF uf]
    have u: "binv u" "at u b m" using inv at fr by simp_all
    have "v_ref (bview u) = v_ref (bview s)" by (subst fr(3)) simp
    with bpin_spec [OF u] nw have p: "binv (bpin b u)" "at (bpin b u) b m"
      "bview (bpin b u) = (bview u)\<lparr>v_ref := (v_ref (bview s))(m := v_ref (bview s) m + 1)\<rparr>" by simp_all
    define t where "t = (bpin b u)\<lparr>lg_n := lg_n s + 1\<rparr>"
    have "log_write b s = Ret () t"
      using g out None by (simp add: log_write_def bn k_def [symmetric] t_def u_def)
    moreover have tf: "bufs t = bufs (bpin b u)" "disk t = disk (bpin b u)" "dwrites t = dwrites (bpin b u)" "who t = who (bpin b u)"
      by (simp_all add: t_def)
    note ft = bcache_frame [OF tf]
    have "binv t" "at t b m" using p ft by simp_all
    moreover have lg: "lg_n t = of_nat (Suc k)" "lg_block t = (lg_block s)[k := m]" "lg_start t = lg_start s" "lg_dev t = lg_dev s"
      "lg_outstanding t = lg_outstanding s" "lg_size t = lg_size s"
      by (simp_all add: t_def u_def bpin_def upd_buf_def n(1))
    moreover have ck: "int_count (of_nat (Suc k)) = Suc k" using kl by (intro int_count_of_nat) (simp add: params)
    then have "log_wf t" using wf kl unfolding log_wf_def lg by simp
    moreover have "homes t = homes s @ [m]"
      unfolding homes_def [of t] lg ck hs using kl n(2) by (simp add: take_Suc_conv_app_nth)
    moreover have "bview t = (bview s)\<lparr>v_ref := (v_ref (bview s))(m := v_ref (bview s) m + 1), v_rest := v_rest (bview t)\<rparr>"
    proof -
      have "bview t = (bview (bpin b u))\<lparr>v_rest := v_rest (bview t)\<rparr>" by (rule ft(3))
      also have "\<dots> = ((bview u)\<lparr>v_ref := (v_ref (bview s))(m := v_ref (bview s) m + 1)\<rparr>)\<lparr>v_rest := v_rest (bview t)\<rparr>" unfolding p(3) ..
      also have "\<dots> = (bview s)\<lparr>v_ref := (v_ref (bview s))(m := v_ref (bview s) m + 1), v_rest := v_rest (bview t)\<rparr>"
        by (subst fr(3)) simp
      finally show ?thesis .
    qed
    ultimately show ?thesis using nm by auto
  qed
qed

text \<open>
  C1. Commits are atomic (kernel/log.c). Let a transaction be ready: its blocks are pinned in the
  cache, every other block outside the log agrees with the disk, and the log on disk is empty. Then
  \<open>commit\<close> returns, and if the machine crashes after any prefix of its disk writes, \<open>initlog\<close> at
  the next boot returns and leaves every block outside the log as it was before the transaction
  when at most the log blocks were written, and with all its updates when the header was written:
  all of the transaction, or none of it.
\<close>

theorem commit_crash_safe:
  assumes "commit_ready s"
  shows "returns (commit s) (\<lambda>_ t. \<exists>ws. dwrites t = dwrites s @ ws \<and> disk t = replay ws (disk s) \<and>
    (\<forall>p b. booted (replay (take p ws) (disk s)) b \<longrightarrow>
      returns (initlog ROOTDEV (lg_start s) nlog b) (\<lambda>_ u. \<forall>m < 2 ^ 31. \<not> log_area (lg_start s) m \<longrightarrow>
        disk u (sector_of m) = (if p \<le> int_count (lg_n s) then disk s (sector_of m) else bcontent s m))))"
proof -
  have c: "binv s" "quiet (bview s)" "log_wf s" "homes_ok s" "\<forall>m \<in> set (homes s). 0 < v_ref (bview s) m" "0 < int_count (lg_n s)"
    using assms by (simp_all add: commit_ready_def)
  have st: "unat (lg_start s) + LOGSIZE < 2 ^ 31" using c(3) by (simp add: log_wf_def)
  let ?ws = "sectors (commit_ws s)"
  have rec: "returns (initlog ROOTDEV (lg_start s) nlog b) (\<lambda>_ u. \<forall>m < 2 ^ 31. \<not> log_area (lg_start s) m \<longrightarrow>
      disk u (sector_of m) = (if p \<le> int_count (lg_n s) then disk s (sector_of m) else bcontent s m))"
    if b: "booted (replay (take p ?ws) (disk s)) b" for p b
  proof -
    let ?c = "replay (take p (commit_ws s)) (blocks (disk s))"
    have bl: "blocks (replay (take p ?ws) (disk s)) = ?c"
      unfolding sectors_take by (rule blocks_replay) (use commit_ws_small [OF assms] in \<open>auto dest: in_set_takeD\<close>)
    have ok: "disk_log_ok (lg_start s) ?c"
      using crash_before(2) [OF assms] crash_after(1) [OF assms] by (cases "p \<le> int_count (lg_n s)") auto
    have "replay (disk_log (lg_start s) ?c) ?c m = (if p \<le> int_count (lg_n s) then disk s (sector_of m) else bcontent s m)"
      if "m < 2 ^ 31" "\<not> log_area (lg_start s) m" for m
      using that crash_before(1,3) [OF assms] crash_after(2) [OF assms]
      by (cases "p \<le> int_count (lg_n s)") (auto simp: blocks_def)
    with recovery_blocks [OF b st, of nlog, unfolded bl, OF ok] show ?thesis
      by (auto simp: blocks_def elim!: returns_mono)
  qed
  from commit_ok [OF c] show ?thesis
  proof (rule returns_mono)
    fix x t
    assume "binv t \<and> lg_n t = 0 \<and> (\<exists>v. unpinned False (homes s) (bview s) v \<and>
      bview t = (wrs (commit_ws s) v)\<lparr>v_rest := (v_rest (bview s))\<lparr>lg_n := 0\<rparr>\<rparr>)"
    then obtain v where v: "unpinned False (homes s) (bview s) v" "bview t = (wrs (commit_ws s) v)\<lparr>v_rest := (v_rest (bview s))\<lparr>lg_n := 0\<rparr>\<rparr>" by auto
    have "v_dwrites (bview t) = dwrites s @ ?ws" "v_disk (bview t) = replay ?ws (disk s)"
      using v by (auto simp: unpinned_def bview_def)
    then have "dwrites t = dwrites s @ ?ws" "disk t = replay ?ws (disk s)" by (simp_all add: bview_def)
    with rec show "\<exists>ws. dwrites t = dwrites s @ ws \<and> disk t = replay ws (disk s) \<and>
      (\<forall>p b. booted (replay (take p ws) (disk s)) b \<longrightarrow>
        returns (initlog ROOTDEV (lg_start s) nlog b) (\<lambda>_ u. \<forall>m < 2 ^ 31. \<not> log_area (lg_start s) m \<longrightarrow>
          disk u (sector_of m) = (if p \<le> int_count (lg_n s) then disk s (sector_of m) else bcontent s m)))" by blast
  qed
qed

text \<open>A boot disk of zeroes, one open operation, and a transaction that logs block 100.\<close>

definition demo_lstate0 :: lstate where
  "demo_lstate0 = bstate.extend demo_bstate0 (lstate.fields 2 30 1 False ROOTDEV 0 (replicate LOGSIZE 0))"

lemma demo_lstate0_fields:
  "bufs demo_lstate0 = bufs demo_bstate0" "disk demo_lstate0 = (\<lambda>_. replicate BSIZE 0)" "who demo_lstate0 = Some 2"
  "lg_start demo_lstate0 = 2" "lg_size demo_lstate0 = 30" "lg_outstanding demo_lstate0 = 1" "lg_dev demo_lstate0 = ROOTDEV"
  "lg_n demo_lstate0 = 0" "lg_block demo_lstate0 = replicate LOGSIZE 0"
  by (simp_all add: demo_lstate0_def lstate.defs bstate.defs demo_bstate0_def pstate.defs demo_pstate_def who_def myproc_def demo_proc_def)

definition demo_tx :: "(unit, lstate) run" where
  "demo_tx = bnd (bread ROOTDEV 100 (binit demo_lstate0)) (\<lambda>b s.
     bnd (log_write b (upd_buf b (\<lambda>x. x\<lparr>b_data := replicate BSIZE 7\<rparr>) s)) (\<lambda>_ s. brelse b s))"

lemma demo_tx_ready: "returns demo_tx (\<lambda>_ s. commit_ready s \<and> homes s = [100])"
proof -
  let ?s = "binit demo_lstate0" and ?d = "replicate BSIZE 7"
  have len: "length (bufs demo_lstate0) = Suc NBUF" by (simp add: demo_lstate0_fields demo_bstate0_fields)
  have z: "b_dev (bufs demo_lstate0 ! i) = 0 \<and> \<not> b_valid (bufs demo_lstate0 ! i) \<and> b_refcnt (bufs demo_lstate0 ! i) = 0" if "i < NBUF" for i
    using that by (simp add: demo_lstate0_fields demo_bstate0_fields nth_append del: replicate_Suc)
  note b0 = binv_binit [OF len z]
  note bi = binit_ok(3) [OF len]
  have w: "who ?s = Some 2" and l: "lg_start ?s = 2" "lg_size ?s = 30" "lg_outstanding ?s = 1" "lg_dev ?s = ROOTDEV"
    "lg_n ?s = 0" "lg_block ?s = replicate LOGSIZE 0" and dk: "disk ?s = (\<lambda>_. replicate BSIZE 0)"
    by (subst bi, simp add: demo_lstate0_fields)+
  let ?v = "bview ?s"
  have v0: "v_ref ?v = (\<lambda>_. 0)" "v_held ?v = (\<lambda>_. False)" "v_spare ?v = NBUF" "v_who ?v = Some 2"
    "v_disk ?v = (\<lambda>_. replicate BSIZE 0)" "v_cont ?v = (\<lambda>n. if n < 2 ^ 31 then replicate BSIZE 0 else [])"
    using b0 w dk by (simp_all add: demo_lstate0_fields bview_def cong: if_cong)
  have rdy: "ready ?v 100" by (simp add: ready_def v0 params)
  obtain b t where 1: "bread ROOTDEV 100 ?s = Ret b t" "binv t" "at t b 100"
    "bview t = ?v\<lparr>v_ref := (v_ref ?v)(100 := v_ref ?v 100 + 1), v_held := (v_held ?v)(100 := True),
        v_spare := v_spare ?v - (if v_ref ?v 100 = 0 then 1 else 0)\<rparr>"
    using bio.rd_law [OF conjunct1 [OF b0] rdy] by (auto simp: returns_iff)
  let ?u = "upd_buf b (\<lambda>x. x\<lparr>b_data := ?d\<rparr>) t"
  have 2: "binv ?u" "at ?u b 100" "bview ?u = (bview t)\<lparr>v_cont := (v_cont (bview t))(100 := ?d)\<rparr>"
    using bio.put_law [OF 1(2,3)] by auto
  then have "v_rest (bview ?u) = v_rest ?v" by (simp add: 1(4))
  note ru = rest_log [OF this]
  have ls: "LOGSIZE = 30" by (simp add: params)
  have wf: "log_wf ?u" by (simp add: log_wf_def ru l ls)
  have hu: "homes ?u = []" by (simp add: homes_def ru l)
  obtain w where 3: "log_write b ?u = Ret () w" "binv w" "at w b 100" "log_wf w" "homes w = [100]" "lg_start w = 2"
    "\<exists>r. bview w = (bview ?u)\<lparr>v_ref := (v_ref (bview ?u))(100 := v_ref (bview ?u) 100 + 1), v_rest := r\<rparr>"
  proof -
    have "returns (log_write b ?u) (\<lambda>_ t. binv t \<and> at t b 100 \<and> log_wf t \<and>
     homes t = (if 100 \<in> set (homes ?u) then homes ?u else homes ?u @ [100]) \<and>
     (\<exists>r. bview t = (bview ?u)\<lparr>v_ref := (v_ref (bview ?u))(100 := v_ref (bview ?u) 100 + (if 100 \<in> set (homes ?u) then 0 else 1)), v_rest := r\<rparr>) \<and>
     lg_start t = lg_start ?u \<and> lg_outstanding t = lg_outstanding ?u \<and> lg_size t = lg_size ?u)"
      by (rule log_write_ok [OF 2(1,2) wf]) (simp_all add: ru l ls 2(3) 1(4) v0 word_sless_alt)
    then show thesis by (elim returnsE) (rule that, auto simp: hu ru l)
  qed
  from 3(7) obtain r where vw: "bview w = (bview ?u)\<lparr>v_ref := (v_ref (bview ?u))(100 := v_ref (bview ?u) 100 + 1), v_rest := r\<rparr>" ..
  have "v_ref (bview w) 100 = 2" by (simp add: vw 2(3) 1(4) v0)
  then obtain x where 4: "brelse b w = Ret () x" "binv x"
    "bview x = (bview w)\<lparr>v_ref := (v_ref (bview w))(100 := v_ref (bview w) 100 - 1), v_held := (v_held (bview w))(100 := False),
        v_spare := v_spare (bview w) + (if v_ref (bview w) 100 = 1 then 1 else 0)\<rparr>"
    using bio.rel_law [OF 3(2,3)] by (auto simp: returns_iff)
  then have "v_rest (bview x) = v_rest (bview w)" by simp
  note rx = rest_log [OF this] rest_wf [OF this]
  have vx: "v_ref (bview x) = (\<lambda>_. 0)(100 := 1)" "v_held (bview x) = (\<lambda>_. False)" "v_spare (bview x) = NBUF - 1" "v_who (bview x) = Some 2"
    "v_cont (bview x) = (\<lambda>n. if n < 2 ^ 31 then replicate BSIZE 0 else [])(100 := ?d)" "v_disk (bview x) = (\<lambda>_. replicate BSIZE 0)"
    by (simp_all add: 4(3) vw 2(3) 1(4) v0 fun_eq_iff)
  have area: "\<not> log_area 2 100"
  proof
    assume "log_area 2 100"
    then obtain i where i: "i \<le> LOGSIZE" "100 = (2 + of_nat i :: u32)" by (auto simp: log_area_def)
    have "unat (2 + of_nat i :: u32) = 2 + i" using i(1) by (simp add: unat_word_ariths unat_of_nat params)
    moreover have "unat (100 :: u32) = 100" by simp
    ultimately have "2 + i = 100" using i(2) by metis
    then show False using i(1) by (simp add: params)
  qed
  have "commit_ready x"
  proof -
    have c: "bcontent x m = (if m = 100 then ?d else replicate BSIZE 0)" if "m < 2 ^ 31" for m
      using fun_cong [OF vx(5), of m] that by (auto simp: bview_def split: if_splits)
    have g: "get32 0 (replicate BSIZE 0) = 0" by (simp add: get32_def of_le32_def params)
    have dx: "disk x = (\<lambda>_. replicate BSIZE 0)" using vx(6) by (simp add: bview_def)
    have ho: "homes_ok x" using area by (simp add: homes_ok_def rx 3 in_log_area)
    have "0 < int_count (lg_n x)" using length_homes [OF 3(4)] 3(5) by (simp add: rx)
    then show ?thesis using 4(2) 3 ho c g vx
      by (auto simp: commit_ready_def quiet_def rx dx NBUF_def MAXOPBLOCKS_def)
  qed
  then show ?thesis using 1(1) 3(1,5) 4(1) by (simp add: demo_tx_def rx)
qed

lemma demo_booted: "booted d (binit (demo_lstate0\<lparr>disk := d\<rparr>))"
proof -
  let ?s = "demo_lstate0\<lparr>disk := d\<rparr>"
  have len: "length (bufs ?s) = Suc NBUF" by (simp add: demo_lstate0_fields demo_bstate0_fields)
  have z: "b_dev (bufs ?s ! i) = 0 \<and> \<not> b_valid (bufs ?s ! i) \<and> b_refcnt (bufs ?s ! i) = 0" if "i < NBUF" for i
    using that by (simp add: demo_lstate0_fields demo_bstate0_fields nth_append del: replicate_Suc)
  note b0 = binv_binit [OF len z]
  note bi = binit_ok(3) [OF len]
  have "who ?s = who demo_lstate0" by (simp add: who_def myproc_def cong: option.case_cong if_cong)
  then have "who (binit ?s) = Some 2" "disk (binit ?s) = d" "lg_block (binit ?s) = replicate LOGSIZE 0"
    by (subst bi, simp add: demo_lstate0_fields)+
  then show ?thesis using b0 by (simp add: booted_def quiet_def params bview_def [of "binit ?s"])
qed

theorem commit_crash_safe_witness:
  "returns demo_tx (\<lambda>_ s. returns (commit s) (\<lambda>_ t. \<exists>ws. dwrites t = dwrites s @ ws \<and>
     (\<forall>p. returns (initlog ROOTDEV (lg_start s) 30 (binit (demo_lstate0\<lparr>disk := replay (take p ws) (disk s)\<rparr>)))
       (\<lambda>_ u. disk u (sector_of 100) = (if p \<le> 1 then disk s (sector_of 100) else bcontent s 100)))))"
proof (rule returns_mono [OF demo_tx_ready])
  fix x s assume s: "commit_ready s \<and> homes s = [100]"
  then have "int_count (lg_n s) = 1" "\<not> log_area (lg_start s) 100"
    using length_homes [of s] by (auto simp: commit_ready_def homes_ok_def in_log_area)
  then have one: "returns (initlog ROOTDEV (lg_start s) 30 b) (\<lambda>_ u. disk u (sector_of 100) =
      (if p \<le> 1 then disk s (sector_of 100) else bcontent s 100))"
    if "returns (initlog ROOTDEV (lg_start s) 30 b) (\<lambda>_ u. \<forall>m < 2 ^ 31. \<not> log_area (lg_start s) m \<longrightarrow>
        disk u (sector_of m) = (if p \<le> int_count (lg_n s) then disk s (sector_of m) else bcontent s m))" for p b
    by (intro returns_mono [OF that]) simp
  from commit_crash_safe [OF conjunct1 [OF s], of 30]
  show "returns (commit s) (\<lambda>_ t. \<exists>ws. dwrites t = dwrites s @ ws \<and>
     (\<forall>p. returns (initlog ROOTDEV (lg_start s) 30 (binit (demo_lstate0\<lparr>disk := replay (take p ws) (disk s)\<rparr>)))
       (\<lambda>_ u. disk u (sector_of 100) = (if p \<le> 1 then disk s (sector_of 100) else bcontent s 100))))"
  proof (rule returns_mono, elim exE conjE)
    fix x t ws
    assume "dwrites t = dwrites s @ ws" and b: "\<forall>p (b :: lstate). booted (replay (take p ws) (disk s)) b \<longrightarrow>
      returns (initlog ROOTDEV (lg_start s) 30 b) (\<lambda>_ u. \<forall>m < 2 ^ 31. \<not> log_area (lg_start s) m \<longrightarrow>
        disk u (sector_of m) = (if p \<le> int_count (lg_n s) then disk s (sector_of m) else bcontent s m))"
    moreover have "returns (initlog ROOTDEV (lg_start s) 30 (binit (demo_lstate0\<lparr>disk := replay (take p ws) (disk s)\<rparr>)))
       (\<lambda>_ u. disk u (sector_of 100) = (if p \<le> 1 then disk s (sector_of 100) else bcontent s 100))" for p
      using b demo_booted by (intro one) blast
    ultimately show "\<exists>ws. dwrites t = dwrites s @ ws \<and>
     (\<forall>p. returns (initlog ROOTDEV (lg_start s) 30 (binit (demo_lstate0\<lparr>disk := replay (take p ws) (disk s)\<rparr>)))
       (\<lambda>_ u. disk u (sector_of 100) = (if p \<le> 1 then disk s (sector_of 100) else bcontent s 100)))" by blast
  qed
qed

end
