(* ===== verification/Fs.thy ===== *)
theory Fs
  imports Log
begin

text \<open>
  The file system (kernel/fs.c, kernel/fs.h): the super block, the block allocator, inodes and
  their table, the contents of files, directories and path names. An in-memory inode is named by
  its slot in \<open>itable\<close>; the null pointer is \<open>None\<close>. On-disk structures are bytes of a block, read
  and written at the offsets the C structures have. Messages printed on the console are not part
  of the state. A routine that has to wait for a buffer or for an inode's lock ends in \<open>Sleep\<close>.
\<close>

section \<open>Layout (kernel/fs.h)\<close>

definition ROOTINO :: u32 where [params]: "ROOTINO = 1"
definition FSMAGIC :: u32 where [params]: "FSMAGIC = 0x10203040"
definition NDIRECT :: nat where [params]: "NDIRECT = 12"
definition NINDIRECT :: nat where [params]: "NINDIRECT = BSIZE div 4"
definition MAXFILE :: nat where [params]: "MAXFILE = NDIRECT + NINDIRECT"
definition IPB :: nat where [params]: "IPB = BSIZE div 64"
definition BPB :: nat where [params]: "BPB = BSIZE * 8"
definition DIRSIZ :: nat where [params]: "DIRSIZ = 14"
definition T_DIR :: u16 where [params]: "T_DIR = 1"
definition T_FILE :: u16 where [params]: "T_FILE = 2"
definition T_DEVICE :: u16 where [params]: "T_DEVICE = 3"

record superblock =
  sb_magic :: u32
  sb_size :: u32
  sb_nblocks :: u32
  sb_ninodes :: u32
  sb_nlog :: u32
  sb_logstart :: u32
  sb_inodestart :: u32
  sb_bmapstart :: u32

definition superblock_of :: "u8 list \<Rightarrow> superblock" where
  "superblock_of d = \<lparr>sb_magic = get32 0 d, sb_size = get32 4 d, sb_nblocks = get32 8 d, sb_ninodes = get32 12 d,
     sb_nlog = get32 16 d, sb_logstart = get32 20 d, sb_inodestart = get32 24 d, sb_bmapstart = get32 28 d\<rparr>"

text \<open>The on-disk inode, 64 bytes, at offset \<open>o\<close> of a block.\<close>

record dinode =
  d_type :: u16
  d_major :: u16
  d_minor :: u16
  d_nlink :: u16
  d_size :: u32
  d_addrs :: "u32 list"

definition get_dinode :: "nat \<Rightarrow> u8 list \<Rightarrow> dinode" where
  "get_dinode off d = \<lparr>d_type = get16 off d, d_major = get16 (off + 2) d, d_minor = get16 (off + 4) d,
     d_nlink = get16 (off + 6) d, d_size = get32 (off + 8) d,
     d_addrs = map (\<lambda>i. get32 (off + 12 + 4 * i) d) [0..<Suc NDIRECT]\<rparr>"

definition put_dinode :: "nat \<Rightarrow> dinode \<Rightarrow> u8 list \<Rightarrow> u8 list" where
  "put_dinode off di d =
     fold (\<lambda>i. put32 (off + 12 + 4 * i) (d_addrs di ! i)) [0..<Suc NDIRECT]
       (put32 (off + 8) (d_size di) (put16 (off + 6) (d_nlink di) (put16 (off + 4) (d_minor di)
         (put16 (off + 2) (d_major di) (put16 off (d_type di) d)))))"

text \<open>The in-memory inode (kernel/file.h).\<close>

record inode =
  i_dev :: u32
  i_inum :: u32
  i_ref :: u32
  i_lock :: sleeplock
  i_valid :: bool
  i_type :: u16
  i_major :: u16
  i_minor :: u16
  i_nlink :: u16
  i_size :: u32
  i_addrs :: "u32 list"

record fstate = lstate +
  sb :: superblock
  itable :: "inode list"

definition IBLOCK :: "u32 \<Rightarrow> superblock \<Rightarrow> u32" where
  "IBLOCK i super = i div of_nat IPB + sb_inodestart super"

definition BBLOCK :: "u32 \<Rightarrow> superblock \<Rightarrow> u32" where
  "BBLOCK b super = b div of_nat BPB + sb_bmapstart super"

definition inode_off :: "u32 \<Rightarrow> nat" where
  "inode_off inum = unat (inum mod of_nat IPB) * 64"

definition upd_inode :: "nat \<Rightarrow> (inode \<Rightarrow> inode) \<Rightarrow> 'a fstate_scheme \<Rightarrow> 'a fstate_scheme" where
  "upd_inode ip f s = s\<lparr>itable := (itable s)[ip := f (itable s ! ip)]\<rparr>"

definition bdata :: "'a bstate_scheme \<Rightarrow> nat \<Rightarrow> u8 list" where
  "bdata s b = b_data (bufs s ! b)"

definition set_bdata :: "nat \<Rightarrow> (u8 list \<Rightarrow> u8 list) \<Rightarrow> 'a bstate_scheme \<Rightarrow> 'a bstate_scheme" where
  "set_bdata b f s = upd_buf b (\<lambda>x. x\<lparr>b_data := f (b_data x)\<rparr>) s"

section \<open>Super block and blocks\<close>

definition readsb :: "u32 \<Rightarrow> 'a fstate_scheme \<Rightarrow> (unit, 'a fstate_scheme) run" where
  "readsb dev s =
     bnd (bread dev 1 s) (\<lambda>bp s.
       brelse bp (s\<lparr>sb := superblock_of (bdata s bp)\<rparr>))"

definition fsinit :: "u32 \<Rightarrow> 'a fstate_scheme \<Rightarrow> (unit, 'a fstate_scheme) run" where
  "fsinit dev s =
     bnd (readsb dev s) (\<lambda>_ s.
       if sb_magic (sb s) \<noteq> FSMAGIC then Panic ''invalid file system''
       else initlog dev (sb_logstart (sb s)) (sb_nlog (sb s)) s)"

definition bzero :: "u32 \<Rightarrow> u32 \<Rightarrow> 'a fstate_scheme \<Rightarrow> (unit, 'a fstate_scheme) run" where
  "bzero dev bno s =
     bnd (bread dev bno s) (\<lambda>bp s.
     bnd (log_write bp (set_bdata bp (\<lambda>d. replicate BSIZE 0) s)) (\<lambda>_ s.
     brelse bp s))"

text \<open>Bit \<open>bi\<close> of a block of the bit map.\<close>

definition bit_mask :: "nat \<Rightarrow> u8" where
  "bit_mask bi = push_bit (bi mod 8) 1"

definition in_use :: "u8 list \<Rightarrow> nat \<Rightarrow> bool" where
  "in_use d bi \<longleftrightarrow> (d ! (bi div 8)) AND bit_mask bi \<noteq> 0"

definition mark_used :: "nat \<Rightarrow> u8 list \<Rightarrow> u8 list" where
  "mark_used bi d = d[bi div 8 := (d ! (bi div 8)) OR bit_mask bi]"

definition mark_free :: "nat \<Rightarrow> u8 list \<Rightarrow> u8 list" where
  "mark_free bi d = d[bi div 8 := (d ! (bi div 8)) AND NOT (bit_mask bi)]"

text \<open>The inner loop of \<open>balloc\<close>: the first free bit of a block of the map, below \<open>sb.size\<close>.\<close>

definition free_bit :: "u32 \<Rightarrow> u32 \<Rightarrow> u8 list \<Rightarrow> nat option" where
  "free_bit b limit d =
     find (\<lambda>bi. \<not> in_use d bi) (takeWhile (\<lambda>bi. b + of_nat bi < limit) [0..<BPB])"

text \<open>The outer loop advances by \<open>BPB = 2^13\<close>: \<open>2^19\<close> rounds go through all block numbers.\<close>

definition balloc :: "u32 \<Rightarrow> 'a fstate_scheme \<Rightarrow> (u32, 'a fstate_scheme) run" where
  "balloc dev s =
     loop (Suc (2 ^ 19)) (\<lambda>b s.
       if b < sb_size (sb s)
       then bnd (bread dev (BBLOCK b (sb s)) s) (\<lambda>bp s.
         case free_bit b (sb_size (sb s)) (bdata s bp) of
           Some bi \<Rightarrow>
             bnd (log_write bp (set_bdata bp (mark_used bi) s)) (\<lambda>_ s.
             bnd (brelse bp s) (\<lambda>_ s.
             bnd (bzero dev (b + of_nat bi) s) (\<lambda>_ s.
             Ret (Inr (b + of_nat bi)) s)))
         | None \<Rightarrow> bnd (brelse bp s) (\<lambda>_ s. Ret (Inl (b + of_nat BPB)) s))
       else Ret (Inr 0) s) 0 s"

definition bfree :: "u32 \<Rightarrow> u32 \<Rightarrow> 'a fstate_scheme \<Rightarrow> (unit, 'a fstate_scheme) run" where
  "bfree dev b s =
     bnd (bread dev (BBLOCK b (sb s)) s) (\<lambda>bp s.
       let bi = unat (b mod of_nat BPB)
       in if \<not> in_use (bdata s bp) bi then Panic ''freeing free block''
          else bnd (log_write bp (set_bdata bp (mark_free bi) s)) (\<lambda>_ s. brelse bp s))"

section \<open>Inodes\<close>

definition iinit :: "'a fstate_scheme \<Rightarrow> 'a fstate_scheme" where
  "iinit s = s\<lparr>itable := map (\<lambda>ip. ip\<lparr>i_lock := initsleeplock\<rparr>) (itable s)\<rparr>"

text \<open>
  The search of \<open>iget\<close>: the entry of the inode if it is in the table, otherwise the first free
  entry.
\<close>

definition iget :: "u32 \<Rightarrow> u32 \<Rightarrow> 'a fstate_scheme \<Rightarrow> (nat, 'a fstate_scheme) run" where
  "iget dev inum s =
     (case first_slot (\<lambda>ip. 0 <s i_ref ip \<and> i_dev ip = dev \<and> i_inum ip = inum) (itable s) of
        Some ip \<Rightarrow> Ret ip (upd_inode ip (\<lambda>x. x\<lparr>i_ref := i_ref x + 1\<rparr>) s)
      | None \<Rightarrow>
          (case first_slot (\<lambda>ip. i_ref ip = 0) (itable s) of
             None \<Rightarrow> Panic ''iget: no inodes''
           | Some ip \<Rightarrow> Ret ip (upd_inode ip (\<lambda>x. x\<lparr>i_dev := dev, i_inum := inum, i_ref := 1, i_valid := False\<rparr>) s)))"

definition ialloc :: "u32 \<Rightarrow> u16 \<Rightarrow> 'a fstate_scheme \<Rightarrow> (nat option, 'a fstate_scheme) run" where
  "ialloc dev type s =
     loop (2 ^ 32) (\<lambda>inum s.
       if inum < sb_ninodes (sb s)
       then bnd (bread dev (IBLOCK inum (sb s)) s) (\<lambda>bp s.
         if get16 (inode_off inum) (bdata s bp) = 0
         then bnd (log_write bp (set_bdata bp (\<lambda>d. put16 (inode_off inum) type (splice (inode_off inum) (replicate 64 0) d)) s)) (\<lambda>_ s.
              bnd (brelse bp s) (\<lambda>_ s.
              bnd (iget dev inum s) (\<lambda>ip s. Ret (Inr (Some ip)) s)))
         else bnd (brelse bp s) (\<lambda>_ s. Ret (Inl (inum + 1)) s))
       else Ret (Inr None) s) 1 s"

definition dinode_of :: "inode \<Rightarrow> dinode" where
  "dinode_of x = \<lparr>d_type = i_type x, d_major = i_major x, d_minor = i_minor x, d_nlink = i_nlink x,
     d_size = i_size x, d_addrs = i_addrs x\<rparr>"

definition iupdate :: "nat \<Rightarrow> 'a fstate_scheme \<Rightarrow> (unit, 'a fstate_scheme) run" where
  "iupdate ip s =
     bnd (bread (i_dev (itable s ! ip)) (IBLOCK (i_inum (itable s ! ip)) (sb s)) s) (\<lambda>bp s.
     bnd (log_write bp (set_bdata bp (put_dinode (inode_off (i_inum (itable s ! ip))) (dinode_of (itable s ! ip))) s)) (\<lambda>_ s.
     brelse bp s))"

definition idup :: "nat \<Rightarrow> 'a fstate_scheme \<Rightarrow> 'a fstate_scheme" where
  "idup ip s = upd_inode ip (\<lambda>x. x\<lparr>i_ref := i_ref x + 1\<rparr>) s"

definition ilock :: "nat \<Rightarrow> 'a fstate_scheme \<Rightarrow> (unit, 'a fstate_scheme) run" where
  "ilock ip s =
     (if i_ref (itable s ! ip) <s 1 then Panic ''ilock''
      else bnd (acquiresleep (ChInodeLock ip) (i_lock (itable s ! ip)) s) (\<lambda>lk s.
        let s = upd_inode ip (\<lambda>x. x\<lparr>i_lock := lk\<rparr>) s
        in if \<not> i_valid (itable s ! ip)
           then bnd (bread (i_dev (itable s ! ip)) (IBLOCK (i_inum (itable s ! ip)) (sb s)) s) (\<lambda>bp s.
             let dip = get_dinode (inode_off (i_inum (itable s ! ip))) (bdata s bp);
                 s = upd_inode ip (\<lambda>x. x\<lparr>i_type := d_type dip, i_major := d_major dip, i_minor := d_minor dip,
                       i_nlink := d_nlink dip, i_size := d_size dip, i_addrs := d_addrs dip\<rparr>) s
             in bnd (brelse bp s) (\<lambda>_ s.
               let s = upd_inode ip (\<lambda>x. x\<lparr>i_valid := True\<rparr>) s
               in if i_type (itable s ! ip) = 0 then Panic ''ilock: no type'' else Ret () s))
           else Ret () s))"

definition iunlock :: "nat \<Rightarrow> 'a fstate_scheme \<Rightarrow> (unit, 'a fstate_scheme) run" where
  "iunlock ip s =
     (if \<not> holdingsleep (i_lock (itable s ! ip)) s \<or> i_ref (itable s ! ip) <s 1 then Panic ''iunlock''
      else let (lk, s) = releasesleep (ChInodeLock ip) (i_lock (itable s ! ip)) s
           in Ret () (upd_inode ip (\<lambda>x. x\<lparr>i_lock := lk\<rparr>) s))"

definition bmap :: "nat \<Rightarrow> u32 \<Rightarrow> 'a fstate_scheme \<Rightarrow> (u32, 'a fstate_scheme) run" where
  "bmap ip bn s =
     (if bn < of_nat NDIRECT
      then let addr = i_addrs (itable s ! ip) ! unat bn
           in if addr = 0
              then bnd (balloc (i_dev (itable s ! ip)) s) (\<lambda>addr s.
                if addr = 0 then Ret 0 s
                else Ret addr (upd_inode ip (\<lambda>x. x\<lparr>i_addrs := (i_addrs x)[unat bn := addr]\<rparr>) s))
              else Ret addr s
      else let bn = bn - of_nat NDIRECT
           in if bn < of_nat NINDIRECT
              then bnd (if i_addrs (itable s ! ip) ! NDIRECT = 0
                        then bnd (balloc (i_dev (itable s ! ip)) s) (\<lambda>addr s.
                          if addr = 0 then Ret 0 s
                          else Ret addr (upd_inode ip (\<lambda>x. x\<lparr>i_addrs := (i_addrs x)[NDIRECT := addr]\<rparr>) s))
                        else Ret (i_addrs (itable s ! ip) ! NDIRECT) s) (\<lambda>ind s.
                if ind = 0 then Ret 0 s
                else bnd (bread (i_dev (itable s ! ip)) ind s) (\<lambda>bp s.
                  let addr = get32 (4 * unat bn) (bdata s bp)
                  in bnd (if addr = 0
                          then bnd (balloc (i_dev (itable s ! ip)) s) (\<lambda>addr s.
                            if addr \<noteq> 0
                            then bnd (log_write bp (set_bdata bp (put32 (4 * unat bn) addr) s)) (\<lambda>_ s. Ret addr s)
                            else Ret addr s)
                          else Ret addr s) (\<lambda>addr s.
                    bnd (brelse bp s) (\<lambda>_ s. Ret addr s))))
              else Panic ''bmap: out of range'')"

definition itrunc :: "nat \<Rightarrow> 'a fstate_scheme \<Rightarrow> (unit, 'a fstate_scheme) run" where
  "itrunc ip s =
     bnd (each (\<lambda>i s.
            if i_addrs (itable s ! ip) ! i \<noteq> 0
            then bnd (bfree (i_dev (itable s ! ip)) (i_addrs (itable s ! ip) ! i) s) (\<lambda>_ s.
              Ret () (upd_inode ip (\<lambda>x. x\<lparr>i_addrs := (i_addrs x)[i := 0]\<rparr>) s))
            else Ret () s) [0..<NDIRECT] s) (\<lambda>_ s.
     bnd (if i_addrs (itable s ! ip) ! NDIRECT \<noteq> 0
          then bnd (bread (i_dev (itable s ! ip)) (i_addrs (itable s ! ip) ! NDIRECT) s) (\<lambda>bp s.
               bnd (each (\<lambda>j s. if get32 (4 * j) (bdata s bp) \<noteq> 0
                                then bfree (i_dev (itable s ! ip)) (get32 (4 * j) (bdata s bp)) s
                                else Ret () s) [0..<NINDIRECT] s) (\<lambda>_ s.
               bnd (brelse bp s) (\<lambda>_ s.
               bnd (bfree (i_dev (itable s ! ip)) (i_addrs (itable s ! ip) ! NDIRECT) s) (\<lambda>_ s.
               Ret () (upd_inode ip (\<lambda>x. x\<lparr>i_addrs := (i_addrs x)[NDIRECT := 0]\<rparr>) s)))))
          else Ret () s) (\<lambda>_ s.
     iupdate ip (upd_inode ip (\<lambda>x. x\<lparr>i_size := 0\<rparr>) s)))"

definition iput :: "nat \<Rightarrow> 'a fstate_scheme \<Rightarrow> (unit, 'a fstate_scheme) run" where
  "iput ip s =
     bnd (if i_ref (itable s ! ip) = 1 \<and> i_valid (itable s ! ip) \<and> i_nlink (itable s ! ip) = 0
          then bnd (acquiresleep (ChInodeLock ip) (i_lock (itable s ! ip)) s) (\<lambda>lk s.
               bnd (itrunc ip (upd_inode ip (\<lambda>x. x\<lparr>i_lock := lk\<rparr>) s)) (\<lambda>_ s.
               bnd (iupdate ip (upd_inode ip (\<lambda>x. x\<lparr>i_type := 0\<rparr>) s)) (\<lambda>_ s.
               let s = upd_inode ip (\<lambda>x. x\<lparr>i_valid := False\<rparr>) s;
                   (lk, s) = releasesleep (ChInodeLock ip) (i_lock (itable s ! ip)) s
               in Ret () (upd_inode ip (\<lambda>x. x\<lparr>i_lock := lk\<rparr>) s))))
          else Ret () s) (\<lambda>_ s.
     Ret () (upd_inode ip (\<lambda>x. x\<lparr>i_ref := i_ref x - 1\<rparr>) s))"

definition iunlockput :: "nat \<Rightarrow> 'a fstate_scheme \<Rightarrow> (unit, 'a fstate_scheme) run" where
  "iunlockput ip s = bnd (iunlock ip s) (\<lambda>_ s. iput ip s)"

section \<open>File contents\<close>

text \<open>\<open>struct stat\<close> (kernel/stat.h), as the bytes \<open>filestat\<close> copies to the user.\<close>

record stat =
  st_dev :: u32
  st_ino :: u32
  st_type :: u16
  st_nlink :: u16
  st_size :: u64

definition stati :: "inode \<Rightarrow> stat" where
  "stati ip = \<lparr>st_dev = i_dev ip, st_ino = i_inum ip, st_type = i_type ip, st_nlink = i_nlink ip, st_size = ucast (i_size ip)\<rparr>"

text \<open>
  Where \<open>readi\<close> copies to and \<open>writei\<close> copies from: a user address, a kernel address, or a local
  variable of the caller. \<open>readi\<close> also returns the bytes it copied, for callers of the last kind.
\<close>

datatype dest = ToUser u64 | ToKernel u64 | ToLocal
datatype origin = FromUser u64 | FromLocal "u8 list"

definition copy_to :: "dest \<Rightarrow> u64 \<Rightarrow> u8 list \<Rightarrow> 'a pstate_scheme \<Rightarrow> (bool, 'a pstate_scheme) run" where
  "copy_to dst i bs s =
     (case dst of ToUser a \<Rightarrow> either_copyout s True (a + i) bs
      | ToKernel a \<Rightarrow> either_copyout s False (a + i) bs
      | ToLocal \<Rightarrow> Ret True s)"

definition copy_from :: "origin \<Rightarrow> u64 \<Rightarrow> nat \<Rightarrow> 'a pstate_scheme \<Rightarrow> (bool \<times> u8 list, 'a pstate_scheme) run" where
  "copy_from src i m s =
     (case src of FromUser a \<Rightarrow> either_copyin s True (a + i) m
      | FromLocal bs \<Rightarrow> Ret (True, take m (drop (unat i) bs)) s)"

text \<open>
  Each round moves at least one byte, so \<open>n + 1\<close> rounds are enough. \<open>tot\<close> is an unsigned
  counter that ends as -1 when the copy to the user fails.
\<close>

definition readi_step :: "nat \<Rightarrow> dest \<Rightarrow> u32 \<Rightarrow> u32 \<times> u32 \<times> u8 list \<Rightarrow> 'a fstate_scheme \<Rightarrow>
    ((u32 \<times> u32 \<times> u8 list) + (u32 \<times> u8 list), 'a fstate_scheme) run" where
  "readi_step ip dst n = (\<lambda>(tot, off, acc) s.
     if tot < n
     then bnd (bmap ip (off div of_nat BSIZE) s) (\<lambda>addr s.
       if addr = 0 then Ret (Inr (tot, acc)) s
       else bnd (bread (i_dev (itable s ! ip)) addr s) (\<lambda>bp s.
         let m = min (n - tot) (of_nat BSIZE - off mod of_nat BSIZE);
             piece = take (unat m) (drop (unat (off mod of_nat BSIZE)) (bdata s bp))
         in bnd (copy_to dst (ucast tot) piece s) (\<lambda>ok s.
           if \<not> ok then bnd (brelse bp s) (\<lambda>_ s. Ret (Inr (- 1, acc)) s)
           else bnd (brelse bp s) (\<lambda>_ s. Ret (Inl (tot + m, off + m, acc @ piece)) s))))
     else Ret (Inr (tot, acc)) s)"

definition readi :: "nat \<Rightarrow> dest \<Rightarrow> u32 \<Rightarrow> u32 \<Rightarrow> 'a fstate_scheme \<Rightarrow> (u32 \<times> u8 list, 'a fstate_scheme) run" where
  "readi ip dst off n s =
     (let size = i_size (itable s ! ip)
      in if size < off \<or> off + n < off then Ret (0, []) s
         else let n = (if size < off + n then size - off else n)
              in loop (Suc (unat n)) (readi_step ip dst n) (0, off, []) s)"

definition writei_step :: "nat \<Rightarrow> origin \<Rightarrow> u32 \<Rightarrow> u32 \<times> u32 \<Rightarrow> 'a fstate_scheme \<Rightarrow>
    ((u32 \<times> u32) + (u32 \<times> u32), 'a fstate_scheme) run" where
  "writei_step ip src n = (\<lambda>(tot, off) s.
     if tot < n
     then bnd (bmap ip (off div of_nat BSIZE) s) (\<lambda>addr s.
       if addr = 0 then Ret (Inr (tot, off)) s
       else bnd (bread (i_dev (itable s ! ip)) addr s) (\<lambda>bp s.
         let m = min (n - tot) (of_nat BSIZE - off mod of_nat BSIZE)
         in bnd (copy_from src (ucast tot) (unat m) s) (\<lambda>(ok, bs) s.
           let s = set_bdata bp (splice (unat (off mod of_nat BSIZE)) bs) s
           in if \<not> ok then bnd (brelse bp s) (\<lambda>_ s. Ret (Inr (tot, off)) s)
              else bnd (log_write bp s) (\<lambda>_ s.
                   bnd (brelse bp s) (\<lambda>_ s.
                   Ret (Inl (tot + m, off + m)) s)))))
     else Ret (Inr (tot, off)) s)"

definition writei :: "nat \<Rightarrow> origin \<Rightarrow> u32 \<Rightarrow> u32 \<Rightarrow> 'a fstate_scheme \<Rightarrow> (u32, 'a fstate_scheme) run" where
  "writei ip src off n s =
     (if i_size (itable s ! ip) < off \<or> off + n < off then Ret (- 1) s
      else if of_nat (MAXFILE * BSIZE) < off + n then Ret (- 1) s
      else bnd (loop (Suc (unat n)) (writei_step ip src n) (0, off) s) (\<lambda>(tot, off) s.
        let s = (if i_size (itable s ! ip) < off then upd_inode ip (\<lambda>x. x\<lparr>i_size := off\<rparr>) s else s)
        in bnd (iupdate ip s) (\<lambda>_ s. Ret tot s)))"

section \<open>Directories\<close>

text \<open>Strings in buffers: the byte at \<open>i\<close>, a string's list being followed by its terminator.\<close>

definition byte_at :: "u8 list \<Rightarrow> nat \<Rightarrow> u8" where
  "byte_at xs i = (if i < length xs then xs ! i else 0)"

fun strncmp_at :: "u8 list \<Rightarrow> u8 list \<Rightarrow> nat \<Rightarrow> nat \<Rightarrow> int" where
  "strncmp_at p q i 0 = 0"
| "strncmp_at p q i (Suc n) =
     (if byte_at p i \<noteq> 0 \<and> byte_at p i = byte_at q i then strncmp_at p q (Suc i) n
      else uint (byte_at p i) - uint (byte_at q i))"

definition namecmp :: "u8 list \<Rightarrow> u8 list \<Rightarrow> int" where
  "namecmp s t = strncmp_at s t 0 DIRSIZ"

text \<open>\<open>strncpy(dst, t, n)\<close> into a buffer of \<open>n\<close> bytes: the string, then zeroes.\<close>

definition strncpy_buf :: "u8 list \<Rightarrow> nat \<Rightarrow> u8 list" where
  "strncpy_buf t n = take n (takeWhile (\<lambda>c. c \<noteq> 0) t @ replicate n 0)"

text \<open>A directory entry is 16 bytes: the inode number and the name.\<close>

definition de_inum :: "u8 list \<Rightarrow> u16" where "de_inum de = get16 0 de"
definition de_name :: "u8 list \<Rightarrow> u8 list" where "de_name de = drop 2 de"
definition dirent :: "u16 \<Rightarrow> u8 list \<Rightarrow> u8 list" where "dirent inum name = le16 inum @ strncpy_buf name DIRSIZ"

text \<open>The result is the inode and the offset of its entry.\<close>

definition dirlookup :: "nat \<Rightarrow> u8 list \<Rightarrow> 'a fstate_scheme \<Rightarrow> ((nat \<times> u32) option, 'a fstate_scheme) run" where
  "dirlookup dp name s =
     (if i_type (itable s ! dp) \<noteq> T_DIR then Panic ''dirlookup not DIR''
      else loop (Suc (unat (i_size (itable s ! dp)))) (\<lambda>off s.
        if off < i_size (itable s ! dp)
        then bnd (readi dp ToLocal off 16 s) (\<lambda>(r, de) s.
          if r \<noteq> 16 then Panic ''dirlookup read''
          else if de_inum de = 0 then Ret (Inl (off + 16)) s
          else if namecmp name (de_name de) = 0
          then bnd (iget (i_dev (itable s ! dp)) (ucast (de_inum de)) s) (\<lambda>ip s. Ret (Inr (Some (ip, off))) s)
          else Ret (Inl (off + 16)) s)
        else Ret (Inr None) s) 0 s)"

definition dirlink :: "nat \<Rightarrow> u8 list \<Rightarrow> u32 \<Rightarrow> 'a fstate_scheme \<Rightarrow> (bool, 'a fstate_scheme) run" where
  "dirlink dp name inum s =
     bnd (dirlookup dp name s) (\<lambda>r s.
       case r of
         Some (ip, _) \<Rightarrow> bnd (iput ip s) (\<lambda>_ s. Ret False s)
       | None \<Rightarrow>
           bnd (loop (Suc (unat (i_size (itable s ! dp)))) (\<lambda>off s.
             if off < i_size (itable s ! dp)
             then bnd (readi dp ToLocal off 16 s) (\<lambda>(r, de) s.
               if r \<noteq> 16 then Panic ''dirlink read''
               else if de_inum de = 0 then Ret (Inr off) s
               else Ret (Inl (off + 16)) s)
             else Ret (Inr off) s) 0 s) (\<lambda>off s.
           bnd (writei dp (FromLocal (dirent (ucast inum) name)) off 16 s) (\<lambda>r s.
             Ret (r = 16) s)))"

section \<open>Path names\<close>

text \<open>
  A path is the list of its bytes before the terminator. \<open>name\<close> is the caller's buffer of \<open>DIRSIZ\<close>
  bytes; what a shorter element does not overwrite stays.
\<close>

definition slash :: u8 where "slash = 47"

definition skipelem :: "u8 list \<Rightarrow> u8 list \<Rightarrow> (u8 list \<times> u8 list) option" where
  "skipelem path name =
     (let path = dropWhile (\<lambda>c. c = slash) path
      in if path = [] then None
         else let elem = takeWhile (\<lambda>c. c \<noteq> slash) path;
                  path = dropWhile (\<lambda>c. c \<noteq> slash) path;
                  name = (if DIRSIZ \<le> length elem then splice 0 (take DIRSIZ elem) name
                          else splice 0 (elem @ [0]) name)
              in Some (dropWhile (\<lambda>c. c = slash) path, name))"

text \<open>Every round of \<open>namex\<close> consumes a byte of the path.\<close>

definition namex_step :: "bool \<Rightarrow> nat \<times> u8 list \<times> u8 list \<Rightarrow> 'a fstate_scheme \<Rightarrow>
    ((nat \<times> u8 list \<times> u8 list) + (nat option \<times> u8 list), 'a fstate_scheme) run" where
  "namex_step nameiparent = (\<lambda>(ip, path, name) s.
     case skipelem path name of
       None \<Rightarrow>
         if nameiparent then bnd (iput ip s) (\<lambda>_ s. Ret (Inr (None, name)) s)
         else Ret (Inr (Some ip, name)) s
     | Some (path, name) \<Rightarrow>
         bnd (ilock ip s) (\<lambda>_ s.
           if i_type (itable s ! ip) \<noteq> T_DIR then bnd (iunlockput ip s) (\<lambda>_ s. Ret (Inr (None, name)) s)
           else if nameiparent \<and> path = [] then bnd (iunlock ip s) (\<lambda>_ s. Ret (Inr (Some ip, name)) s)
           else bnd (dirlookup ip name s) (\<lambda>r s.
             case r of
               None \<Rightarrow> bnd (iunlockput ip s) (\<lambda>_ s. Ret (Inr (None, name)) s)
             | Some (next, _) \<Rightarrow> bnd (iunlockput ip s) (\<lambda>_ s. Ret (Inl (next, path, name)) s))))"

definition namex :: "u8 list \<Rightarrow> bool \<Rightarrow> u8 list \<Rightarrow> 'a fstate_scheme \<Rightarrow> (nat option \<times> u8 list, 'a fstate_scheme) run" where
  "namex path nameiparent name s =
     bnd (if byte_at path 0 = slash then iget ROOTDEV ROOTINO s
          else with_proc s (\<lambda>me.
            case p_cwd (procs s ! me) of None \<Rightarrow> Undef | Some ip \<Rightarrow> Ret ip (idup ip s))) (\<lambda>ip s.
       loop (Suc (length path)) (namex_step nameiparent) (ip, path, name) s)"

text \<open>The local buffer of \<open>namei\<close> has no defined contents; the code never reads what it did not write.\<close>

definition namei :: "u8 list \<Rightarrow> 'a fstate_scheme \<Rightarrow> (nat option, 'a fstate_scheme) run" where
  "namei path s = bnd (namex path False (replicate DIRSIZ 0) s) (\<lambda>(ip, _) s. Ret ip s)"

definition nameiparent :: "u8 list \<Rightarrow> u8 list \<Rightarrow> 'a fstate_scheme \<Rightarrow> (nat option \<times> u8 list, 'a fstate_scheme) run" where
  "nameiparent path name s = namex path True name s"


section \<open>A small state\<close>

text \<open>A state on which examples are evaluated: a table of two free inodes and no buffers.\<close>

definition demo_inode :: inode where
  "demo_inode = \<lparr>i_dev = 0, i_inum = 0, i_ref = 0, i_lock = initsleeplock, i_valid = False, i_type = 0, i_major = 0,
     i_minor = 0, i_nlink = 0, i_size = 0, i_addrs = replicate 13 0\<rparr>"

definition demo_fstate :: fstate where
  "demo_fstate = lstate.extend (bstate.extend (pstate.extend demo_pstate (bstate.fields [] (\<lambda>_. replicate BSIZE 0) []))
     (lstate.fields 2 30 0 False ROOTDEV 0 (replicate LOGSIZE 0)))
     (fstate.fields (superblock_of (replicate 32 0)) [demo_inode, demo_inode])"

lemmas demo_fstate_defs = demo_fstate_def demo_pstate_def demo_proc_def demo_inode_def pstate.defs bstate.defs lstate.defs fstate.defs

end
