(* ===== verification/Ring.thy ===== *)
theory Ring
  imports Prelude
begin

text \<open>
  Ring buffers indexed by free-running counters: the pipe, the console's input buffer and the
  UART's output buffer. A counter is a word that wraps; the array has \<open>N\<close> slots, where \<open>N\<close>
  divides the number of counter values. The contents are the elements between the read and the
  write counter.
\<close>

definition ring_index :: "nat \<Rightarrow> 'l::len word \<Rightarrow> nat" where
  "ring_index N i = unat i mod N"

definition ring :: "nat \<Rightarrow> 'x list \<Rightarrow> 'l::len word \<Rightarrow> 'l word \<Rightarrow> 'x list" where
  "ring N buf r w = map (\<lambda>k. buf ! ring_index N (r + of_nat k)) [0..<unat (w - r)]"

lemma ring_empty [simp]: "ring N buf r r = []"
  by (simp add: ring_def)

lemma length_ring [simp]: "length (ring N buf r w) = unat (w - r)"
  by (simp add: ring_def)

lemma ring_Nil_iff: "ring N buf r w = [] \<longleftrightarrow> r = w"
proof -
  have "ring N buf r w = [] \<longleftrightarrow> unat (w - r) = 0" by (metis length_0_conv length_ring)
  then show ?thesis by (auto simp: unat_eq_0)
qed

lemma unat_suc_diff: "w \<noteq> r \<Longrightarrow> unat (w - (r + 1)) = unat (w - r) - 1" for w r :: "'l::len word"
proof -
  assume "w \<noteq> r"
  then have "w - r \<noteq> 0" by simp
  then have "unat ((w - r) - 1) = unat (w - r) - 1" by (rule unat_minus_one)
  then show ?thesis by (simp add: algebra_simps)
qed

lemma ring_pop:
  fixes r w :: "'l::len word"
  assumes "r \<noteq> w"
  shows "ring N buf r w = buf ! ring_index N r # ring N buf (r + 1) w"
proof -
  have n: "unat (w - r) = Suc (unat (w - (r + 1)))"
    using assms unat_suc_diff [of w r] by (simp add: unat_gt_0)
  have "[0..<Suc m] = 0 # map Suc [0..<m]" for m by (simp add: map_Suc_upt upt_conv_Cons)
  then show ?thesis unfolding ring_def n by (simp add: comp_def algebra_simps)
qed

text \<open>The slots within a window of \<open>N\<close> counter values are distinct.\<close>

lemma ring_index_inj:
  fixes r :: "'l::len word"
  assumes N: "N dvd 2 ^ LENGTH('l)" "0 < N" and ij: "i < N" "j < N" "i < j"
  shows "ring_index N (r + of_nat i) \<noteq> ring_index N (r + of_nat j)"
proof
  assume "ring_index N (r + of_nat i) = ring_index N (r + of_nat j)"
  moreover have "unat (r + of_nat k) mod N = (unat r + k) mod N" for k
  proof -
    have "unat (r + of_nat k) = (unat r + k) mod 2 ^ LENGTH('l)"
      by (simp add: unat_word_ariths unat_of_nat mod_add_right_eq)
    then show ?thesis using N(1) by (simp add: mod_mod_cancel)
  qed
  ultimately have "(unat r + i) mod N = (unat r + j) mod N" by (simp add: ring_index_def)
  then have "N dvd (unat r + j) - (unat r + i)" using ij by (metis add_le_cancel_left less_imp_le mod_eq_dvd_iff_nat)
  then have "N dvd j - i" by simp
  with ij show False by (metis dvd_imp_le less_imp_diff_less linorder_not_le zero_less_diff)
qed

lemma ring_push:
  fixes r w :: "'l::len word"
  assumes N: "N dvd 2 ^ LENGTH('l)" "0 < N" "N < 2 ^ LENGTH('l)" and room: "unat (w - r) < N" and len: "length buf = N"
  shows "ring N (buf[ring_index N w := x]) r (w + 1) = ring N buf r w @ [x]"
proof -
  let ?n = "unat (w - r)"
  have w: "w = r + of_nat ?n" by simp
  have "w + 1 - r = of_nat (Suc ?n)" by (simp add: algebra_simps)
  moreover have "Suc ?n < 2 ^ LENGTH('l)" using room N(3) by simp
  ultimately have n: "unat (w + 1 - r) = Suc ?n" by (simp add: unat_of_nat del: of_nat_Suc)
  have "ring_index N w \<noteq> ring_index N (r + of_nat k)" if "k < ?n" for k
    using ring_index_inj [OF N(1,2), of k ?n r] that room w by (metis order_less_trans)
  then have "ring N (buf[ring_index N w := x]) r (w + 1) = map (\<lambda>k. buf ! ring_index N (r + of_nat k)) [0..<?n] @
      [buf[ring_index N w := x] ! ring_index N (r + of_nat ?n)]"
    unfolding ring_def n by auto
  also have "\<dots> = ring N buf r w @ [x]"
    using w N(2) len by (simp add: ring_def ring_index_def)
  finally show ?thesis .
qed

lemma unat_push: "unat (w - r) < N \<Longrightarrow> N < 2 ^ LENGTH('l) \<Longrightarrow> unat (w + 1 - r) = Suc (unat (w - r))" for w r :: "'l::len word"
proof -
  assume "unat (w - r) < N" "N < 2 ^ LENGTH('l)"
  moreover have "w + 1 - r = of_nat (Suc (unat (w - r)))" by (simp add: algebra_simps)
  ultimately show ?thesis by (simp add: unat_of_nat del: of_nat_Suc)
qed

text \<open>\<open>w == r + N\<close> is the test for a full buffer.\<close>

lemma ring_full_iff: "unat (w - r) \<le> N \<Longrightarrow> N < 2 ^ LENGTH('l) \<Longrightarrow> w \<noteq> r + of_nat N \<Longrightarrow> unat (w - r) < N" for w r :: "'l::len word"
proof (rule ccontr)
  assume "unat (w - r) \<le> N" "\<not> unat (w - r) < N" and ne: "w \<noteq> r + of_nat N"
  then have "unat (w - r) = N" by simp
  then have "of_nat (unat (w - r)) = (of_nat N :: 'l word)" by simp
  then have "w - r = of_nat N" by simp
  then have "w = r + of_nat N" by (simp add: algebra_simps)
  with ne show False by simp
qed

section \<open>The contract of a ring buffer\<close>

text \<open>
  What a client does to its buffer: \<open>push\<close> stores at the write counter and advances it, \<open>pop\<close> advances the read
  counter. Then the contents are a queue of at most \<open>N\<close> elements, and the two tests of the counters that the sources make
  decide whether it is full or empty.
\<close>

locale ring_buffer =
  fixes N :: nat and buf :: "'s \<Rightarrow> 'x list" and rd wr :: "'s \<Rightarrow> 'l::len word"
    and push :: "'x \<Rightarrow> 's \<Rightarrow> 's" and pop :: "'s \<Rightarrow> 's" and ok :: "'s \<Rightarrow> bool" and queue :: "'s \<Rightarrow> 'x list"
  assumes N: "N dvd 2 ^ LENGTH('l)" "0 < N" "N < 2 ^ LENGTH('l)"
    and ok: "ok s \<longleftrightarrow> length (buf s) = N \<and> unat (wr s - rd s) \<le> N"
    and queue: "queue s = ring N (buf s) (rd s) (wr s)"
    and push: "buf (push x s) = (buf s)[ring_index N (wr s) := x]" "rd (push x s) = rd s" "wr (push x s) = wr s + 1"
    and pop: "buf (pop s) = buf s" "rd (pop s) = rd s + 1" "wr (pop s) = wr s"
begin

lemma empty_iff: "queue s = [] \<longleftrightarrow> rd s = wr s"
  by (simp add: queue ring_Nil_iff)

lemma full_iff: "ok s \<Longrightarrow> wr s = rd s + of_nat N \<longleftrightarrow> length (queue s) = N"
  using ring_full_iff [of "wr s" "rd s" N] N(3)
  by (cases "wr s = rd s + of_nat N") (auto simp: ok queue unat_of_nat)

lemma push_appends:
  assumes "ok s" "wr s \<noteq> rd s + of_nat N"
  shows "ok (push x s)" "queue (push x s) = queue s @ [x]"
proof -
  have room: "unat (wr s - rd s) < N" and len: "length (buf s) = N"
    using assms N(3) by (auto simp: ok intro: ring_full_iff)
  show "queue (push x s) = queue s @ [x]" using ring_push [OF N room len] by (simp add: queue push)
  show "ok (push x s)" using unat_push [OF room N(3)] room len by (simp add: ok push)
qed

lemma pop_takes:
  assumes "ok s" "rd s \<noteq> wr s"
  shows "ok (pop s)" "queue s = buf s ! ring_index N (rd s) # queue (pop s)"
  using assms ring_pop [OF assms(2)] unat_suc_diff [of "wr s" "rd s"] by (auto simp: ok queue pop)

end

end
