(* ===== verification/Uart.thy ===== *)
theory Uart
  imports Fs Ring
begin

text \<open>
  The driver of the 16550a UART (kernel/uart.c). The device itself is a parameter of the state:
  \<open>uart_dev t reg\<close> is what the \<open>t\<close>-th read of a register returns, and \<open>uart_regs\<close> is the sequence
  of register writes, which is all the device sees. The two loops that wait for the device are
  bounded by \<open>spin\<close> reads of a register.
\<close>

definition RHR :: nat where [params]: "RHR = 0"
definition THR :: nat where [params]: "THR = 0"
definition IER :: nat where [params]: "IER = 1"
definition IER_RX_ENABLE :: u8 where [params]: "IER_RX_ENABLE = 1"
definition IER_TX_ENABLE :: u8 where [params]: "IER_TX_ENABLE = 2"
definition FCR :: nat where [params]: "FCR = 2"
definition FCR_FIFO_ENABLE :: u8 where [params]: "FCR_FIFO_ENABLE = 1"
definition FCR_FIFO_CLEAR :: u8 where [params]: "FCR_FIFO_CLEAR = 6"
definition ISR :: nat where [params]: "ISR = 2"
definition LCR :: nat where [params]: "LCR = 3"
definition LCR_EIGHT_BITS :: u8 where [params]: "LCR_EIGHT_BITS = 3"
definition LCR_BAUD_LATCH :: u8 where [params]: "LCR_BAUD_LATCH = 0x80"
definition LSR :: nat where [params]: "LSR = 5"
definition LSR_RX_READY :: u8 where [params]: "LSR_RX_READY = 1"
definition LSR_TX_IDLE :: u8 where [params]: "LSR_TX_IDLE = 0x20"
definition UART_TX_BUF_SIZE :: nat where [params]: "UART_TX_BUF_SIZE = 32"

record ustate = fstate +
  uart_tx_buf :: "u8 list"
  uart_tx_w :: u64
  uart_tx_r :: u64
  panicked :: bool
  uart_dev :: "nat \<Rightarrow> nat \<Rightarrow> u8"
  uart_time :: nat
  uart_regs :: "(nat \<times> u8) list"

definition spin :: nat where "spin = 2 ^ 16"

definition ReadReg :: "nat \<Rightarrow> 'a ustate_scheme \<Rightarrow> u8 \<times> 'a ustate_scheme" where
  "ReadReg reg s = (uart_dev s (uart_time s) reg, s\<lparr>uart_time := Suc (uart_time s)\<rparr>)"

definition WriteReg :: "nat \<Rightarrow> u8 \<Rightarrow> 'a ustate_scheme \<Rightarrow> 'a ustate_scheme" where
  "WriteReg reg v s = s\<lparr>uart_regs := uart_regs s @ [(reg, v)]\<rparr>"

definition uartinit :: "'a ustate_scheme \<Rightarrow> 'a ustate_scheme" where
  "uartinit s =
     (let s = WriteReg IER 0 s;
          s = WriteReg LCR LCR_BAUD_LATCH s;
          s = WriteReg 0 3 s;
          s = WriteReg 1 0 s;
          s = WriteReg LCR LCR_EIGHT_BITS s;
          s = WriteReg FCR (FCR_FIFO_ENABLE OR FCR_FIFO_CLEAR) s
      in WriteReg IER (IER_TX_ENABLE OR IER_RX_ENABLE) s)"

text \<open>Each round of \<open>uartstart\<close> sends a byte of the buffer.\<close>

definition uartstart :: "'a ustate_scheme \<Rightarrow> (unit, 'a ustate_scheme) run" where
  "uartstart s =
     loop (Suc (unat (uart_tx_w s - uart_tx_r s))) (\<lambda>_ s.
       if uart_tx_w s = uart_tx_r s then Ret (Inr ()) (snd (ReadReg ISR s))
       else let (lsr, s) = ReadReg LSR s
            in if lsr AND LSR_TX_IDLE = 0 then Ret (Inr ()) s
               else let c = uart_tx_buf s ! ring_index UART_TX_BUF_SIZE (uart_tx_r s);
                        s = s\<lparr>uart_tx_r := uart_tx_r s + 1\<rparr>;
                        s = wakeup (Some ChUartTx) s
                    in Ret (Inl ()) (WriteReg THR c s)) () s"

text \<open>A full buffer makes \<open>uartputc\<close> sleep; the woken process runs it again.\<close>

definition uartputc :: "u8 \<Rightarrow> 'a ustate_scheme \<Rightarrow> (unit, 'a ustate_scheme) run" where
  "uartputc c s =
     (if panicked s then Diverge
      else if uart_tx_w s = uart_tx_r s + of_nat UART_TX_BUF_SIZE then sleep ChUartTx s
      else uartstart (s\<lparr>uart_tx_buf := (uart_tx_buf s)[ring_index UART_TX_BUF_SIZE (uart_tx_w s) := c],
             uart_tx_w := uart_tx_w s + 1\<rparr>))"

definition uartputc_sync :: "u8 \<Rightarrow> 'a ustate_scheme \<Rightarrow> (unit, 'a ustate_scheme) run" where
  "uartputc_sync c s =
     (if panicked s then Diverge
      else bnd (loop spin (\<lambda>_ s.
             let (lsr, s) = ReadReg LSR s
             in if lsr AND LSR_TX_IDLE = 0 then Ret (Inl ()) s else Ret (Inr ()) s) () s) (\<lambda>_ s.
        Ret () (WriteReg THR c s)))"

text \<open>\<open>None\<close> for the return value -1.\<close>

definition uartgetc :: "'a ustate_scheme \<Rightarrow> u8 option \<times> 'a ustate_scheme" where
  "uartgetc s =
     (let (lsr, s) = ReadReg LSR s
      in if lsr AND 1 \<noteq> 0 then (let (c, s) = ReadReg RHR s in (Some c, s)) else (None, s))"


section \<open>The output is a queue\<close>

text \<open>
  The stream of a state: the bytes given to the transmit register so far, followed by the bytes in
  the buffer.
\<close>

definition sent :: "(nat \<times> u8) list \<Rightarrow> u8 list" where
  "sent regs = map snd (filter (\<lambda>(r, v). r = THR) regs)"

definition uart_queue :: "'a ustate_scheme \<Rightarrow> u8 list" where
  "uart_queue s = ring UART_TX_BUF_SIZE (uart_tx_buf s) (uart_tx_r s) (uart_tx_w s)"

definition uart_stream :: "'a ustate_scheme \<Rightarrow> u8 list" where
  "uart_stream s = sent (uart_regs s) @ uart_queue s"

definition uart_inv :: "'a ustate_scheme \<Rightarrow> bool" where
  "uart_inv s \<longleftrightarrow> length (uart_tx_buf s) = UART_TX_BUF_SIZE \<and> unat (uart_tx_w s - uart_tx_r s) \<le> UART_TX_BUF_SIZE"

definition uart_idle :: "'a ustate_scheme \<Rightarrow> bool" where
  "uart_idle s \<longleftrightarrow> (\<forall>t. uart_dev s t LSR AND LSR_TX_IDLE \<noteq> 0)"

lemma uart_wakeup [simp]:
  "uart_tx_buf (wakeup c s) = uart_tx_buf s" "uart_tx_w (wakeup c s) = uart_tx_w s" "uart_tx_r (wakeup c s) = uart_tx_r s"
  "uart_regs (wakeup c s) = uart_regs s" "uart_dev (wakeup c s) = uart_dev s" "panicked (wakeup c s) = panicked s"
  by (simp_all add: wakeup_def)

lemma uart_upd_proc [simp]:
  "uart_tx_buf (upd_proc i f s) = uart_tx_buf s" "uart_tx_w (upd_proc i f s) = uart_tx_w s"
  "uart_tx_r (upd_proc i f s) = uart_tx_r s" "uart_regs (upd_proc i f s) = uart_regs s"
  by (simp_all add: upd_proc_def)

lemma sent_append [simp]: "sent (xs @ ys) = sent xs @ sent ys"
  by (simp add: sent_def)

definition uart_push :: "u8 \<Rightarrow> 'a ustate_scheme \<Rightarrow> 'a ustate_scheme" where
  "uart_push c s = s\<lparr>uart_tx_buf := (uart_tx_buf s)[ring_index UART_TX_BUF_SIZE (uart_tx_w s) := c], uart_tx_w := uart_tx_w s + 1\<rparr>"

definition uart_pop :: "'a ustate_scheme \<Rightarrow> 'a ustate_scheme" where
  "uart_pop s = s\<lparr>uart_tx_r := uart_tx_r s + 1\<rparr>"

interpretation uart_ring: ring_buffer UART_TX_BUF_SIZE uart_tx_buf uart_tx_r uart_tx_w uart_push uart_pop uart_inv uart_queue
  by unfold_locales (simp_all add: UART_TX_BUF_SIZE_def uart_push_def uart_pop_def uart_inv_def uart_queue_def)

lemma uartstart_ok:
  assumes "uart_inv s"
  shows "returns (uartstart s) (\<lambda>_ t. uart_inv t \<and> uart_stream t = uart_stream s \<and>
    (uart_idle s \<longrightarrow> uart_queue t = []) \<and> panicked t = panicked s)"
  unfolding uartstart_def
proof (rule loop_returns [where I = "\<lambda>_ t. uart_inv t \<and> uart_stream t = uart_stream s \<and> uart_dev t = uart_dev s \<and>
      panicked t = panicked s"
      and \<mu> = "\<lambda>_ t. unat (uart_tx_w t - uart_tx_r t)"], goal_cases)
  case 1
  then show ?case using assms by simp
next
  case 2
  then show ?case by simp
next
  case (3 l t)
  then show ?case
    using uart_ring.pop_takes(2) [of t] unat_suc_diff [of "uart_tx_w t" "uart_tx_r t"]
    by (auto simp: ReadReg_def WriteReg_def Let_def uart_inv_def uart_stream_def uart_queue_def uart_idle_def sent_def uart_pop_def
        unat_gt_0)
qed


text \<open>
  C21. The UART driver is a queue. Under the invariant on its counters, \<open>uartputc\<close> either appends the
  byte to the stream or, exactly when the buffer is full, sleeps with the stream unchanged;
  \<open>uartstart\<close> always returns, never loses, duplicates or reorders a byte, and empties the buffer when
  the device is idle throughout.
\<close>

theorem uart_queue_fifo:
  assumes inv: "uart_inv s" and run: "\<not> panicked s" and me: "myproc s = Some p"
  shows "(case uartputc c s of
            Ret _ t \<Rightarrow> uart_inv t \<and> uart_stream t = uart_stream s @ [c] \<and> length (uart_queue s) < UART_TX_BUF_SIZE \<and>
              (uart_idle s \<longrightarrow> uart_queue t = [])
          | Sleep ch t \<Rightarrow> ch = ChUartTx \<and> uart_inv t \<and> uart_stream t = uart_stream s \<and> length (uart_queue s) = UART_TX_BUF_SIZE
          | _ \<Rightarrow> False) \<and>
         returns (uartstart s) (\<lambda>_ t. uart_inv t \<and> uart_stream t = uart_stream s \<and> (uart_idle s \<longrightarrow> uart_queue t = []))"
proof -
  have start: "returns (uartstart s) (\<lambda>_ t. uart_inv t \<and> uart_stream t = uart_stream s \<and> (uart_idle s \<longrightarrow> uart_queue t = []))"
    by (rule returns_mono [OF uartstart_ok [OF inv]]) simp
  show ?thesis
  proof (cases "uart_tx_w s = uart_tx_r s + of_nat UART_TX_BUF_SIZE")
    case True
    then have "length (uart_queue s) = UART_TX_BUF_SIZE" using uart_ring.full_iff [OF inv] by simp
    then show ?thesis using True run me start inv
      by (simp add: uartputc_def sleep_def with_proc_def uart_inv_def uart_stream_def uart_queue_def)
  next
    case False
    note push = uart_ring.push_appends [OF inv False, of c]
    have room: "length (uart_queue s) < UART_TX_BUF_SIZE"
      using uart_ring.full_iff [OF inv] False inv by (simp add: uart_inv_def uart_queue_def)
    have "uart_stream (uart_push c s) = uart_stream s @ [c]" using push(2) by (simp add: uart_stream_def) (simp add: uart_push_def)
    moreover have "uart_idle (uart_push c s) = uart_idle s" by (simp add: uart_idle_def uart_push_def)
    moreover have "uartputc c s = uartstart (uart_push c s)" using False run by (simp add: uartputc_def uart_push_def)
    ultimately show ?thesis using uartstart_ok [OF push(1)] start room by (auto simp: returns_iff)
  qed
qed

definition demo_ustate :: ustate where
  "demo_ustate = fstate.extend demo_fstate (ustate.fields (replicate UART_TX_BUF_SIZE 0) 0 0 False (\<lambda>_ _. 0) 0 [])"

lemmas demo_ustate_defs = demo_ustate_def demo_fstate_defs ustate.defs

text \<open>The device is busy: the byte stays in the buffer.\<close>

theorem uart_queue_fifo_witness:
  "(case uartputc 65 demo_ustate of Ret _ t \<Rightarrow> uart_stream t = [65] | _ \<Rightarrow> False)"
proof -
  have "uart_inv demo_ustate" "\<not> panicked demo_ustate" "myproc demo_ustate = Some 1"
    by (simp_all add: demo_ustate_defs uart_inv_def myproc_def UART_TX_BUF_SIZE_def)
  note uart_queue_fifo [OF this, of 65]
  moreover have "uart_stream demo_ustate = []" "length (uart_queue demo_ustate) = 0"
    by (simp_all add: demo_ustate_defs uart_stream_def uart_queue_def sent_def)
  ultimately show ?thesis by (auto split: run.splits simp: UART_TX_BUF_SIZE_def)
qed

end
