(* ===== verification/Kprintf.thy ===== *)
theory Kprintf
  imports Uart "HOL-Library.Char_ord"
begin

text \<open>
  Formatted output on the console: \<open>consputc\<close> (kernel/console.c) and kernel/printf.c. The variable
  arguments of \<open>printf\<close> are a list of 64-bit words and strings; taking an argument that is not
  there, or of the wrong kind, is undefined, as it is in C. The buffer of \<open>printint\<close> has 16 bytes,
  and a longer number is a write outside it.
\<close>

section \<open>Numbers\<close>

text \<open>A string literal as bytes.\<close>

definition str :: "string \<Rightarrow> u8 list" where
  "str cs = map (\<lambda>c. of_nat (of_char c)) cs"

definition digits :: "u8 list" where
  "digits = str ''0123456789abcdef''"

text \<open>
  The \<open>do\<close> loop of \<open>printint\<close>: the digits of \<open>x\<close>, the last one first. The bases in use are 10 and
  16; the test for a base below 2 only makes the function total.
\<close>

function num_rev :: "nat \<Rightarrow> nat \<Rightarrow> nat list" where
  "num_rev base x = x mod base # (if x div base = 0 \<or> base < 2 then [] else num_rev base (x div base))"
  by pat_completeness auto
termination
  by (relation "measure snd") (auto simp: div_less_dividend div_greater_zero_iff)

declare num_rev.simps [simp del]

text \<open>The bytes that \<open>printint\<close> puts into \<open>buf\<close>, from index 0.\<close>

definition int_buf :: "u64 \<Rightarrow> nat \<Rightarrow> bool \<Rightarrow> u8 list" where
  "int_buf xx base sign =
     (let sign = (sign \<and> xx <s 0);
          x = (if sign then - xx else xx)
      in map (\<lambda>d. digits ! d) (num_rev base (unat x)) @ (if sign then str ''-'' else []))"

section \<open>Output\<close>

definition BACKSPACE :: u32 where [params]: "BACKSPACE = 0x100"

definition consputc :: "u32 \<Rightarrow> 'a ustate_scheme \<Rightarrow> (unit, 'a ustate_scheme) run" where
  "consputc c s =
     (if c = BACKSPACE
      then bnd (uartputc_sync 8 s) (\<lambda>_ s. bnd (uartputc_sync 32 s) (\<lambda>_ s. uartputc_sync 8 s))
      else uartputc_sync (ucast c) s)"

definition cputs :: "u8 list \<Rightarrow> 'a ustate_scheme \<Rightarrow> (unit, 'a ustate_scheme) run" where
  "cputs cs s = each (\<lambda>c. consputc (ucast c)) cs s"

definition printint :: "u64 \<Rightarrow> nat \<Rightarrow> bool \<Rightarrow> 'a ustate_scheme \<Rightarrow> (unit, 'a ustate_scheme) run" where
  "printint xx base sign s =
     (let buf = int_buf xx base sign
      in if 16 < length buf then Undef else cputs (rev buf) s)"

definition ptr_text :: "u64 \<Rightarrow> u8 list" where
  "ptr_text x = str ''0x'' @ map (\<lambda>i. digits ! unat (drop_bit 60 (push_bit (4 * i) x))) [0..<16]"

definition printptr :: "u64 \<Rightarrow> 'a ustate_scheme \<Rightarrow> (unit, 'a ustate_scheme) run" where
  "printptr x s = cputs (ptr_text x) s"

section \<open>Format strings\<close>

datatype va = VNum u64 | VStr "u8 list option"

text \<open>The conversion that follows a percent sign, and the number of characters after the first it takes.\<close>

datatype conv = CInt nat bool | CLong nat bool | CPtr | CStr | CPercent | CEnd | CUnknown

definition conversion :: "u8 \<Rightarrow> u8 \<Rightarrow> u8 \<Rightarrow> conv \<times> nat" where
  "conversion c0 c1 c2 =
     (if c0 = 100 then (CInt 10 True, 0)
      else if c0 = 108 \<and> c1 = 100 then (CLong 10 True, 1)
      else if c0 = 108 \<and> c1 = 108 \<and> c2 = 100 then (CLong 10 True, 2)
      else if c0 = 117 then (CInt 10 False, 0)
      else if c0 = 108 \<and> c1 = 117 then (CLong 10 False, 1)
      else if c0 = 108 \<and> c1 = 108 \<and> c2 = 117 then (CLong 10 False, 2)
      else if c0 = 120 then (CInt 16 False, 0)
      else if c0 = 108 \<and> c1 = 120 then (CLong 16 False, 1)
      else if c0 = 108 \<and> c1 = 108 \<and> c2 = 120 then (CLong 16 False, 2)
      else if c0 = 112 then (CPtr, 0)
      else if c0 = 115 then (CStr, 0)
      else if c0 = 37 then (CPercent, 0)
      else if c0 = 0 then (CEnd, 0)
      else (CUnknown, 0))"

text \<open>An \<open>int\<close> argument is sign-extended when it is passed to \<open>printint\<close>, whose parameter is a \<open>long long\<close>.\<close>

definition as_int :: "u64 \<Rightarrow> u64" where
  "as_int a = scast (ucast a :: u32)"

definition kput :: "conv \<Rightarrow> u8 \<Rightarrow> va list \<Rightarrow> 'a ustate_scheme \<Rightarrow> (va list, 'a ustate_scheme) run" where
  "kput cv c0 ap s =
     (case cv of
        CInt base sign \<Rightarrow>
          (case ap of VNum a # ap \<Rightarrow> bnd (printint (as_int a) base sign s) (\<lambda>_ s. Ret ap s) | _ \<Rightarrow> Undef)
      | CLong base sign \<Rightarrow>
          (case ap of VNum a # ap \<Rightarrow> bnd (printint a base sign s) (\<lambda>_ s. Ret ap s) | _ \<Rightarrow> Undef)
      | CPtr \<Rightarrow> (case ap of VNum a # ap \<Rightarrow> bnd (printptr a s) (\<lambda>_ s. Ret ap s) | _ \<Rightarrow> Undef)
      | CStr \<Rightarrow>
          (case ap of VStr t # ap \<Rightarrow>
             bnd (cputs (case t of None \<Rightarrow> str ''(null)'' | Some cs \<Rightarrow> cs) s) (\<lambda>_ s. Ret ap s)
           | _ \<Rightarrow> Undef)
      | CPercent \<Rightarrow> bnd (consputc 37 s) (\<lambda>_ s. Ret ap s)
      | CEnd \<Rightarrow> Ret ap s
      | CUnknown \<Rightarrow> bnd (consputc 37 s) (\<lambda>_ s. bnd (consputc (ucast c0) s) (\<lambda>_ s. Ret ap s)))"

function printf :: "u8 list \<Rightarrow> va list \<Rightarrow> 'a ustate_scheme \<Rightarrow> (unit, 'a ustate_scheme) run" where
  "printf fmt ap s =
     (case fmt of
        [] \<Rightarrow> Ret () s
      | cx # rest \<Rightarrow>
          if cx \<noteq> 37 then bnd (consputc (ucast cx) s) (\<lambda>_ s. printf rest ap s)
          else let c0 = byte_at rest 0; (cv, k) = conversion c0 (byte_at rest 1) (byte_at rest 2)
               in if cv = CEnd then Ret () s
                  else bnd (kput cv c0 ap s) (\<lambda>ap s. printf (drop (Suc k) rest) ap s))"
  by pat_completeness auto
termination
  by (relation "measure (\<lambda>(fmt, _, _). length fmt)") auto

declare printf.simps [simp del]

text \<open>
  \<open>panic\<close> prints its message without the lock of \<open>printf\<close>, freezes the UART and spins. In the routines
  of this development it is the outcome \<open>Panic\<close>; the result here is the state in which it spins.
\<close>

definition panic :: "u8 list \<Rightarrow> 'a ustate_scheme \<Rightarrow> (unit, 'a ustate_scheme) run" where
  "panic msg s =
     bnd (printf (str ''panic: '') [] s) (\<lambda>_ s.
     bnd (printf (str ''%s'' @ [10]) [VStr (Some msg)] s) (\<lambda>_ s.
     Ret () (s\<lparr>panicked := True\<rparr>)))"


section \<open>What is printed\<close>

text \<open>
  On a device that is ready whenever it is asked, output is synchronous: the bytes go to the transmit
  register one after the other. \<open>emit\<close> is that effect.
\<close>

definition emit :: "u8 list \<Rightarrow> 'a ustate_scheme \<Rightarrow> 'a ustate_scheme" where
  "emit cs s = s\<lparr>uart_time := uart_time s + length cs, uart_regs := uart_regs s @ map (Pair THR) cs\<rparr>"

definition can_print :: "'a ustate_scheme \<Rightarrow> bool" where
  "can_print s \<longleftrightarrow> uart_idle s \<and> \<not> panicked s"

lemma can_print_emit [simp]: "can_print (emit cs s) = can_print s"
  by (simp add: can_print_def emit_def uart_idle_def)

lemma emit_emit [simp]: "emit cs (emit bs s) = emit (bs @ cs) s"
  by (simp add: emit_def)

lemma emit_Nil [simp]: "emit [] s = s"
  by (simp add: emit_def)

lemma uartputc_sync_emit: "can_print s \<Longrightarrow> uartputc_sync c s = Ret () (emit [c] s)"
  by (simp add: uartputc_sync_def can_print_def uart_idle_def ReadReg_def WriteReg_def emit_def loop_unfold spin_def)

lemma consputc_emit: "can_print s \<Longrightarrow> consputc c s = Ret () (emit (if c = BACKSPACE then [8, 32, 8] else [ucast c]) s)"
  by (simp add: consputc_def uartputc_sync_emit)

lemma consputc_byte: "can_print s \<Longrightarrow> consputc (ucast (c :: u8)) s = Ret () (emit [c] s)"
proof -
  have u: "uint c < 256" using unsigned_less [of c, where ?'a = int] by simp
  then have "uint (ucast c :: u32) = uint c" by (simp add: unsigned_ucast_eq take_bit_int_eq_self_iff)
  with u have "ucast c \<noteq> BACKSPACE" by (auto simp: BACKSPACE_def)
  moreover from u have "ucast (ucast c :: u32) = c"
    by (auto simp: word_uint_eq_iff unsigned_ucast_eq [where ?'a = int] take_bit_int_eq_self_iff)
  moreover assume "can_print s"
  ultimately show ?thesis by (simp add: consputc_emit)
qed

lemma cputs_emit: "can_print s \<Longrightarrow> cputs cs s = Ret () (emit cs s)"
  by (induction cs arbitrary: s) (simp_all add: cputs_def consputc_byte)

text \<open>The text of a call of \<open>printf\<close>; \<open>None\<close> where the call is undefined.\<close>

definition int_text :: "u64 \<Rightarrow> nat \<Rightarrow> bool \<Rightarrow> u8 list option" where
  "int_text x base sign = (if 16 < length (int_buf x base sign) then None else Some (rev (int_buf x base sign)))"

definition conv_text :: "conv \<Rightarrow> u8 \<Rightarrow> va list \<Rightarrow> (u8 list \<times> va list) option" where
  "conv_text cv c0 ap =
     (case (cv, ap) of
        (CInt base sign, VNum a # ap) \<Rightarrow> map_option (\<lambda>t. (t, ap)) (int_text (as_int a) base sign)
      | (CLong base sign, VNum a # ap) \<Rightarrow> map_option (\<lambda>t. (t, ap)) (int_text a base sign)
      | (CPtr, VNum a # ap) \<Rightarrow> Some (ptr_text a, ap)
      | (CStr, VStr None # ap) \<Rightarrow> Some (str ''(null)'', ap)
      | (CStr, VStr (Some t) # ap) \<Rightarrow> Some (t, ap)
      | (CPercent, ap) \<Rightarrow> Some ([37], ap)
      | (CEnd, ap) \<Rightarrow> Some ([], ap)
      | (CUnknown, ap) \<Rightarrow> Some ([37, c0], ap)
      | _ \<Rightarrow> None)"

function text_of :: "u8 list \<Rightarrow> va list \<Rightarrow> u8 list option" where
  "text_of fmt ap =
     (case fmt of
        [] \<Rightarrow> Some []
      | cx # rest \<Rightarrow>
          if cx \<noteq> 37 then map_option (Cons cx) (text_of rest ap)
          else let c0 = byte_at rest 0; (cv, k) = conversion c0 (byte_at rest 1) (byte_at rest 2)
               in if cv = CEnd then Some []
                  else case conv_text cv c0 ap of
                         None \<Rightarrow> None
                       | Some (t, ap) \<Rightarrow> map_option ((@) t) (text_of (drop (Suc k) rest) ap))"
  by pat_completeness auto
termination
  by (relation "measure (\<lambda>(fmt, _). length fmt)") auto

declare text_of.simps [simp del]

lemma kput_emit:
  assumes "can_print s"
  shows "kput cv c0 ap s = (case conv_text cv c0 ap of None \<Rightarrow> Undef | Some (t, ap) \<Rightarrow> Ret ap (emit t s))"
  using assms consputc_byte [of s 37]
  by (auto simp: kput_def conv_text_def printint_def int_text_def printptr_def cputs_emit consputc_byte Let_def
      split: conv.splits list.splits va.splits option.splits)

lemma printf_emit:
  "can_print s \<Longrightarrow> printf fmt ap s = (case text_of fmt ap of None \<Rightarrow> Undef | Some t \<Rightarrow> Ret () (emit t s))"
proof (induction fmt ap arbitrary: s rule: text_of.induct)
  case (1 fmt ap)
  show ?case
  proof (cases fmt)
    case Nil
    then show ?thesis by (simp add: printf.simps text_of.simps)
  next
    case (Cons cx rest)
    show ?thesis
    proof (cases "cx = 37")
      case False
      then show ?thesis using 1 Cons
        by (simp add: printf.simps [of "cx # rest"] text_of.simps [of "cx # rest"] consputc_byte split: option.splits)
    next
      case True
      obtain cv k where cv: "conversion (byte_at rest 0) (byte_at rest 1) (byte_at rest 2) = (cv, k)" by fastforce
      show ?thesis
      proof (cases "cv = CEnd \<or> conv_text cv (byte_at rest 0) ap = None")
        case end': True
        then show ?thesis using 1(3) Cons True cv
          by (auto simp: printf.simps [of "37 # rest"] text_of.simps [of "37 # rest"] kput_emit Let_def)
      next
        case go: False
        then obtain t ap' where t: "conv_text cv (byte_at rest 0) ap = Some (t, ap')" by auto
        have "printf (drop (Suc k) rest) ap' (emit t s) =
            (case text_of (drop (Suc k) rest) ap' of None \<Rightarrow> Undef | Some u \<Rightarrow> Ret () (emit u (emit t s)))"
          using 1(2) [OF Cons _ refl cv [symmetric] refl _ t refl] go 1(3) True by simp
        with 1(3) Cons True cv t go show ?thesis
          by (simp add: printf.simps [of "37 # rest"] text_of.simps [of "37 # rest"] kput_emit Let_def split: option.splits)
      qed
    qed
  qed
qed


section \<open>Numbers, read back\<close>

lemma num_rev_value: "2 \<le> base \<Longrightarrow> foldr (\<lambda>d v. d + base * v) (num_rev base x) 0 = x"
proof (induction base x rule: num_rev.induct)
  case (1 base x)
  show ?case
  proof (cases "x div base = 0")
    case True
    then have "x < base" using 1(2) by (simp add: div_eq_0_iff)
    with True show ?thesis by (subst num_rev.simps) simp
  next
    case False
    with 1 show ?thesis by (subst num_rev.simps) simp
  qed
qed

lemma num_rev_digit: "0 < base \<Longrightarrow> d \<in> set (num_rev base x) \<Longrightarrow> d < base"
proof (induction base x rule: num_rev.induct)
  case (1 base x)
  from 1(3) show ?case by (subst (asm) num_rev.simps) (use 1 in \<open>auto split: if_splits\<close>)
qed

lemma length_num_rev_le: "2 \<le> base \<Longrightarrow> x < base ^ Suc n \<Longrightarrow> length (num_rev base x) \<le> Suc n"
proof (induction n arbitrary: x)
  case 0
  then show ?case by (subst num_rev.simps) simp
next
  case (Suc n)
  from Suc.prems(2) have "x div base < base ^ Suc n" by (simp add: less_mult_imp_div_less mult.commute)
  then show ?case using Suc by (subst num_rev.simps) simp
qed

lemma length_num_rev_gt: "2 \<le> base \<Longrightarrow> base ^ n \<le> x \<Longrightarrow> n < length (num_rev base x)"
proof (induction n arbitrary: x)
  case 0
  then show ?case by (subst num_rev.simps) simp
next
  case (Suc n)
  have "base ^ n \<le> x div base" using Suc.prems by (simp add: less_eq_div_iff_mult_less_eq mult.commute)
  moreover from this have "x div base \<noteq> 0" using Suc.prems(1) by (metis not_numeral_le_zero power_not_zero le_zero_eq)
  ultimately show ?case using Suc by (subst num_rev.simps) simp
qed

lemma as_int_cases:
  shows "\<not> ucast a <s (0 :: u32) \<Longrightarrow> \<not> as_int a <s 0 \<and> unat (as_int a) < 2 ^ 31"
    and "ucast a <s (0 :: u32) \<Longrightarrow> as_int a <s 0 \<and> unat (- as_int a) \<le> 2 ^ 31 \<and> 2 ^ 64 - 2 ^ 31 \<le> unat (as_int a)"
proof -
  let ?x = "ucast a :: u32"
  define k where "k = sint ?x"
  have k: "- (2 ^ 31) \<le> k" "k < 2 ^ 31"
    using sint_greater_eq [of ?x] sint_less [of ?x] by (simp_all add: k_def)
  have s: "sint (as_int a) = k"
    unfolding as_int_def signed_scast_eq k_def [symmetric] by (rule signed_take_bit_int_eq_self) (use k in simp_all)
  have u: "as_int a = word_of_int k" by (simp add: as_int_def k_def)
  {
    assume "\<not> ?x <s 0"
    then have "0 \<le> k" by (simp add: word_sless_alt k_def)
    moreover from this k have "uint (as_int a) = k" unfolding u by (simp add: uint_word_of_int)
    ultimately show "\<not> as_int a <s 0 \<and> unat (as_int a) < 2 ^ 31"
      using s k by (simp add: word_sless_alt unat_eq_nat_uint nat_less_iff)
  }
  assume "?x <s 0"
  then have n: "k < 0" by (simp add: word_sless_alt k_def)
  have "uint (as_int a) = (k + 2 ^ 64) mod 2 ^ 64" unfolding u by (simp add: uint_word_of_int)
  also have "\<dots> = k + 2 ^ 64" using n k by (intro mod_pos_pos_trivial) simp_all
  finally have 1: "uint (as_int a) = k + 2 ^ 64" .
  have "- as_int a = word_of_int (- k)" unfolding u by simp
  then have "uint (- as_int a) = uint (word_of_int (- k) :: u64)" by (rule arg_cong)
  also have "\<dots> = - k mod 2 ^ 64" by (simp only: uint_word_of_int) simp
  also have "\<dots> = - k" using n k by (intro mod_pos_pos_trivial) simp_all
  finally have 2: "uint (- as_int a) = - k" .
  show "as_int a <s 0 \<and> unat (- as_int a) \<le> 2 ^ 31 \<and> 2 ^ 64 - 2 ^ 31 \<le> unat (as_int a)"
    using s n k 1 2 by (simp add: word_sless_alt unat_eq_nat_uint nat_le_iff le_nat_iff)
qed


lemma length_int_buf: "length (int_buf x base sign) =
    length (num_rev base (unat (if sign \<and> x <s 0 then - x else x))) + (if sign \<and> x <s 0 then 1 else 0)"
  by (simp add: int_buf_def Let_def str_def)

lemma dec_fits: "n \<le> 2 ^ 31 \<Longrightarrow> length (num_rev 10 n) \<le> 10"
  using length_num_rev_le [of 10 n 9] by simp

lemma int_fits: "length (int_buf (as_int a) 10 True) \<le> 16"
proof (cases "ucast a <s (0 :: u32)")
  case True
  with as_int_cases(2) [OF True] dec_fits [of "unat (- as_int a)"] show ?thesis by (simp add: length_int_buf)
next
  case False
  with as_int_cases(1) [OF False] dec_fits [of "unat (as_int a)"] show ?thesis by (simp add: length_int_buf)
qed



definition demo_idle :: ustate where
  "demo_idle = demo_ustate\<lparr>uart_dev := \<lambda>_ _. LSR_TX_IDLE\<rparr>"

lemma demo_idle_ok: "uart_idle demo_idle" "\<not> panicked demo_idle" "uart_regs demo_idle = []"
  by (simp_all add: demo_idle_def demo_ustate_defs uart_idle_def LSR_TX_IDLE_def)


end
