(* ===== verification/Console.thy ===== *)
theory Console
  imports Kprintf
begin

text \<open>
  The console (kernel/console.c), the interrupt half of the UART driver (\<open>uartintr\<close>, kernel/uart.c)
  and the process listing that control-P prints (\<open>procdump\<close>, kernel/proc.c). A character is a byte,
  as \<open>char\<close> is unsigned on this machine.
\<close>

definition CTRL_D :: u8 where [params]: "CTRL_D = 4"
definition CTRL_H :: u8 where [params]: "CTRL_H = 8"
definition CTRL_P :: u8 where [params]: "CTRL_P = 16"
definition CTRL_U :: u8 where [params]: "CTRL_U = 21"
definition DEL :: u8 where [params]: "DEL = 0x7f"
definition newline :: u8 where [params]: "newline = 10"
definition carriage_return :: u8 where [params]: "carriage_return = 13"
definition INPUT_BUF_SIZE :: nat where [params]: "INPUT_BUF_SIZE = 128"
definition CONSOLE :: nat where [params]: "CONSOLE = 1"

text \<open>The device switch (kernel/file.h): the functions a driver installs, \<open>None\<close> the null pointer.\<close>

datatype devfun = Consoleread | Consolewrite

record devsw =
  dv_read :: "devfun option"
  dv_write :: "devfun option"

record cstate = ustate +
  cons_buf :: "u8 list"
  cons_r :: u32
  cons_w :: u32
  cons_e :: u32
  devsws :: "devsw list"

section \<open>Listing the processes\<close>

definition state_name :: "procstate \<Rightarrow> u8 list" where
  "state_name st =
     (case st of UNUSED \<Rightarrow> str ''unused'' | USED \<Rightarrow> str ''used'' | SLEEPING \<Rightarrow> str ''sleep ''
      | RUNNABLE \<Rightarrow> str ''runble'' | RUNNING \<Rightarrow> str ''run   '' | ZOMBIE \<Rightarrow> str ''zombie'')"

definition dump_one :: "nat \<Rightarrow> 'a ustate_scheme \<Rightarrow> (unit, 'a ustate_scheme) run" where
  "dump_one i s =
     (let p = procs s ! i
      in if p_state p = UNUSED then Ret () s
         else bnd (printf (str ''%d %s %s'')
                [VNum (ucast (p_pid p)), VStr (Some (state_name (p_state p))), VStr (Some (p_name p))] s) (\<lambda>_ s.
              printf [newline] [] s))"

definition procdump :: "'a ustate_scheme \<Rightarrow> (unit, 'a ustate_scheme) run" where
  "procdump s = bnd (printf [newline] [] s) (\<lambda>_ s. each dump_one [0..<length (procs s)] s)"

section \<open>Writing\<close>

text \<open>One round of \<open>consolewrite\<close> sends a byte; it may sleep in \<open>uartputc\<close>, and goes on from there.\<close>

definition consolewrite_from :: "bool \<Rightarrow> u64 \<Rightarrow> u32 \<Rightarrow> u32 \<Rightarrow> 'a ustate_scheme \<Rightarrow> (u32, 'a ustate_scheme) run" where
  "consolewrite_from user_src src n i s =
     loop (Suc (unat (n - i))) (\<lambda>i s.
       if i <s n
       then bnd (either_copyin s user_src (src + scast i) 1) (\<lambda>(ok, cs) s.
         if \<not> ok then Ret (Inr i) s
         else bnd (uartputc (byte_at cs 0) s) (\<lambda>_ s. Ret (Inl (i + 1)) s))
       else Ret (Inr i) s) i s"

definition consolewrite :: "bool \<Rightarrow> u64 \<Rightarrow> u32 \<Rightarrow> 'a ustate_scheme \<Rightarrow> (u32, 'a ustate_scheme) run" where
  "consolewrite user_src src n s = consolewrite_from user_src src n 0 s"

section \<open>Reading\<close>

text \<open>
  The loop of \<open>consoleread\<close>, with \<open>n\<close> bytes still wanted of \<open>target\<close>. When the buffer has no line it
  sleeps, and the woken process goes on with the same \<open>dst\<close> and \<open>n\<close>. The result -1 is \<open>None\<close>.
\<close>

definition consoleread_from :: "bool \<Rightarrow> u32 \<Rightarrow> u64 \<Rightarrow> u32 \<Rightarrow> 'a cstate_scheme \<Rightarrow> (u32 option, 'a cstate_scheme) run" where
  "consoleread_from user_dst target dst n s =
     loop (Suc (unat n)) (\<lambda>(dst, n) s.
       if 0 <s n
       then if cons_r s = cons_w s
            then with_proc s (\<lambda>me. if killed s me then Ret (Inr None) s else sleep ChCons s)
            else let c = cons_buf s ! ring_index INPUT_BUF_SIZE (cons_r s);
                     s = s\<lparr>cons_r := cons_r s + 1\<rparr>
                 in if c = CTRL_D
                    then Ret (Inr (Some (target - n))) (if n < target then s\<lparr>cons_r := cons_r s - 1\<rparr> else s)
                    else bnd (either_copyout s user_dst dst [c]) (\<lambda>ok s.
                      if \<not> ok then Ret (Inr (Some (target - n))) s
                      else if c = newline then Ret (Inr (Some (target - (n - 1)))) s
                      else Ret (Inl (dst + 1, n - 1)) s)
       else Ret (Inr (Some (target - n))) s) (dst, n) s"

definition consoleread :: "bool \<Rightarrow> u64 \<Rightarrow> u32 \<Rightarrow> 'a cstate_scheme \<Rightarrow> (u32 option, 'a cstate_scheme) run" where
  "consoleread user_dst dst n s = consoleread_from user_dst n dst n s"

section \<open>Input\<close>

definition erase :: "'a cstate_scheme \<Rightarrow> (unit, 'a cstate_scheme) run" where
  "erase s = consputc BACKSPACE (s\<lparr>cons_e := cons_e s - 1\<rparr>)"

definition kill_line :: "'a cstate_scheme \<Rightarrow> (unit, 'a cstate_scheme) run" where
  "kill_line s =
     loop (Suc (unat (cons_e s - cons_w s))) (\<lambda>_ s.
       if cons_e s \<noteq> cons_w s \<and> cons_buf s ! ring_index INPUT_BUF_SIZE (cons_e s - 1) \<noteq> newline
       then bnd (erase s) (\<lambda>_ s. Ret (Inl ()) s)
       else Ret (Inr ()) s) () s"

definition put_input :: "u8 \<Rightarrow> 'a cstate_scheme \<Rightarrow> 'a cstate_scheme" where
  "put_input c s =
     (let s = s\<lparr>cons_buf := (cons_buf s)[ring_index INPUT_BUF_SIZE (cons_e s) := c], cons_e := cons_e s + 1\<rparr>
      in if c = newline \<or> c = CTRL_D \<or> cons_e s - cons_r s = of_nat INPUT_BUF_SIZE
         then wakeup (Some ChCons) (s\<lparr>cons_w := cons_e s\<rparr>)
         else s)"

definition consoleintr :: "u8 \<Rightarrow> 'a cstate_scheme \<Rightarrow> (unit, 'a cstate_scheme) run" where
  "consoleintr c s =
     (if c = CTRL_P then procdump s
      else if c = CTRL_U then kill_line s
      else if c = CTRL_H \<or> c = DEL then (if cons_e s \<noteq> cons_w s then erase s else Ret () s)
      else if c \<noteq> 0 \<and> cons_e s - cons_r s < of_nat INPUT_BUF_SIZE
      then let c = (if c = carriage_return then newline else c)
           in bnd (consputc (ucast c) s) (\<lambda>_ s. Ret () (put_input c s))
      else Ret () s)"

definition consoleinit :: "'a cstate_scheme \<Rightarrow> 'a cstate_scheme" where
  "consoleinit s =
     (let s = uartinit s
      in s\<lparr>devsws := (devsws s)[CONSOLE := \<lparr>dv_read = Some Consoleread, dv_write = Some Consolewrite\<rparr>]\<rparr>)"

definition uartintr :: "'a cstate_scheme \<Rightarrow> (unit, 'a cstate_scheme) run" where
  "uartintr s =
     bnd (loop spin (\<lambda>_ s.
            case uartgetc s of
              (None, s) \<Rightarrow> Ret (Inr ()) s
            | (Some c, s) \<Rightarrow> bnd (consoleintr c s) (\<lambda>_ s. Ret (Inl ()) s)) () s) (\<lambda>_ s.
     uartstart s)"

end
