(* ===== verification/Pipe.thy ===== *)
theory Pipe
  imports Console
begin

text \<open>
  The file table and pipes: the structures of kernel/file.h and kernel/file.c, and the routines of
  kernel/pipe.c on one pipe. A pipe lives in a page of its own and is named by the page's address;
  \<open>pipes\<close> gives the structure that overlays the page. A routine holds the pipe's lock from its start
  to where it returns or sleeps, so each run is one step of the system.
\<close>

definition PIPESIZE :: nat where [params]: "PIPESIZE = 512"

datatype fdtype = FD_NONE | FD_PIPE | FD_INODE | FD_DEVICE

text \<open>\<open>f_ip\<close> and \<open>f_pipe\<close> mean something only for the types that use them.\<close>

record kfile =
  f_type :: fdtype
  f_ref :: u32
  f_readable :: bool
  f_writable :: bool
  f_pipe :: u64
  f_ip :: nat
  f_off :: u32
  f_major :: u16

record pipe =
  pi_data :: "u8 list"
  nread :: u32
  nwrite :: u32
  readopen :: bool
  writeopen :: bool

text \<open>
  The state with the file table and the pipes. \<open>junk\<close> is what the kernel stack holds in bytes a
  routine does not initialise.
\<close>

record kstate = cstate +
  ftable :: "kfile list"
  pipes :: "u64 \<Rightarrow> pipe"
  junk :: u8

definition upd_file :: "nat \<Rightarrow> (kfile \<Rightarrow> kfile) \<Rightarrow> 'a kstate_scheme \<Rightarrow> 'a kstate_scheme" where
  "upd_file f g s = s\<lparr>ftable := (ftable s)[f := g (ftable s ! f)]\<rparr>"

definition upd_pipe :: "u64 \<Rightarrow> (pipe \<Rightarrow> pipe) \<Rightarrow> 'a kstate_scheme \<Rightarrow> 'a kstate_scheme" where
  "upd_pipe pi g s = s\<lparr>pipes := (pipes s)(pi := g (pipes s pi))\<rparr>"

section \<open>Pipes\<close>

definition pipeclose :: "u64 \<Rightarrow> bool \<Rightarrow> 'a kstate_scheme \<Rightarrow> (unit, 'a kstate_scheme) run" where
  "pipeclose pi writable s =
     (let s = (if writable then wakeup (Some (ChPipeRead pi)) (upd_pipe pi (\<lambda>p. p\<lparr>writeopen := False\<rparr>) s)
               else wakeup (Some (ChPipeWrite pi)) (upd_pipe pi (\<lambda>p. p\<lparr>readopen := False\<rparr>) s))
      in if \<not> readopen (pipes s pi) \<and> \<not> writeopen (pipes s pi) then kfree s pi else Ret () s)"

text \<open>
  The loop of \<open>pipewrite\<close> from its \<open>i\<close>-th byte; a writer that sleeps on a full pipe goes on with the
  same \<open>i\<close>. The result -1 is \<open>None\<close>.
\<close>

definition pipewrite_step :: "u64 \<Rightarrow> u64 \<Rightarrow> u32 \<Rightarrow> nat \<Rightarrow> u32 \<Rightarrow> 'a kstate_scheme \<Rightarrow> (u32 + u32 option, 'a kstate_scheme) run" where
  "pipewrite_step pi addr n pr i s =
     (if i <s n
      then if \<not> readopen (pipes s pi) \<or> killed s pr then Ret (Inr None) s
           else if nwrite (pipes s pi) = nread (pipes s pi) + of_nat PIPESIZE
           then sleep (ChPipeWrite pi) (wakeup (Some (ChPipeRead pi)) s)
           else bnd (copyin s (p_pagetable (procs s ! pr)) (addr + scast i) 1) (\<lambda>(ok, cs) s.
             if \<not> ok then Ret (Inr (Some i)) (wakeup (Some (ChPipeRead pi)) s)
             else Ret (Inl (i + 1)) (upd_pipe pi (\<lambda>p. p\<lparr>
                    pi_data := (pi_data p)[ring_index PIPESIZE (nwrite p) := byte_at cs 0],
                    nwrite := nwrite p + 1\<rparr>) s))
      else Ret (Inr (Some i)) (wakeup (Some (ChPipeRead pi)) s))"

definition pipewrite_from :: "u64 \<Rightarrow> u64 \<Rightarrow> u32 \<Rightarrow> u32 \<Rightarrow> 'a kstate_scheme \<Rightarrow> (u32 option, 'a kstate_scheme) run" where
  "pipewrite_from pi addr n i s =
     with_proc s (\<lambda>pr. loop (Suc (unat (n - i))) (pipewrite_step pi addr n pr) i s)"

definition pipewrite :: "u64 \<Rightarrow> u64 \<Rightarrow> u32 \<Rightarrow> 'a kstate_scheme \<Rightarrow> (u32 option, 'a kstate_scheme) run" where
  "pipewrite pi addr n s = pipewrite_from pi addr n 0 s"

definition piperead_step :: "u64 \<Rightarrow> u64 \<Rightarrow> u32 \<Rightarrow> nat \<Rightarrow> u32 \<Rightarrow> 'a kstate_scheme \<Rightarrow> (u32 + u32, 'a kstate_scheme) run" where
  "piperead_step pi addr n pr i s =
     (if i <s n
      then if nread (pipes s pi) = nwrite (pipes s pi) then Ret (Inr i) s
           else let ch = pi_data (pipes s pi) ! ring_index PIPESIZE (nread (pipes s pi));
                    s = upd_pipe pi (\<lambda>p. p\<lparr>nread := nread p + 1\<rparr>) s
                in bnd (copyout s (p_pagetable (procs s ! pr)) (addr + scast i) [ch]) (\<lambda>ok s.
                  if \<not> ok then Ret (Inr i) s else Ret (Inl (i + 1)) s)
      else Ret (Inr i) s)"

definition piperead :: "u64 \<Rightarrow> u64 \<Rightarrow> u32 \<Rightarrow> 'a kstate_scheme \<Rightarrow> (u32 option, 'a kstate_scheme) run" where
  "piperead pi addr n s =
     with_proc s (\<lambda>pr.
       if nread (pipes s pi) = nwrite (pipes s pi) \<and> writeopen (pipes s pi)
       then if killed s pr then Ret None s else sleep (ChPipeRead pi) s
       else bnd (loop (Suc (unat n)) (piperead_step pi addr n pr) 0 s) (\<lambda>i s.
         Ret (Some i) (wakeup (Some (ChPipeWrite pi)) s)))"

end
