(* ===== verification/File.thy ===== *)
theory File
  imports Pipe
begin

text \<open>
  Open files (kernel/file.c) and the creation of pipes (\<open>pipealloc\<close>, kernel/pipe.c). A file is named by
  its slot in the table.
\<close>

definition filealloc :: "'a kstate_scheme \<Rightarrow> nat option \<times> 'a kstate_scheme" where
  "filealloc s =
     (case first_slot (\<lambda>f. f_ref f = 0) (ftable s) of
        None \<Rightarrow> (None, s)
      | Some f \<Rightarrow> (Some f, upd_file f (\<lambda>x. x\<lparr>f_ref := 1\<rparr>) s))"

definition filedup :: "nat \<Rightarrow> 'a kstate_scheme \<Rightarrow> (unit, 'a kstate_scheme) run" where
  "filedup f s =
     (if f_ref (ftable s ! f) <s 1 then Panic ''filedup''
      else Ret () (upd_file f (\<lambda>x. x\<lparr>f_ref := f_ref x + 1\<rparr>) s))"

definition fileclose :: "nat \<Rightarrow> 'a kstate_scheme \<Rightarrow> (unit, 'a kstate_scheme) run" where
  "fileclose f s =
     (if f_ref (ftable s ! f) <s 1 then Panic ''fileclose''
      else let s = upd_file f (\<lambda>x. x\<lparr>f_ref := f_ref x - 1\<rparr>) s
           in if 0 <s f_ref (ftable s ! f) then Ret () s
              else let ff = ftable s ! f;
                       s = upd_file f (\<lambda>x. x\<lparr>f_ref := 0, f_type := FD_NONE\<rparr>) s
                   in if f_type ff = FD_PIPE then pipeclose (f_pipe ff) (f_writable ff) s
                      else if f_type ff = FD_INODE \<or> f_type ff = FD_DEVICE
                      then bnd (begin_op s) (\<lambda>_ s.
                           bnd (iput (f_ip ff) s) (\<lambda>_ s.
                           end_op s))
                      else Ret () s)"

text \<open>The two files, \<open>None\<close> for the return value -1. A fresh page is filled with 5 by \<open>kalloc\<close>.\<close>

definition pipealloc :: "'a kstate_scheme \<Rightarrow> ((nat \<times> nat) option, 'a kstate_scheme) run" where
  "pipealloc s =
     (case filealloc s of
        (None, s) \<Rightarrow> Ret None s
      | (Some f0, s) \<Rightarrow>
          (case filealloc s of
             (None, s) \<Rightarrow> bnd (fileclose f0 s) (\<lambda>_ s. Ret None s)
           | (Some f1, s) \<Rightarrow>
               bnd (kalloc s) (\<lambda>pi s.
                 if pi = 0
                 then bnd (fileclose f0 s) (\<lambda>_ s. bnd (fileclose f1 s) (\<lambda>_ s. Ret None s))
                 else let s = upd_pipe pi (\<lambda>_. \<lparr>pi_data = replicate PIPESIZE 5, nread = 0, nwrite = 0,
                                readopen = True, writeopen = True\<rparr>) s;
                          s = upd_file f0 (\<lambda>x. x\<lparr>f_type := FD_PIPE, f_readable := True, f_writable := False, f_pipe := pi\<rparr>) s;
                          s = upd_file f1 (\<lambda>x. x\<lparr>f_type := FD_PIPE, f_readable := False, f_writable := True, f_pipe := pi\<rparr>) s
                      in Ret (Some (f0, f1)) s)))"

text \<open>The bytes of \<open>struct stat\<close>; there are four bytes of padding before the 64-bit size.\<close>

definition stat_bytes :: "u8 \<Rightarrow> stat \<Rightarrow> u8 list" where
  "stat_bytes pad st = le32 (st_dev st) @ le32 (st_ino st) @ le16 (st_type st) @ le16 (st_nlink st) @
     replicate 4 pad @ le64 (st_size st)"

definition filestat :: "nat \<Rightarrow> u64 \<Rightarrow> 'a kstate_scheme \<Rightarrow> (bool, 'a kstate_scheme) run" where
  "filestat f addr s =
     with_proc s (\<lambda>p.
       if f_type (ftable s ! f) = FD_INODE \<or> f_type (ftable s ! f) = FD_DEVICE
       then let ip = f_ip (ftable s ! f)
            in bnd (ilock ip s) (\<lambda>_ s.
               let st = stati (itable s ! ip)
               in bnd (iunlock ip s) (\<lambda>_ s.
                  copyout s (p_pagetable (procs s ! p)) addr (stat_bytes (junk s) st)))
       else Ret False s)"

text \<open>An \<open>int\<close> result, -1 for failure; and the call of a function of the device switch.\<close>

definition or_minus1 :: "u32 option \<Rightarrow> u32" where
  "or_minus1 r = (case r of None \<Rightarrow> - 1 | Some v \<Rightarrow> v)"

definition call_dev :: "devfun \<Rightarrow> u64 \<Rightarrow> u32 \<Rightarrow> 'a kstate_scheme \<Rightarrow> (u32, 'a kstate_scheme) run" where
  "call_dev d addr n s =
     (case d of Consoleread \<Rightarrow> bnd (consoleread True addr n s) (\<lambda>r s. Ret (or_minus1 r) s)
      | Consolewrite \<Rightarrow> consolewrite True addr n s)"

definition fileread :: "nat \<Rightarrow> u64 \<Rightarrow> u32 \<Rightarrow> 'a kstate_scheme \<Rightarrow> (u32, 'a kstate_scheme) run" where
  "fileread f addr n s =
     (if \<not> f_readable (ftable s ! f) then Ret (- 1) s
      else case f_type (ftable s ! f) of
        FD_PIPE \<Rightarrow> bnd (piperead (f_pipe (ftable s ! f)) addr n s) (\<lambda>r s. Ret (or_minus1 r) s)
      | FD_DEVICE \<Rightarrow>
          let mj = f_major (ftable s ! f)
          in if mj <s 0 \<or> of_nat NDEV \<le>s mj then Ret (- 1) s
             else (case dv_read (devsws s ! unat mj) of None \<Rightarrow> Ret (- 1) s | Some d \<Rightarrow> call_dev d addr n s)
      | FD_INODE \<Rightarrow>
          let ip = f_ip (ftable s ! f)
          in bnd (ilock ip s) (\<lambda>_ s.
             bnd (readi ip (ToUser addr) (f_off (ftable s ! f)) n s) (\<lambda>(r, _) s.
             let s = (if 0 <s r then upd_file f (\<lambda>x. x\<lparr>f_off := f_off x + r\<rparr>) s else s)
             in bnd (iunlock ip s) (\<lambda>_ s. Ret r s)))
      | FD_NONE \<Rightarrow> Panic ''fileread'')"

text \<open>The largest piece of a file that \<open>filewrite\<close> writes in a transaction.\<close>

definition write_max :: u32 where
  "write_max = of_nat (((MAXOPBLOCKS - 1 - 1 - 2) div 2) * BSIZE)"

definition filewrite_step :: "nat \<Rightarrow> u64 \<Rightarrow> u32 \<Rightarrow> u32 \<Rightarrow> 'a kstate_scheme \<Rightarrow> (u32 + u32, 'a kstate_scheme) run" where
  "filewrite_step f addr n i s =
     (if i <s n
      then let n1 = (if write_max <s n - i then write_max else n - i);
               ip = f_ip (ftable s ! f)
           in bnd (begin_op s) (\<lambda>_ s.
              bnd (ilock ip s) (\<lambda>_ s.
              bnd (writei ip (FromUser (addr + scast i)) (f_off (ftable s ! f)) n1 s) (\<lambda>r s.
              let s = (if 0 <s r then upd_file f (\<lambda>x. x\<lparr>f_off := f_off x + r\<rparr>) s else s)
              in bnd (iunlock ip s) (\<lambda>_ s.
                 bnd (end_op s) (\<lambda>_ s.
                 if r \<noteq> n1 then Ret (Inr i) s else Ret (Inl (i + r)) s)))))
      else Ret (Inr i) s)"

definition filewrite :: "nat \<Rightarrow> u64 \<Rightarrow> u32 \<Rightarrow> 'a kstate_scheme \<Rightarrow> (u32, 'a kstate_scheme) run" where
  "filewrite f addr n s =
     (if \<not> f_writable (ftable s ! f) then Ret (- 1) s
      else case f_type (ftable s ! f) of
        FD_PIPE \<Rightarrow> bnd (pipewrite (f_pipe (ftable s ! f)) addr n s) (\<lambda>r s. Ret (or_minus1 r) s)
      | FD_DEVICE \<Rightarrow>
          let mj = f_major (ftable s ! f)
          in if mj <s 0 \<or> of_nat NDEV \<le>s mj then Ret (- 1) s
             else (case dv_write (devsws s ! unat mj) of None \<Rightarrow> Ret (- 1) s | Some d \<Rightarrow> call_dev d addr n s)
      | FD_INODE \<Rightarrow>
          bnd (loop (Suc (unat n)) (filewrite_step f addr n) 0 s) (\<lambda>i s.
            Ret (if i = n then n else - 1) s)
      | FD_NONE \<Rightarrow> Panic ''filewrite'')"

end
