(* ===== verification/Process.thy ===== *)
theory Process
  imports File
begin

text \<open>
  The life of a process across the file system: \<open>userinit\<close>, \<open>fork\<close> and \<open>exit\<close> (kernel/proc.c).
\<close>

definition initcode :: "u8 list" where
  "initcode =
    [0x17, 0x05, 0x00, 0x00, 0x13, 0x05, 0x45, 0x02,
     0x97, 0x05, 0x00, 0x00, 0x93, 0x85, 0x35, 0x02,
     0x93, 0x08, 0x70, 0x00, 0x73, 0x00, 0x00, 0x00,
     0x93, 0x08, 0x20, 0x00, 0x73, 0x00, 0x00, 0x00,
     0xef, 0xf0, 0x9f, 0xff, 0x2f, 0x69, 0x6e, 0x69,
     0x74, 0x00, 0x00, 0x24, 0x00, 0x00, 0x00, 0x00,
     0x00, 0x00, 0x00, 0x00]"

text \<open>\<open>safestrcpy\<close> into the 16 bytes of \<open>p->name\<close>.\<close>

definition proc_name :: "u8 list \<Rightarrow> u8 list" where
  "proc_name cs = take 15 (takeWhile (\<lambda>c. c \<noteq> 0) cs)"

definition userinit :: "'a kstate_scheme \<Rightarrow> (unit, 'a kstate_scheme) run" where
  "userinit s =
     bnd (allocproc s) (\<lambda>r s.
       case r of
         None \<Rightarrow> Undef
       | Some p \<Rightarrow>
           let s = s\<lparr>initproc := Some p\<rparr>
           in bnd (uvmfirst s (p_pagetable (procs s ! p)) initcode) (\<lambda>_ s.
              let s = upd_proc p (\<lambda>q. q\<lparr>p_sz := PGSIZE\<rparr>) s;
                  s = set_tf p tf_epc 0 s;
                  s = set_tf p tf_sp PGSIZE s;
                  s = upd_proc p (\<lambda>q. q\<lparr>p_name := proc_name (str ''initcode'')\<rparr>) s
              in bnd (namei [slash] s) (\<lambda>ip s.
                 Ret () (upd_proc p (\<lambda>q. q\<lparr>p_cwd := ip, p_state := RUNNABLE\<rparr>) s))))"

definition copy_tf :: "nat \<Rightarrow> nat \<Rightarrow> 'a pstate_scheme \<Rightarrow> 'a pstate_scheme" where
  "copy_tf np p s = s\<lparr>phys := store_bytes (phys s) (p_trapframe (procs s ! np))
     (load_bytes (phys s) (p_trapframe (procs s ! p)) (unat trapframe_size))\<rparr>"

text \<open>\<open>None\<close> for the return value -1.\<close>

definition fork :: "'a kstate_scheme \<Rightarrow> (u32 option, 'a kstate_scheme) run" where
  "fork s =
     with_proc s (\<lambda>p.
     bnd (allocproc s) (\<lambda>r s.
       case r of
         None \<Rightarrow> Ret None s
       | Some np \<Rightarrow>
           bnd (uvmcopy s (p_pagetable (procs s ! p)) (p_pagetable (procs s ! np)) (p_sz (procs s ! p))) (\<lambda>ok s.
             if \<not> ok then bnd (freeproc s np) (\<lambda>_ s. Ret None s)
             else
               let s = upd_proc np (\<lambda>q. q\<lparr>p_sz := p_sz (procs s ! p)\<rparr>) s;
                   s = copy_tf np p s;
                   s = set_tf np (tf_a 0) 0 s
               in bnd (each (\<lambda>i s.
                    case p_ofile (procs s ! p) ! i of
                      None \<Rightarrow> Ret () s
                    | Some f \<Rightarrow> bnd (filedup f s) (\<lambda>_ s.
                        Ret () (upd_proc np (\<lambda>q. q\<lparr>p_ofile := (p_ofile q)[i := Some f]\<rparr>) s))) [0..<NOFILE] s) (\<lambda>_ s.
                  case p_cwd (procs s ! p) of
                    None \<Rightarrow> Undef
                  | Some ip \<Rightarrow>
                      let s = upd_proc np (\<lambda>q. q\<lparr>p_cwd := Some ip\<rparr>) (idup ip s);
                          s = upd_proc np (\<lambda>q. q\<lparr>p_name := proc_name (p_name (procs s ! p))\<rparr>) s;
                          pid = p_pid (procs s ! np);
                          s = upd_proc np (\<lambda>q. q\<lparr>p_parent := Some p\<rparr>) s;
                          s = upd_proc np (\<lambda>q. q\<lparr>p_state := RUNNABLE\<rparr>) s
                      in Ret (Some pid) s))))"

text \<open>\<open>exit\<close> does not return: its outcome is the state in which it enters the scheduler for the last time.\<close>

definition exit :: "u32 \<Rightarrow> 'a kstate_scheme \<Rightarrow> ('x, 'a kstate_scheme) run" where
  "exit status s =
     with_proc s (\<lambda>p.
       if Some p = initproc s then Panic ''init exiting''
       else bnd (each (\<lambda>fd s.
              case p_ofile (procs s ! p) ! fd of
                None \<Rightarrow> Ret () s
              | Some f \<Rightarrow> bnd (fileclose f s) (\<lambda>_ s.
                  Ret () (upd_proc p (\<lambda>q. q\<lparr>p_ofile := (p_ofile q)[fd := None]\<rparr>) s))) [0..<NOFILE] s) (\<lambda>_ s.
            bnd (begin_op s) (\<lambda>_ s.
            bnd (case p_cwd (procs s ! p) of None \<Rightarrow> Undef | Some ip \<Rightarrow> iput ip s) (\<lambda>_ s.
            bnd (end_op s) (\<lambda>_ s.
            let s = upd_proc p (\<lambda>q. q\<lparr>p_cwd := None\<rparr>) s;
                s = reparent p s;
                s = wakeup (map_option ChProc (p_parent (procs s ! p))) s
            in Exited (upd_proc p (\<lambda>q. q\<lparr>p_xstate := status, p_state := ZOMBIE\<rparr>) s))))))"

end
