(* ===== verification/Sched.thy ===== *)
theory Sched
  imports Proc
begin

text \<open>
  The scheduler of this kernel, \<open>scheduler\<close>, \<open>sched\<close>, \<open>yield\<close> and the state changes of \<open>sleep\<close> and
  \<open>exit\<close> in kernel/proc.c, on several CPUs. Each CPU is in its scheduler loop or in a process; the
  program counter of the loop is a value of type \<open>spc\<close>, and one step of a CPU is what it does
  while it holds one lock. A process that calls \<open>sched\<close> holds its own lock from the change of its
  state until the scheduler's \<open>while\<close> test has looked at that state, so that whole path is one step.
\<close>

section \<open>The scheduler loop\<close>

text \<open>
  \<open>Scan i c io d\<close>: in the \<open>for\<close> loop, about to look at slot \<open>i\<close>, with the candidates found so far
  (\<open>cpu_proc\<close>, \<open>io_proc\<close>, \<open>default_proc\<close>). \<open>Chosen r\<close>: \<open>run_proc\<close> is known. \<open>Running r t\<close>: in
  \<open>swtch\<close> to process \<open>r\<close>, with \<open>tempo_inicio = t\<close>.
\<close>

datatype spc =
    Scan nat "nat option" "nat option" "nat option"
  | Chosen "nat option"
  | Running nat u32

text \<open>The body of the \<open>for\<close> loop.\<close>

definition sched_look :: "proc list \<Rightarrow> nat \<Rightarrow> nat option \<times> nat option \<times> nat option \<Rightarrow> nat option \<times> nat option \<times> nat option" where
  "sched_look ps i = (\<lambda>(cpu_proc, io_proc, default_proc).
     let p = ps ! i
     in if p_state p = RUNNABLE
        then if p_type p = CPU_BOUND \<and> cpu_proc = None then (Some i, io_proc, default_proc)
             else if p_type p = IO_BOUND \<and> io_proc = None then (cpu_proc, Some i, default_proc)
             else if p_type p = DEFAULT \<and> default_proc = None then (cpu_proc, io_proc, Some i)
             else (cpu_proc, io_proc, default_proc)
        else (cpu_proc, io_proc, default_proc))"

definition sched_pick :: "nat option \<times> nat option \<times> nat option \<Rightarrow> nat option" where
  "sched_pick = (\<lambda>(cpu_proc, io_proc, default_proc).
     if cpu_proc \<noteq> None \<or> io_proc \<noteq> None
     then (if io_proc \<noteq> None then io_proc else cpu_proc)
     else default_proc)"

definition set_cproc :: "nat \<Rightarrow> nat option \<Rightarrow> 'a pstate_scheme \<Rightarrow> 'a pstate_scheme" where
  "set_cproc h p s = s\<lparr>cpus := (cpus s)[h := (cpus s ! h)\<lparr>cproc := p\<rparr>]\<rparr>"

definition sys_uptime_nolock :: "'a pstate_scheme \<Rightarrow> u32" where
  "sys_uptime_nolock s = ticks s"

text \<open>The test of the \<open>while\<close> loop, with \<open>run_proc->lock\<close> held, and the switch into the process.\<close>

definition sched_test :: "nat \<Rightarrow> nat \<Rightarrow> 'a pstate_scheme \<Rightarrow> spc \<times> 'a pstate_scheme" where
  "sched_test h r s =
     (if p_state (procs s ! r) = RUNNABLE
      then (Running r (sys_uptime_nolock s),
            set_cproc h (Some r) (upd_proc r (\<lambda>q. q\<lparr>p_state := RUNNING\<rparr>) s))
      else (Scan 0 None None None, s))"

text \<open>The process switches back: the rest of the loop body and the next test.\<close>

definition sched_back :: "nat \<Rightarrow> nat \<Rightarrow> u32 \<Rightarrow> 'a pstate_scheme \<Rightarrow> spc \<times> 'a pstate_scheme" where
  "sched_back h r tempo_inicio s =
     (let tempo_final = sys_uptime_nolock s;
          s = upd_proc r (\<lambda>q. q\<lparr>p_tempo_total := p_tempo_total q + (tempo_final - tempo_inicio)\<rparr>) s
      in sched_test h r (set_cproc h None s))"

fun scheduler_step :: "nat \<Rightarrow> spc \<Rightarrow> 'a pstate_scheme \<Rightarrow> spc \<times> 'a pstate_scheme" where
  "scheduler_step h (Scan i c io d) s =
     (if i < length (procs s)
      then (let (c, io, d) = sched_look (procs s) i (c, io, d) in (Scan (Suc i) c io d, s))
      else (Chosen (sched_pick (c, io, d)), s))"
| "scheduler_step h (Chosen None) s = (Scan 0 None None None, s)"
| "scheduler_step h (Chosen (Some r)) s = sched_test h r s"
| "scheduler_step h (Running r t) s = (Running r t, s)"

section \<open>Giving up the CPU\<close>

text \<open>The checks of \<open>sched\<close>; \<open>hold\<close> says whether this CPU holds \<open>p->lock\<close>.\<close>

definition sched :: "bool \<Rightarrow> 'a pstate_scheme \<Rightarrow> (unit, 'a pstate_scheme) run" where
  "sched hold s =
     with_proc s (\<lambda>p.
       if \<not> hold then Panic ''sched p->lock''
       else if noff (cpus s ! hart s) \<noteq> 1 then Panic ''sched locks''
       else if p_state (procs s ! p) = RUNNING then Panic ''sched running''
       else if intr (cpus s ! hart s) then Panic ''sched interruptible''
       else Ret () s)"

datatype giveup = Yield | SleepOn chan | Exit u32

fun give_up :: "nat \<Rightarrow> giveup \<Rightarrow> 'a pstate_scheme \<Rightarrow> 'a pstate_scheme" where
  "give_up me Yield s = yield_state me s"
| "give_up me (SleepOn c) s = upd_proc me (\<lambda>q. q\<lparr>p_chan := Some c, p_state := SLEEPING\<rparr>) s"
| "give_up me (Exit st) s = upd_proc me (\<lambda>q. q\<lparr>p_xstate := st, p_state := ZOMBIE\<rparr>) s"

section \<open>The whole machine\<close>

text \<open>
  CPUs in their scheduler loops, processes that give up their CPU, clock ticks, and what running
  kernel code does to the process table: wakeups, kills, creation, start and removal of processes.
\<close>

inductive sys_step :: "'a pstate_scheme \<times> spc list \<Rightarrow> 'a pstate_scheme \<times> spc list \<Rightarrow> bool" where
  sched: "h < length pcs \<Longrightarrow> scheduler_step h (pcs ! h) s = (pc, t) \<Longrightarrow> sys_step (s, pcs) (t, pcs[h := pc])"
| give: "h < length pcs \<Longrightarrow> pcs ! h = Running r t0 \<Longrightarrow> sched_back h r t0 (give_up r g s) = (pc, t) \<Longrightarrow>
    sys_step (s, pcs) (t, pcs[h := pc])"
| tick: "sys_step (s, pcs) (s\<lparr>ticks := ticks s + 1\<rparr>, pcs)"
| wake: "h < length pcs \<Longrightarrow> sys_step (s, pcs) (wakeup c (s\<lparr>hart := h\<rparr>), pcs)"
| kill: "sys_step (s, pcs) (snd (kill pid s), pcs)"
| create: "allocproc s = Ret r t \<Longrightarrow> sys_step (s, pcs) (t, pcs)"
| start: "i < length (procs s) \<Longrightarrow> p_state (procs s ! i) = USED \<Longrightarrow>
    sys_step (s, pcs) (upd_proc i (\<lambda>q. q\<lparr>p_state := RUNNABLE\<rparr>) s, pcs)"
| reap: "i < length (procs s) \<Longrightarrow> p_state (procs s ! i) = ZOMBIE \<Longrightarrow> freeproc s i = Ret () t \<Longrightarrow>
    sys_step (s, pcs) (t, pcs)"

text \<open>
  The processes that run are those the CPUs are in, each on one CPU, and every CPU's \<open>proc\<close> field
  names the process it is in.
\<close>

definition runs :: "spc \<Rightarrow> nat option" where
  "runs pc = (case pc of Running r _ \<Rightarrow> Some r | _ \<Rightarrow> None)"

fun candidates :: "spc \<Rightarrow> nat set" where
  "candidates (Scan i c io d) = set_option c \<union> set_option io \<union> set_option d"
| "candidates (Chosen r) = set_option r"
| "candidates (Running r t) = {r}"

definition sched_inv :: "'a pstate_scheme \<times> spc list \<Rightarrow> bool" where
  "sched_inv = (\<lambda>(s, pcs).
     length pcs = length (cpus s) \<and>
     (\<forall>h < length pcs. cproc (cpus s ! h) = runs (pcs ! h)) \<and>
     (\<forall>h < length pcs. candidates (pcs ! h) \<subseteq> {..<length (procs s)}) \<and>
     (\<forall>r < length (procs s). p_state (procs s ! r) = RUNNING \<longleftrightarrow> (\<exists>h < length pcs. runs (pcs ! h) = Some r)) \<and>
     (\<forall>g < length pcs. \<forall>h < length pcs. runs (pcs ! g) = runs (pcs ! h) \<longrightarrow> runs (pcs ! g) \<noteq> None \<longrightarrow> g = h))"

lemma runs_simps [simp]:
  "runs (Scan i c io d) = None" "runs (Chosen x) = None" "runs (Running r t) = Some r"
  by (simp_all add: runs_def)

text \<open>Changes to the table that neither start nor stop a process.\<close>

lemma sched_inv_table:
  assumes "sched_inv (s, pcs)" "cpus t = cpus s" "length (procs t) = length (procs s)"
    and "\<And>i. i < length (procs s) \<Longrightarrow> p_state (procs t ! i) = RUNNING \<longleftrightarrow> p_state (procs s ! i) = RUNNING"
  shows "sched_inv (t, pcs)"
  using assms unfolding sched_inv_def by simp

lemma sched_inv_pc:
  assumes "sched_inv (s, pcs)" "h < length pcs" "runs pc = runs (pcs ! h)"
    and "candidates pc \<subseteq> {..<length (procs s)}"
  shows "sched_inv (s, pcs[h := pc])"
proof -
  have r: "runs (pcs[h := pc] ! g) = runs (pcs ! g)" if "g < length pcs" for g
    using that assms(2,3) by (simp add: nth_list_update)
  have c: "candidates (pcs[h := pc] ! g) \<subseteq> {..<length (procs s)}" if "g < length pcs" for g
    using that assms(1,2,4) by (simp add: nth_list_update sched_inv_def)
  show ?thesis
    using assms(1) r c unfolding sched_inv_def prod.case length_list_update by (simp cong: conj_cong)
qed

lemma sched_test_inv:
  assumes inv: "sched_inv (s, pcs)" and h: "h < length pcs" and pc: "pcs ! h = Chosen (Some r)"
    and t: "sched_test h r s = (pc, t)"
  shows "sched_inv (t, pcs[h := pc])"
proof (cases "p_state (procs s ! r) = RUNNABLE")
  case False
  with t have "t = s" "pc = Scan 0 None None None" by (auto simp: sched_test_def)
  with inv h pc show ?thesis by (auto intro: sched_inv_pc)
next
  case True
  have r: "r < length (procs s)" using inv h pc by (force simp: sched_inv_def)
  have tt: "procs t = (procs s)[r := (procs s ! r)\<lparr>p_state := RUNNING\<rparr>]"
      "cpus t = (cpus s)[h := (cpus s ! h)\<lparr>cproc := Some r\<rparr>]" "pc = Running r (ticks s)"
    using t True by (auto simp: sched_test_def set_cproc_def sys_uptime_nolock_def upd_proc_def)
  have nr: "runs (pcs ! g) \<noteq> Some r" if "g < length pcs" for g
    using inv True r that by (auto simp: sched_inv_def)
  have rn: "runs (pcs[h := pc] ! g) = (if g = h then Some r else runs (pcs ! g))" if "g < length pcs" for g
    using that h tt(3) by (simp add: nth_list_update)
  have len: "length pcs = length (cpus s)" using inv by (simp add: sched_inv_def)
  show ?thesis
    unfolding sched_inv_def prod.case length_list_update
  proof (intro conjI)
    show "length pcs = length (cpus t)" using len tt by simp
    show "\<forall>g < length pcs. cproc (cpus t ! g) = runs (pcs[h := pc] ! g)"
      using inv rn h len tt(2) by (simp add: sched_inv_def nth_list_update)
    show "\<forall>g < length pcs. candidates (pcs[h := pc] ! g) \<subseteq> {..<length (procs t)}"
      using inv h r tt by (simp add: sched_inv_def nth_list_update)
    show "\<forall>q < length (procs t). p_state (procs t ! q) = RUNNING \<longleftrightarrow> (\<exists>g < length pcs. runs (pcs[h := pc] ! g) = Some q)"
    proof (intro allI impI)
      fix q assume q: "q < length (procs t)"
      show "p_state (procs t ! q) = RUNNING \<longleftrightarrow> (\<exists>g < length pcs. runs (pcs[h := pc] ! g) = Some q)"
      proof (cases "q = r")
        case True
        then show ?thesis using h tt r by (auto intro!: exI [of _ h])
      next
        case False
        have "(\<exists>g < length pcs. runs (pcs[h := pc] ! g) = Some q) \<longleftrightarrow> (\<exists>g < length pcs. runs (pcs ! g) = Some q)"
          using rn h pc False by (metis option.inject runs_simps(2) option.distinct(1))
        then show ?thesis using inv q False tt(1) by (simp add: sched_inv_def)
      qed
    qed
    show "\<forall>g < length pcs. \<forall>k < length pcs. runs (pcs[h := pc] ! g) = runs (pcs[h := pc] ! k) \<longrightarrow>
        runs (pcs[h := pc] ! g) \<noteq> None \<longrightarrow> g = k"
      using inv nr rn unfolding sched_inv_def prod.case by (metis (full_types))
  qed
qed

text \<open>A process has left its CPU: it is no longer running, and the CPU names no process.\<close>

lemma sched_inv_leave:
  assumes inv: "sched_inv (s, pcs)" and h: "h < length pcs" and pc: "pcs ! h = Running r t0"
    and q: "p_state q \<noteq> RUNNING"
    and t: "procs t = (procs s)[r := q]" "cpus t = (cpus s)[h := (cpus s ! h)\<lparr>cproc := None\<rparr>]"
  shows "sched_inv (t, pcs[h := Chosen (Some r)])"
proof -
  have r: "r < length (procs s)" and len: "length pcs = length (cpus s)"
    using inv h pc by (force simp: sched_inv_def)+
  have rn: "runs (pcs[h := Chosen (Some r)] ! g) = (if g = h then None else runs (pcs ! g))" if "g < length pcs" for g
    using that h by (simp add: nth_list_update)
  have only: "g = h" if "g < length pcs" "runs (pcs ! g) = Some r" for g
    using inv h pc that unfolding sched_inv_def by auto
  show ?thesis
    unfolding sched_inv_def prod.case length_list_update
  proof (intro conjI)
    show "length pcs = length (cpus t)" using len t by simp
    show "\<forall>g < length pcs. cproc (cpus t ! g) = runs (pcs[h := Chosen (Some r)] ! g)"
      using inv rn h len t(2) by (simp add: sched_inv_def nth_list_update)
    show "\<forall>g < length pcs. candidates (pcs[h := Chosen (Some r)] ! g) \<subseteq> {..<length (procs t)}"
      using inv h r t by (simp add: sched_inv_def nth_list_update)
    show "\<forall>p < length (procs t). p_state (procs t ! p) = RUNNING \<longleftrightarrow>
        (\<exists>g < length pcs. runs (pcs[h := Chosen (Some r)] ! g) = Some p)"
    proof (intro allI impI)
      fix p assume p: "p < length (procs t)"
      show "p_state (procs t ! p) = RUNNING \<longleftrightarrow> (\<exists>g < length pcs. runs (pcs[h := Chosen (Some r)] ! g) = Some p)"
      proof (cases "p = r")
        case True
        then show ?thesis using rn only t(1) r q by auto
      next
        case False
        have "(\<exists>g < length pcs. runs (pcs[h := Chosen (Some r)] ! g) = Some p) \<longleftrightarrow> (\<exists>g < length pcs. runs (pcs ! g) = Some p)"
          using rn pc False by (metis option.inject option.distinct(1) runs_simps(3))
        then show ?thesis using inv p False t(1) by (simp add: sched_inv_def)
      qed
    qed
    show "\<forall>g < length pcs. \<forall>k < length pcs. runs (pcs[h := Chosen (Some r)] ! g) = runs (pcs[h := Chosen (Some r)] ! k) \<longrightarrow>
        runs (pcs[h := Chosen (Some r)] ! g) \<noteq> None \<longrightarrow> g = k"
      using inv rn unfolding sched_inv_def prod.case by (metis (full_types))
  qed
qed

lemma give_up_fields [simp]:
  "cpus (give_up r g s) = cpus s" "length (procs (give_up r g s)) = length (procs s)" "ticks (give_up r g s) = ticks s"
  by (cases g; simp add: yield_state_def)+

lemma give_up_procs:
  assumes "r < length (procs s)"
  shows "\<exists>q. procs (give_up r g s) = (procs s)[r := q] \<and> p_state q \<noteq> RUNNING \<and> p_state (procs (give_up r g s) ! r) = p_state q"
  using assms by (cases g) (auto simp: yield_state_def)

lemma sched_inv_give:
  assumes inv: "sched_inv (s, pcs)" and h: "h < length pcs" and pc: "pcs ! h = Running r t0"
    and b: "sched_back h r t0 (give_up r g s) = (pc, t)"
  shows "sched_inv (t, pcs[h := pc])"
proof -
  have r: "r < length (procs s)" using inv h pc by (force simp: sched_inv_def)
  obtain q where q: "procs (give_up r g s) = (procs s)[r := q]" "p_state q \<noteq> RUNNING"
    using give_up_procs [OF r] by blast
  let ?u = "set_cproc h None (upd_proc r (\<lambda>q. q\<lparr>p_tempo_total := p_tempo_total q + (ticks s - t0)\<rparr>) (give_up r g s))"
  let ?q = "q\<lparr>p_tempo_total := p_tempo_total q + (ticks s - t0)\<rparr>"
  have "sched_inv (?u, pcs[h := Chosen (Some r)])"
    by (rule sched_inv_leave [OF inv h pc, where q = ?q]) (use r q in \<open>simp_all add: set_cproc_def\<close>)
  moreover have "sched_test h r ?u = (pc, t)"
    using b by (simp add: sched_back_def Let_def sys_uptime_nolock_def)
  ultimately have "sched_inv (t, pcs[h := Chosen (Some r), h := pc])"
    using h sched_test_inv [of ?u "pcs[h := Chosen (Some r)]" h r pc t] by simp
  then show ?thesis by simp
qed

lemma sched_look_candidates:
  assumes "sched_look ps i (c, io, d) = (c', io', d')"
  shows "set_option c' \<union> set_option io' \<union> set_option d' \<subseteq> insert i (set_option c \<union> set_option io \<union> set_option d)"
  using assms by (auto simp: sched_look_def Let_def split: if_splits)

lemma sched_inv_sched:
  assumes inv: "sched_inv (s, pcs)" and h: "h < length pcs" and st: "scheduler_step h (pcs ! h) s = (pc, t)"
  shows "sched_inv (t, pcs[h := pc])"
proof (cases "pcs ! h")
  case (Scan i c io d)
  have old: "candidates (pcs ! h) \<subseteq> {..<length (procs s)}" using inv h by (simp add: sched_inv_def)
  show ?thesis
  proof (cases "i < length (procs s)")
    case True
    obtain c' io' d' where l: "sched_look (procs s) i (c, io, d) = (c', io', d')" by (metis prod_cases3)
    with st Scan True have "t = s" "pc = Scan (Suc i) c' io' d'" by auto
    with inv h Scan old True sched_look_candidates [OF l] show ?thesis
      by (auto intro!: sched_inv_pc)
  next
    case False
    with st Scan have "t = s" "pc = Chosen (sched_pick (c, io, d))" by auto
    with inv h Scan old show ?thesis
      by (auto intro!: sched_inv_pc simp: sched_pick_def split: if_splits)
  qed
next
  case (Chosen x)
  show ?thesis
  proof (cases x)
    case None
    with st Chosen have "t = s" "pc = Scan 0 None None None" by auto
    with inv h Chosen show ?thesis by (auto intro!: sched_inv_pc)
  next
    case (Some r)
    with st Chosen inv h show ?thesis by (auto intro: sched_test_inv)
  qed
next
  case (Running r t0)
  with st inv show ?thesis by (metis Pair_inject list_update_id scheduler_step.simps(4))
qed

lemma sched_inv_step:
  assumes "sys_step x y" "sched_inv x"
  shows "sched_inv y"
  using assms
proof (induction rule: sys_step.induct)
  case (sched h pcs s pc t)
  then show ?case by (auto intro: sched_inv_sched)
next
  case (give h pcs r t0 g s pc t)
  then show ?case by (auto intro: sched_inv_give)
next
  case (tick s pcs)
  then show ?case by (rule sched_inv_table) simp_all
next
  case (wake h pcs c s)
  show ?case
    by (rule sched_inv_table [OF wake(2)]) (auto simp: wakeup_nth wake_proc_def)
next
  case (kill s pcs pid)
  then show ?case
    by (rule sched_inv_table)
      (auto simp: kill_def first_slot_Some nth_list_update split: option.splits)
next
  case (create s r t pcs)
  have al: "case first_slot (\<lambda>p. p_state p = UNUSED) (procs s) of
       None \<Rightarrow> t = s | Some p \<Rightarrow> \<exists>q. procs t = (procs s)[p := q] \<and> p_state q \<noteq> RUNNING"
    using allocproc_procs [OF create(1)]
    by (auto simp: freed_def fresh_def split: option.splits)
  have "cpus t = cpus s" using allocproc_procs [OF create(1)] by simp
  then show ?case
    using al by (intro sched_inv_table [OF create(2)])
      (auto simp: first_slot_Some nth_list_update split: option.splits if_splits)
next
  case (start i s pcs)
  then show ?case by (intro sched_inv_table [OF start(3)]) (auto simp: nth_list_update)
next
  case (reap i s t pcs)
  then show ?case
    using freeproc_procs [OF reap(3,1)]
    by (intro sched_inv_table [OF reap(4)]) (auto simp: nth_list_update freed_def)
qed

section \<open>What the scan chooses\<close>

text \<open>
  The reference: the first runnable IO-bound process of the table, else the first CPU-bound one,
  else the first of type DEFAULT.
\<close>

definition runnable_of :: "u32 \<Rightarrow> proc list \<Rightarrow> nat option" where
  "runnable_of ty ps = first_slot (\<lambda>p. p_state p = RUNNABLE \<and> p_type p = ty) ps"

definition sched_choice :: "proc list \<Rightarrow> nat option" where
  "sched_choice ps =
     (case runnable_of IO_BOUND ps of Some r \<Rightarrow> Some r
      | None \<Rightarrow> (case runnable_of CPU_BOUND ps of Some r \<Rightarrow> Some r | None \<Rightarrow> runnable_of DEFAULT ps))"

lemma sched_look_take:
  assumes "n < length ps"
  shows "sched_look ps n (runnable_of CPU_BOUND (take n ps), runnable_of IO_BOUND (take n ps), runnable_of DEFAULT (take n ps)) =
    (runnable_of CPU_BOUND (take (Suc n) ps), runnable_of IO_BOUND (take (Suc n) ps), runnable_of DEFAULT (take (Suc n) ps))"
  using assms
  by (auto simp: sched_look_def runnable_of_def first_slot_take_Suc params Let_def split: option.splits)

lemma scan_upto:
  assumes "n \<le> length (procs s)"
  shows "((\<lambda>(pc, s). scheduler_step h pc s) ^^ n) (Scan 0 None None None, s) =
    (Scan n (runnable_of CPU_BOUND (take n (procs s))) (runnable_of IO_BOUND (take n (procs s)))
       (runnable_of DEFAULT (take n (procs s))), s)"
  using assms
proof (induction n)
  case 0
  then show ?case by (simp add: runnable_of_def)
next
  case (Suc n)
  then have "((\<lambda>(pc, s). scheduler_step h pc s) ^^ Suc n) (Scan 0 None None None, s) =
    scheduler_step h (Scan n (runnable_of CPU_BOUND (take n (procs s))) (runnable_of IO_BOUND (take n (procs s)))
       (runnable_of DEFAULT (take n (procs s)))) s" by simp
  with Suc.prems show ?case by (simp add: sched_look_take)
qed

lemma sched_pick_choice:
  "sched_pick (runnable_of CPU_BOUND ps, runnable_of IO_BOUND ps, runnable_of DEFAULT ps) = sched_choice ps"
  by (auto simp: sched_pick_def sched_choice_def split: option.splits)

lemma scan_all:
  "((\<lambda>(pc, s). scheduler_step h pc s) ^^ Suc (length (procs s))) (Scan 0 None None None, s) =
     (Chosen (sched_choice (procs s)), s)"
  using scan_upto [of "length (procs s)" s h] by (simp add: sched_pick_choice)

lemma runnable_of_Some: "runnable_of ty ps = Some r \<Longrightarrow> r < length ps \<and> p_state (ps ! r) = RUNNABLE \<and> p_type (ps ! r) = ty"
  by (auto simp: runnable_of_def first_slot_Some)

lemma sched_choice_Some:
  "sched_choice ps = Some r \<Longrightarrow> r < length ps \<and> p_state (ps ! r) = RUNNABLE \<and>
     (p_type (ps ! r) = IO_BOUND \<or> p_type (ps ! r) = CPU_BOUND \<or> p_type (ps ! r) = DEFAULT)"
  by (auto simp: sched_choice_def dest!: runnable_of_Some split: option.splits)

section \<open>Properties\<close>

text \<open>
  C2. On any number of CPUs, from any state of the scheduler in which no process runs, and through any
  interleaving of scheduler steps, yields, sleeps, exits, ticks, wakeups, kills and process creation and
  removal: a process is in state RUNNING exactly when some CPU is in it, that CPU's \<open>proc\<close> field
  names it, and no process is on two CPUs.
\<close>

theorem scheduler_exclusive:
  assumes "sys_step\<^sup>*\<^sup>* (s0, replicate n (Scan 0 None None None)) (s, pcs)"
    and "length (cpus s0) = n" "\<forall>c \<in> set (cpus s0). cproc c = None"
    and "\<forall>p \<in> set (procs s0). p_state p \<noteq> RUNNING"
  shows "(\<forall>g < length pcs. \<forall>h < length pcs. runs (pcs ! g) = runs (pcs ! h) \<and> runs (pcs ! g) \<noteq> None \<longrightarrow> g = h) \<and>
    (\<forall>h < length pcs. cproc (cpus s ! h) = runs (pcs ! h)) \<and>
    (\<forall>r < length (procs s). p_state (procs s ! r) = RUNNING \<longleftrightarrow> (\<exists>h < length pcs. runs (pcs ! h) = Some r))"
proof -
  have "sched_inv (s0, replicate n (Scan 0 None None None))"
    using assms(2-4) by (auto simp: sched_inv_def all_set_conv_all_nth)
  from assms(1) this have "sched_inv (s, pcs)"
    by (induction rule: rtranclp_induct) (auto intro: sched_inv_step)
  then show ?thesis unfolding sched_inv_def prod.case by blast
qed

definition demo_sched :: pstate where
  "demo_sched = \<lparr>phys = (\<lambda>_. 0), freelist = 0, kend = 0x80000000,
     procs = [demo_proc\<lparr>p_state := RUNNABLE, p_pid := 1, p_type := 2\<rparr>,
              demo_proc\<lparr>p_state := RUNNABLE, p_pid := 2, p_type := 3\<rparr>],
     cpus = [\<lparr>cproc = None, noff = 0, intena = False, intr = True\<rparr>], hart = 0, initproc = Some 0,
     nextpid = 3, ticks = 0, overheads = replicate 20 0, eficiencias = replicate 20 0,
     justicas = replicate 20 0, trampoline = 0, forkret_addr = 0\<rparr>"

theorem scheduler_exclusive_witness:
  "\<exists>s pcs. sys_step\<^sup>*\<^sup>* (demo_sched, replicate 1 (Scan 0 None None None)) (s, pcs) \<and>
     pcs = [Running 1 0] \<and> cproc (cpus s ! 0) = Some 1"
proof -
  let ?step = "\<lambda>(pc, s). scheduler_step 0 pc s"
  have run: "sys_step\<^sup>*\<^sup>* (demo_sched, [pc]) (snd ((?step ^^ n) (pc, demo_sched)), [fst ((?step ^^ n) (pc, demo_sched))])" for n pc
  proof (induction n)
    case (Suc n)
    obtain pc' s' where p: "(?step ^^ n) (pc, demo_sched) = (pc', s')" by (metis surj_pair)
    obtain pc'' s'' where q: "scheduler_step 0 pc' s' = (pc'', s'')" by (metis surj_pair)
    have "sys_step (s', [pc']) (s'', [pc''])"
      using sys_step.sched [of 0 "[pc']" s' pc'' s''] q by simp
    with Suc p q show ?case by (auto intro: rtranclp.rtrancl_into_rtrancl)
  qed simp
  let ?s = "set_cproc 0 (Some 1) (upd_proc 1 (\<lambda>q. q\<lparr>p_state := RUNNING\<rparr>) demo_sched)"
  have "(?step ^^ Suc (Suc (length (procs demo_sched)))) (Scan 0 None None None, demo_sched) = (Running 1 0, ?s)"
    using scan_all [where h = 0 and s = demo_sched]
    by (simp add: sched_choice_def runnable_of_def first_slot_def demo_sched_def demo_proc_def params
        sched_test_def sys_uptime_nolock_def)
  with run [of "Scan 0 None None None" "Suc (Suc (length (procs demo_sched)))"]
  have r: "sys_step\<^sup>*\<^sup>* (demo_sched, replicate 1 (Scan 0 None None None)) (?s, [Running 1 0])" by simp
  have "cproc (cpus ?s ! 0) = Some 1"
    using scheduler_exclusive [OF r] by (simp add: demo_sched_def demo_proc_def)
  with r show ?thesis by blast
qed

text \<open>
  C9. A CPU that enters its scheduler loop while the table stands still dispatches a process after
  one pass: the first runnable IO-bound process of the table, or if there is none the first
  runnable CPU-bound one, or if there is none the first runnable process of type DEFAULT.
\<close>

theorem scheduler_dispatches:
  assumes "sched_choice (procs s) = Some r" "h < length (cpus s)"
  shows "\<exists>t. ((\<lambda>(pc, s). scheduler_step h pc s) ^^ (length (procs s) + 2)) (Scan 0 None None None, s) =
      (Running r (ticks s), t) \<and>
    procs t = (procs s)[r := (procs s ! r)\<lparr>p_state := RUNNING\<rparr>] \<and> cproc (cpus t ! h) = Some r \<and>
    p_state (procs s ! r) = RUNNABLE \<and>
    (\<forall>i < length (procs s). p_state (procs s ! i) = RUNNABLE \<longrightarrow>
       (p_type (procs s ! i) = IO_BOUND \<longrightarrow> p_type (procs s ! r) = IO_BOUND \<and> r \<le> i) \<and>
       (p_type (procs s ! i) = CPU_BOUND \<longrightarrow> p_type (procs s ! r) = IO_BOUND \<or>
          p_type (procs s ! r) = CPU_BOUND \<and> r \<le> i) \<and>
       (p_type (procs s ! i) = DEFAULT \<longrightarrow> p_type (procs s ! r) \<noteq> DEFAULT \<or> r \<le> i))"
proof -
  let ?step = "\<lambda>(pc, s). scheduler_step h pc s"
  let ?t = "set_cproc h (Some r) (upd_proc r (\<lambda>q. q\<lparr>p_state := RUNNING\<rparr>) s)"
  have r: "r < length (procs s)" "p_state (procs s ! r) = RUNNABLE" using sched_choice_Some [OF assms(1)] by auto
  have "(?step ^^ (length (procs s) + 2)) (Scan 0 None None None, s) =
      ?step ((?step ^^ Suc (length (procs s))) (Scan 0 None None None, s))" by simp
  also have "\<dots> = (Running r (ticks s), ?t)"
    unfolding scan_all using assms(1) r by (simp add: sched_test_def sys_uptime_nolock_def)
  finally have run: "(?step ^^ (length (procs s) + 2)) (Scan 0 None None None, s) = (Running r (ticks s), ?t)" .
  have prio: "(p_type (procs s ! i) = IO_BOUND \<longrightarrow> p_type (procs s ! r) = IO_BOUND \<and> r \<le> i) \<and>
       (p_type (procs s ! i) = CPU_BOUND \<longrightarrow> p_type (procs s ! r) = IO_BOUND \<or>
          p_type (procs s ! r) = CPU_BOUND \<and> r \<le> i) \<and>
       (p_type (procs s ! i) = DEFAULT \<longrightarrow> p_type (procs s ! r) \<noteq> DEFAULT \<or> r \<le> i)"
    if "i < length (procs s)" "p_state (procs s ! i) = RUNNABLE" for i
  proof -
    have least: "x \<le> i" if "runnable_of ty (procs s) = Some x" "p_type (procs s ! i) = ty" for ty x
      using that \<open>p_state (procs s ! i) = RUNNABLE\<close> by (auto simp: runnable_of_def first_slot_Some linorder_not_less [symmetric])
    have none: "p_type (procs s ! i) \<noteq> ty" if "runnable_of ty (procs s) = None" for ty
      using that \<open>i < length (procs s)\<close> \<open>p_state (procs s ! i) = RUNNABLE\<close> by (auto simp: runnable_of_def first_slot_None_nth)
    show ?thesis
      using assms(1) least none runnable_of_Some unfolding sched_choice_def
      by (fastforce simp: params split: option.splits)
  qed
  show ?thesis
    using run r assms(2) prio by (auto simp: set_cproc_def upd_proc_def)
qed

theorem scheduler_dispatches_witness:
  "\<exists>t. ((\<lambda>(pc, s). scheduler_step 0 pc s) ^^ 4) (Scan 0 None None None, demo_sched) = (Running 1 0, t) \<and>
     cproc (cpus t ! 0) = Some 1"
proof -
  have c: "sched_choice (procs demo_sched) = Some 1"
    by (simp add: sched_choice_def runnable_of_def first_slot_def demo_sched_def demo_proc_def params)
  have h: "0 < length (cpus demo_sched)" by (simp add: demo_sched_def)
  have l: "length (procs demo_sched) + 2 = 4" "ticks demo_sched = 0" by (simp_all add: demo_sched_def)
  show ?thesis using scheduler_dispatches [OF c h] unfolding l by blast
qed

text \<open>The running process yields, and its CPU goes through the scheduler until it runs a process again.\<close>

definition yield_switch :: "nat \<Rightarrow> spc \<times> 'a pstate_scheme \<Rightarrow> spc \<times> 'a pstate_scheme" where
  "yield_switch h x = (case x of (Running r t0, s) \<Rightarrow> sched_back h r t0 (give_up r Yield s) | _ \<Rightarrow> x)"

lemma yield_switch_Running:
  assumes "r < length (procs s)"
  shows "yield_switch h (Running r t0, s) = (Running r (ticks s),
      set_cproc h (Some r) (upd_proc r (\<lambda>q. q\<lparr>p_state := RUNNING\<rparr>) (set_cproc h None
        (upd_proc r (\<lambda>q. q\<lparr>p_tempo_total := p_tempo_total q + (ticks s - t0)\<rparr>) (yield_state r s)))))"
  using assms
  by (simp add: yield_switch_def sched_back_def sched_test_def Let_def sys_uptime_nolock_def yield_state_def
      set_cproc_def upd_proc_def)

lemma yield_switch_iter:
  assumes "r < length (procs s)" "h < length (cpus s)" "p_state (procs s ! r) = RUNNING" "cproc (cpus s ! h) = Some r"
  shows "\<exists>t0' t. (yield_switch h ^^ n) (Running r t0, s) = (Running r t0', t) \<and>
    p_state (procs t ! r) = RUNNING \<and> cproc (cpus t ! h) = Some r \<and>
    (\<forall>i. i \<noteq> r \<longrightarrow> procs t ! i = procs s ! i) \<and> length (procs t) = length (procs s) \<and> length (cpus t) = length (cpus s)"
proof (induction n)
  case 0
  then show ?case using assms by auto
next
  case (Suc n)
  then obtain t0' t where t: "(yield_switch h ^^ n) (Running r t0, s) = (Running r t0', t)"
    "\<forall>i. i \<noteq> r \<longrightarrow> procs t ! i = procs s ! i" "length (procs t) = length (procs s)" "length (cpus t) = length (cpus s)"
    by blast
  with yield_switch_Running [of r t h t0'] assms(1,2) show ?case
    by (auto simp: set_cproc_def yield_state_def)
qed

text \<open>
  C10. \<open>yield\<close> does not give up the CPU: the \<open>while\<close> loop of \<open>scheduler\<close> finds the yielding process
  runnable and switches straight back to it. However often a running process yields (as it does at
  every timer interrupt), its CPU keeps running it and no other process of the table changes.
\<close>

theorem yield_keeps_the_cpu:
  assumes "r < length (procs s)" "h < length (cpus s)" "p_state (procs s ! r) = RUNNING" "cproc (cpus s ! h) = Some r"
  shows "\<exists>t0' t. (yield_switch h ^^ n) (Running r t0, s) = (Running r t0', t) \<and>
    p_state (procs t ! r) = RUNNING \<and> cproc (cpus t ! h) = Some r \<and>
    (\<forall>i. i \<noteq> r \<longrightarrow> procs t ! i = procs s ! i)"
  using yield_switch_iter [OF assms] by blast

theorem yield_keeps_the_cpu_witness:
  "\<exists>t0' t. (yield_switch 0 ^^ 1000) (Running 1 0, demo_pstate) = (Running 1 t0', t) \<and>
     p_state (procs t ! 1) = RUNNING \<and> p_state (procs t ! 2) = RUNNABLE"
proof -
  have a: "1 < length (procs demo_pstate)" "0 < length (cpus demo_pstate)"
    "p_state (procs demo_pstate ! 1) = RUNNING" "cproc (cpus demo_pstate ! 0) = Some 1"
    by (simp_all add: demo_pstate_def)
  obtain t0' t where t: "(yield_switch 0 ^^ 1000) (Running 1 0, demo_pstate) = (Running 1 t0', t)"
    "p_state (procs t ! 1) = RUNNING" "\<forall>i. i \<noteq> 1 \<longrightarrow> procs t ! i = procs demo_pstate ! i"
    using yield_keeps_the_cpu [OF a, of 1000 0] by blast
  from t(3) have "procs t ! 2 = procs demo_pstate ! 2" by simp
  then have "p_state (procs t ! 2) = RUNNABLE" by (simp add: demo_pstate_def)
  with t show ?thesis by blast
qed

end
