(* ===== verification/Sysproc.thy ===== *)
theory Sysproc
  imports Process Sched
begin

text \<open>
  Fetching system-call arguments (kernel/syscall.c), the system calls on processes
  (kernel/sysproc.c), and the ones this kernel adds for measuring the scheduler (kernel/proc.c).
  A result is the 64-bit value that ends in register a0; functions that return an \<open>int\<close> have it
  sign-extended there.
\<close>

section \<open>Arguments\<close>

definition fetchaddr :: "u64 \<Rightarrow> 'a pstate_scheme \<Rightarrow> (u64 option, 'a pstate_scheme) run" where
  "fetchaddr addr s =
     with_proc s (\<lambda>p.
       if p_sz (procs s ! p) \<le> addr \<or> p_sz (procs s ! p) < addr + 8 then Ret None s
       else bnd (copyin s (p_pagetable (procs s ! p)) addr 8) (\<lambda>(ok, bs) s.
         if \<not> ok then Ret None s else Ret (Some (of_le64 bs)) s))"

text \<open>The string, whose length \<open>fetchstr\<close> returns, or \<open>None\<close> for -1.\<close>

definition fetchstr :: "u64 \<Rightarrow> nat \<Rightarrow> 'a pstate_scheme \<Rightarrow> (u8 list option, 'a pstate_scheme) run" where
  "fetchstr addr maxlen s = with_proc s (\<lambda>p. copyinstr s (p_pagetable (procs s ! p)) addr maxlen)"

definition argraw :: "nat \<Rightarrow> 'a pstate_scheme \<Rightarrow> (u64, 'a pstate_scheme) run" where
  "argraw n s = with_proc s (\<lambda>p. if n < 6 then Ret (get_tf s p (tf_a n)) s else Panic ''argraw'')"

definition argint :: "nat \<Rightarrow> 'a pstate_scheme \<Rightarrow> (u32, 'a pstate_scheme) run" where
  "argint n s = bnd (argraw n s) (\<lambda>v s. Ret (ucast v) s)"

definition argaddr :: "nat \<Rightarrow> 'a pstate_scheme \<Rightarrow> (u64, 'a pstate_scheme) run" where
  "argaddr n s = argraw n s"

definition argstr :: "nat \<Rightarrow> nat \<Rightarrow> 'a pstate_scheme \<Rightarrow> (u8 list option, 'a pstate_scheme) run" where
  "argstr n maxlen s = bnd (argaddr n s) (\<lambda>addr s. fetchstr addr maxlen s)"

definition int_result :: "u32 option \<Rightarrow> u64" where
  "int_result r = (case r of None \<Rightarrow> - 1 | Some v \<Rightarrow> scast v)"

section \<open>System calls on processes\<close>

definition sys_exit :: "'a kstate_scheme \<Rightarrow> (u64, 'a kstate_scheme) run" where
  "sys_exit s = bnd (argint 0 s) (\<lambda>n s. exit n s)"

definition sys_getpid :: "'a pstate_scheme \<Rightarrow> (u64, 'a pstate_scheme) run" where
  "sys_getpid s = with_proc s (\<lambda>p. Ret (scast (p_pid (procs s ! p))) s)"

definition sys_fork :: "'a kstate_scheme \<Rightarrow> (u64, 'a kstate_scheme) run" where
  "sys_fork s = bnd (fork s) (\<lambda>r s. Ret (int_result r) s)"

definition sys_wait :: "'a pstate_scheme \<Rightarrow> (u64, 'a pstate_scheme) run" where
  "sys_wait s = bnd (argaddr 0 s) (\<lambda>p s. bnd (wait p s) (\<lambda>r s. Ret (int_result r) s))"

definition sys_sbrk :: "'a pstate_scheme \<Rightarrow> (u64, 'a pstate_scheme) run" where
  "sys_sbrk s =
     bnd (argint 0 s) (\<lambda>n s.
     with_proc s (\<lambda>p.
       let addr = p_sz (procs s ! p)
       in bnd (growproc s n) (\<lambda>ok s. Ret (if ok then addr else - 1) s)))"

text \<open>The loop of \<open>sys_sleep\<close>: the woken process runs it again with the same \<open>ticks0\<close>.\<close>

definition sys_sleep_from :: "u32 \<Rightarrow> u32 \<Rightarrow> 'a pstate_scheme \<Rightarrow> (u64, 'a pstate_scheme) run" where
  "sys_sleep_from ticks0 n s =
     (if ticks s - ticks0 < n
      then with_proc s (\<lambda>p. if killed s p then Ret (- 1) s else sleep ChTicks s)
      else Ret 0 s)"

definition sys_sleep :: "'a pstate_scheme \<Rightarrow> (u64, 'a pstate_scheme) run" where
  "sys_sleep s =
     bnd (argint 0 s) (\<lambda>n s. let n = (if n <s 0 then 0 else n) in sys_sleep_from (ticks s) n s)"

definition sys_kill :: "'a pstate_scheme \<Rightarrow> (u64, 'a pstate_scheme) run" where
  "sys_kill s = bnd (argint 0 s) (\<lambda>pid s. let (ok, s) = kill pid s in Ret (if ok then 0 else - 1) s)"

definition sys_uptime :: "'a pstate_scheme \<Rightarrow> (u64, 'a pstate_scheme) run" where
  "sys_uptime s = Ret (ucast (ticks s)) s"

section \<open>Metrics\<close>

text \<open>An array indexed by an \<open>int\<close> that comes from the user.\<close>

definition at_int :: "'x list \<Rightarrow> u32 \<Rightarrow> (nat \<Rightarrow> ('a, 's) run) \<Rightarrow> ('a, 's) run" where
  "at_int xs i f = (if i <s 0 \<or> length xs \<le> unat i then Undef else f (unat i))"

definition proc_with_pid :: "u32 \<Rightarrow> 'a pstate_scheme \<Rightarrow> nat option" where
  "proc_with_pid pid s = first_slot (\<lambda>p. p_pid p = pid) (procs s)"

definition sys_tempo_total :: "'a pstate_scheme \<Rightarrow> (u64, 'a pstate_scheme) run" where
  "sys_tempo_total s =
     bnd (argint 0 s) (\<lambda>pid s.
       if pid <s 0 then Ret (- 1) s
       else Ret (int_result (map_option (\<lambda>i. p_tempo_total (procs s ! i)) (proc_with_pid pid s))) s)"

definition sys_get_overhead :: "'a pstate_scheme \<Rightarrow> (u64, 'a pstate_scheme) run" where
  "sys_get_overhead s = bnd (argint 0 s) (\<lambda>k s. at_int (overheads s) k (\<lambda>k. Ret (scast (overheads s ! k)) s))"

definition sys_get_eficiencia :: "'a pstate_scheme \<Rightarrow> (u64, 'a pstate_scheme) run" where
  "sys_get_eficiencia s = bnd (argint 0 s) (\<lambda>k s. at_int (eficiencias s) k (\<lambda>k. Ret (scast (eficiencias s ! k)) s))"

definition sys_increment_metric :: "'a pstate_scheme \<Rightarrow> (u64, 'a pstate_scheme) run" where
  "sys_increment_metric s =
     bnd (argint 0 s) (\<lambda>k s. bnd (argint 1 s) (\<lambda>amount s. bnd (argint 2 s) (\<lambda>mode s.
       if mode = MODE_OVERHEAD
       then at_int (overheads s) k (\<lambda>k. Ret 0 (s\<lparr>overheads := (overheads s)[k := overheads s ! k + amount]\<rparr>))
       else if mode = MODE_EFICIENCIA
       then at_int (eficiencias s) k (\<lambda>k. Ret 0 (s\<lparr>eficiencias := (eficiencias s)[k := eficiencias s ! k + amount]\<rparr>))
       else Ret (- 1) s)))"

definition sys_initialize_metrics :: "'a pstate_scheme \<Rightarrow> (u64, 'a pstate_scheme) run" where
  "sys_initialize_metrics s =
     Ret 0 (fold (\<lambda>k s. s\<lparr>overheads := (overheads s)[k := 0], eficiencias := (eficiencias s)[k := 0],
       justicas := (justicas s)[k := 0]\<rparr>) [0..<20] s)"

definition sys_get_justica :: "'a pstate_scheme \<Rightarrow> (u64, 'a pstate_scheme) run" where
  "sys_get_justica s = bnd (argint 0 s) (\<lambda>k s. at_int (justicas s) k (\<lambda>k. Ret (scast (justicas s ! k)) s))"

definition sys_set_justica :: "'a pstate_scheme \<Rightarrow> (u64, 'a pstate_scheme) run" where
  "sys_set_justica s =
     bnd (argint 0 s) (\<lambda>k s. bnd (argint 1 s) (\<lambda>pid s.
       case proc_with_pid pid s of
         None \<Rightarrow> Ret (- 1) s
       | Some i \<Rightarrow> at_int (justicas s) k (\<lambda>k. Ret 0 (s\<lparr>justicas := (justicas s)[k := p_tempo_total (procs s ! i)]\<rparr>))))"

definition sys_set_type :: "'a pstate_scheme \<Rightarrow> (u64, 'a pstate_scheme) run" where
  "sys_set_type s =
     bnd (argint 0 s) (\<lambda>type s. bnd (argint 1 s) (\<lambda>pid s.
       case proc_with_pid pid s of
         None \<Rightarrow> Ret (- 1) s
       | Some i \<Rightarrow> Ret 0 (upd_proc i (\<lambda>q. q\<lparr>p_type := type\<rparr>) s)))"

end
