(* ===== verification/Exec.thy ===== *)
theory Exec
  imports Process
begin

text \<open>
  Loading programs (kernel/exec.c, kernel/elf.h). The headers are local variables, read as bytes at
  the offsets of the C structures. An argument vector is the list of its strings.
\<close>

definition ELF_MAGIC :: u32 where [params]: "ELF_MAGIC = 0x464C457F"
definition ELF_PROG_LOAD :: u32 where [params]: "ELF_PROG_LOAD = 1"

record elfhdr =
  e_magic :: u32
  e_entry :: u64
  e_phoff :: u64
  e_phnum :: u16

definition elfhdr_of :: "u8 list \<Rightarrow> elfhdr" where
  "elfhdr_of bs = \<lparr>e_magic = get32 0 bs, e_entry = get64 24 bs, e_phoff = get64 32 bs, e_phnum = get16 56 bs\<rparr>"

record proghdr =
  ph_type :: u32
  ph_flags :: u32
  ph_off :: u64
  ph_vaddr :: u64
  ph_filesz :: u64
  ph_memsz :: u64

definition proghdr_of :: "u8 list \<Rightarrow> proghdr" where
  "proghdr_of bs = \<lparr>ph_type = get32 0 bs, ph_flags = get32 4 bs, ph_off = get64 8 bs, ph_vaddr = get64 16 bs,
     ph_filesz = get64 32 bs, ph_memsz = get64 40 bs\<rparr>"

definition flags2perm :: "u32 \<Rightarrow> u64" where
  "flags2perm flags =
     (let perm = (if flags AND 1 \<noteq> 0 then PTE_X else 0)
      in if flags AND 2 \<noteq> 0 then perm OR PTE_W else perm)"

text \<open>Each round loads a page: \<open>sz\<close> is a 32-bit number, so \<open>2^20\<close> rounds reach its end.\<close>

definition loadseg :: "u64 \<Rightarrow> u64 \<Rightarrow> nat \<Rightarrow> u32 \<Rightarrow> u32 \<Rightarrow> 'a fstate_scheme \<Rightarrow> (bool, 'a fstate_scheme) run" where
  "loadseg pagetable va ip offset sz s =
     loop (Suc (2 ^ 20)) (\<lambda>i s.
       if i < sz
       then bnd (walkaddr s pagetable (va + ucast i)) (\<lambda>pa s.
         if pa = 0 then Panic ''loadseg: address should exist''
         else let n = (if sz - i < ucast PGSIZE then sz - i else ucast PGSIZE)
              in bnd (readi ip (ToKernel pa) (offset + i) n s) (\<lambda>(r, _) s.
                if r \<noteq> n then Ret (Inr False) s else Ret (Inl (i + ucast PGSIZE)) s))
       else Ret (Inr True) s) 0 s"

text \<open>The loop over the program headers; it ends with whether all went well and the size reached.\<close>

definition load_step :: "u64 \<Rightarrow> nat \<Rightarrow> u16 \<Rightarrow> nat \<times> u32 \<times> u64 \<Rightarrow> 'a fstate_scheme \<Rightarrow>
    ((nat \<times> u32 \<times> u64) + (bool \<times> u64), 'a fstate_scheme) run" where
  "load_step pagetable ip phnum = (\<lambda>(i, off, sz) s.
     if i < unat phnum
     then bnd (readi ip ToLocal off 56 s) (\<lambda>(r, bs) s.
       let ph = proghdr_of bs
       in if r \<noteq> 56 then Ret (Inr (False, sz)) s
          else if ph_type ph \<noteq> ELF_PROG_LOAD then Ret (Inl (Suc i, off + 56, sz)) s
          else if ph_memsz ph < ph_filesz ph then Ret (Inr (False, sz)) s
          else if ph_vaddr ph + ph_memsz ph < ph_vaddr ph then Ret (Inr (False, sz)) s
          else if ph_vaddr ph mod PGSIZE \<noteq> 0 then Ret (Inr (False, sz)) s
          else bnd (uvmalloc s pagetable sz (ph_vaddr ph + ph_memsz ph) (flags2perm (ph_flags ph))) (\<lambda>sz1 s.
            if sz1 = 0 then Ret (Inr (False, sz)) s
            else bnd (loadseg pagetable (ph_vaddr ph) ip (ucast (ph_off ph)) (ucast (ph_filesz ph)) s) (\<lambda>ok s.
              if \<not> ok then Ret (Inr (False, sz1)) s else Ret (Inl (Suc i, off + 56, sz1)) s)))
     else Ret (Inr (True, sz)) s)"

text \<open>
  Pushing the argument strings below \<open>sp\<close>, the stack reaching down to \<open>stackbase\<close>. The result is the
  new stack pointer and the addresses of the strings, \<open>None\<close> for the jump to \<open>bad\<close>.
\<close>

definition align16 :: "u64 \<Rightarrow> u64" where
  "align16 sp = sp - sp mod 16"

fun push_args :: "u64 \<Rightarrow> u64 \<Rightarrow> u8 list list \<Rightarrow> u64 \<Rightarrow> u64 list \<Rightarrow> 'a kmem_scheme \<Rightarrow>
    ((u64 \<times> u64 list) option, 'a kmem_scheme) run" where
  "push_args pagetable stackbase [] sp ustack s = Ret (Some (sp, ustack)) s"
| "push_args pagetable stackbase (arg # argv) sp ustack s =
     (if MAXARG \<le> length ustack then Ret None s
      else let sp = align16 (sp - (of_nat (length arg) + 1))
           in if sp < stackbase then Ret None s
              else bnd (copyout s pagetable sp (arg @ [0])) (\<lambda>ok s.
                if \<not> ok then Ret None s
                else push_args pagetable stackbase argv sp (ustack @ [sp]) s))"

text \<open>The label \<open>bad\<close>; \<open>ip\<close> is \<open>None\<close> after the file has been closed.\<close>

definition exec_bad :: "u64 \<Rightarrow> u64 \<Rightarrow> nat option \<Rightarrow> 'a fstate_scheme \<Rightarrow> (u32 option, 'a fstate_scheme) run" where
  "exec_bad pagetable sz ip s =
     bnd (if pagetable \<noteq> 0 then proc_freepagetable s pagetable sz else Ret () s) (\<lambda>_ s.
       case ip of
         None \<Rightarrow> Ret None s
       | Some ip \<Rightarrow> bnd (iunlockput ip s) (\<lambda>_ s. bnd (end_op s) (\<lambda>_ s. Ret None s)))"

text \<open>The name of the program: what follows the last slash of the path.\<close>

definition last_element :: "u8 list \<Rightarrow> u8 list" where
  "last_element path = rev (takeWhile (\<lambda>c. c \<noteq> slash) (rev path))"

text \<open>From the loaded segments to the new image: stack, arguments, and the switch of page tables.\<close>

definition exec_image :: "u8 list \<Rightarrow> u8 list list \<Rightarrow> elfhdr \<Rightarrow> u64 \<Rightarrow> u64 \<Rightarrow> 'a fstate_scheme \<Rightarrow>
    (u32 option, 'a fstate_scheme) run" where
  "exec_image path argv elf pagetable sz s =
     with_proc s (\<lambda>p.
       let oldsz = p_sz (procs s ! p); sz = PGROUNDUP sz; stack = of_nat (USERSTACK + 1) * PGSIZE
       in bnd (uvmalloc s pagetable sz (sz + stack) PTE_W) (\<lambda>sz1 s.
         if sz1 = 0 then exec_bad pagetable sz None s
         else bnd (uvmclear s pagetable (sz1 - stack)) (\<lambda>_ s.
           let stackbase = sz1 - of_nat USERSTACK * PGSIZE
           in bnd (push_args pagetable stackbase argv sz1 [] s) (\<lambda>r s.
             case r of
               None \<Rightarrow> exec_bad pagetable sz1 None s
             | Some (sp, ustack) \<Rightarrow>
                 let argc = length argv; sp = align16 (sp - (of_nat argc + 1) * 8)
                 in if sp < stackbase then exec_bad pagetable sz1 None s
                    else bnd (copyout s pagetable sp (concat (map le64 (ustack @ [0])))) (\<lambda>ok s.
                      if \<not> ok then exec_bad pagetable sz1 None s
                      else
                        let s = set_tf p (tf_a 1) sp s;
                            s = upd_proc p (\<lambda>q. q\<lparr>p_name := proc_name (last_element path)\<rparr>) s;
                            oldpagetable = p_pagetable (procs s ! p);
                            s = upd_proc p (\<lambda>q. q\<lparr>p_pagetable := pagetable, p_sz := sz1\<rparr>) s;
                            s = set_tf p tf_epc (e_entry elf) s;
                            s = set_tf p tf_sp sp s
                        in bnd (proc_freepagetable s oldpagetable oldsz) (\<lambda>_ s.
                             Ret (Some (of_nat argc)) s)))))) "

definition exec :: "u8 list \<Rightarrow> u8 list list \<Rightarrow> 'a fstate_scheme \<Rightarrow> (u32 option, 'a fstate_scheme) run" where
  "exec path argv s =
     with_proc s (\<lambda>p.
     bnd (begin_op s) (\<lambda>_ s.
     bnd (namei path s) (\<lambda>r s.
       case r of
         None \<Rightarrow> bnd (end_op s) (\<lambda>_ s. Ret None s)
       | Some ip \<Rightarrow>
           bnd (ilock ip s) (\<lambda>_ s.
           bnd (readi ip ToLocal 0 64 s) (\<lambda>(r, bs) s.
             let elf = elfhdr_of bs
             in if r \<noteq> 64 \<or> e_magic elf \<noteq> ELF_MAGIC then exec_bad 0 0 (Some ip) s
                else bnd (proc_pagetable s p) (\<lambda>pagetable s.
                  if pagetable = 0 then exec_bad 0 0 (Some ip) s
                  else bnd (loop (Suc (unat (e_phnum elf))) (load_step pagetable ip (e_phnum elf))
                              (0, ucast (e_phoff elf), 0) s) (\<lambda>(ok, sz) s.
                    if \<not> ok then exec_bad pagetable sz (Some ip) s
                    else bnd (iunlockput ip s) (\<lambda>_ s.
                         bnd (end_op s) (\<lambda>_ s.
                         exec_image path argv elf pagetable sz s)))))))))"

end
