(* ===== verification/Sysfile.thy ===== *)
theory Sysfile
  imports Sysproc Exec
begin

text \<open>
  The system calls on files (kernel/sysfile.c). A failed call returns -1 as a 64-bit value; a path
  is the string the user passed.
\<close>

definition O_RDONLY :: u32 where [params]: "O_RDONLY = 0"
definition O_WRONLY :: u32 where [params]: "O_WRONLY = 1"
definition O_RDWR :: u32 where [params]: "O_RDWR = 2"
definition O_CREATE :: u32 where [params]: "O_CREATE = 0x200"
definition O_TRUNC :: u32 where [params]: "O_TRUNC = 0x400"

section \<open>Descriptors\<close>

text \<open>The descriptor and its file.\<close>

definition argfd :: "nat \<Rightarrow> 'a pstate_scheme \<Rightarrow> ((u32 \<times> nat) option, 'a pstate_scheme) run" where
  "argfd n s =
     bnd (argint n s) (\<lambda>fd s.
       if fd <s 0 \<or> of_nat NOFILE \<le>s fd then Ret None s
       else with_proc s (\<lambda>p.
         case p_ofile (procs s ! p) ! unat fd of None \<Rightarrow> Ret None s | Some f \<Rightarrow> Ret (Some (fd, f)) s))"

definition fdalloc :: "nat \<Rightarrow> 'a pstate_scheme \<Rightarrow> (u32 option, 'a pstate_scheme) run" where
  "fdalloc f s =
     with_proc s (\<lambda>p.
       case first_slot (\<lambda>x. x = None) (take NOFILE (p_ofile (procs s ! p))) of
         None \<Rightarrow> Ret None s
       | Some fd \<Rightarrow> Ret (Some (of_nat fd)) (upd_proc p (\<lambda>q. q\<lparr>p_ofile := (p_ofile q)[fd := Some f]\<rparr>) s))"

definition clear_fd :: "u32 \<Rightarrow> 'a pstate_scheme \<Rightarrow> (unit, 'a pstate_scheme) run" where
  "clear_fd fd s = with_proc s (\<lambda>p. Ret () (upd_proc p (\<lambda>q. q\<lparr>p_ofile := (p_ofile q)[unat fd := None]\<rparr>) s))"

definition sys_dup :: "'a kstate_scheme \<Rightarrow> (u64, 'a kstate_scheme) run" where
  "sys_dup s =
     bnd (argfd 0 s) (\<lambda>r s.
       case r of
         None \<Rightarrow> Ret (- 1) s
       | Some (_, f) \<Rightarrow>
           bnd (fdalloc f s) (\<lambda>r s.
             case r of
               None \<Rightarrow> Ret (- 1) s
             | Some fd \<Rightarrow> bnd (filedup f s) (\<lambda>_ s. Ret (scast fd) s)))"

definition sys_read :: "'a kstate_scheme \<Rightarrow> (u64, 'a kstate_scheme) run" where
  "sys_read s =
     bnd (argaddr 1 s) (\<lambda>p s. bnd (argint 2 s) (\<lambda>n s. bnd (argfd 0 s) (\<lambda>r s.
       case r of
         None \<Rightarrow> Ret (- 1) s
       | Some (_, f) \<Rightarrow> bnd (fileread f p n s) (\<lambda>r s. Ret (scast r) s))))"

definition sys_write :: "'a kstate_scheme \<Rightarrow> (u64, 'a kstate_scheme) run" where
  "sys_write s =
     bnd (argaddr 1 s) (\<lambda>p s. bnd (argint 2 s) (\<lambda>n s. bnd (argfd 0 s) (\<lambda>r s.
       case r of
         None \<Rightarrow> Ret (- 1) s
       | Some (_, f) \<Rightarrow> bnd (filewrite f p n s) (\<lambda>r s. Ret (scast r) s))))"

definition sys_close :: "'a kstate_scheme \<Rightarrow> (u64, 'a kstate_scheme) run" where
  "sys_close s =
     bnd (argfd 0 s) (\<lambda>r s.
       case r of
         None \<Rightarrow> Ret (- 1) s
       | Some (fd, f) \<Rightarrow> bnd (clear_fd fd s) (\<lambda>_ s. bnd (fileclose f s) (\<lambda>_ s. Ret 0 s)))"

definition sys_fstat :: "'a kstate_scheme \<Rightarrow> (u64, 'a kstate_scheme) run" where
  "sys_fstat s =
     bnd (argaddr 1 s) (\<lambda>st s. bnd (argfd 0 s) (\<lambda>r s.
       case r of
         None \<Rightarrow> Ret (- 1) s
       | Some (_, f) \<Rightarrow> bnd (filestat f st s) (\<lambda>ok s. Ret (if ok then 0 else - 1) s)))"

section \<open>Links\<close>

text \<open>A failing exit from a transaction.\<close>

definition end_bad :: "'a fstate_scheme \<Rightarrow> (u64, 'a fstate_scheme) run" where
  "end_bad s = bnd (end_op s) (\<lambda>_ s. Ret (- 1) s)"

definition sys_link_bad :: "nat \<Rightarrow> 'a fstate_scheme \<Rightarrow> (u64, 'a fstate_scheme) run" where
  "sys_link_bad ip s =
     bnd (ilock ip s) (\<lambda>_ s.
     bnd (iupdate ip (upd_inode ip (\<lambda>x. x\<lparr>i_nlink := i_nlink x - 1\<rparr>) s)) (\<lambda>_ s.
     bnd (iunlockput ip s) (\<lambda>_ s.
     end_bad s)))"

text \<open>The local buffer \<open>name\<close> holds whatever the stack holds until \<open>nameiparent\<close> writes it.\<close>

definition sys_link :: "'a kstate_scheme \<Rightarrow> (u64, 'a kstate_scheme) run" where
  "sys_link s =
     bnd (argstr 0 MAXPATH s) (\<lambda>old s.
       case old of
         None \<Rightarrow> Ret (- 1) s
       | Some old \<Rightarrow>
     bnd (argstr 1 MAXPATH s) (\<lambda>new s.
       case new of
         None \<Rightarrow> Ret (- 1) s
       | Some new \<Rightarrow>
     bnd (begin_op s) (\<lambda>_ s.
     bnd (namei old s) (\<lambda>r s.
       case r of
         None \<Rightarrow> end_bad s
       | Some ip \<Rightarrow>
     bnd (ilock ip s) (\<lambda>_ s.
       if i_type (itable s ! ip) = T_DIR then bnd (iunlockput ip s) (\<lambda>_ s. end_bad s)
       else
     bnd (iupdate ip (upd_inode ip (\<lambda>x. x\<lparr>i_nlink := i_nlink x + 1\<rparr>) s)) (\<lambda>_ s.
     bnd (iunlock ip s) (\<lambda>_ s.
     bnd (nameiparent new (replicate DIRSIZ (junk s)) s) (\<lambda>(r, name) s.
       case r of
         None \<Rightarrow> sys_link_bad ip s
       | Some dp \<Rightarrow>
     bnd (ilock dp s) (\<lambda>_ s.
     bnd (if i_dev (itable s ! dp) \<noteq> i_dev (itable s ! ip) then Ret False s
          else dirlink dp name (i_inum (itable s ! ip)) s) (\<lambda>ok s.
       if \<not> ok then bnd (iunlockput dp s) (\<lambda>_ s. sys_link_bad ip s)
       else
     bnd (iunlockput dp s) (\<lambda>_ s.
     bnd (iput ip s) (\<lambda>_ s.
     bnd (end_op s) (\<lambda>_ s.
     Ret 0 s)))))))))))))"

definition isdirempty :: "nat \<Rightarrow> 'a fstate_scheme \<Rightarrow> (bool, 'a fstate_scheme) run" where
  "isdirempty dp s =
     loop (Suc (unat (i_size (itable s ! dp)))) (\<lambda>off s.
       if off < i_size (itable s ! dp)
       then bnd (readi dp ToLocal off 16 s) (\<lambda>(r, de) s.
         if r \<noteq> 16 then Panic ''isdirempty: readi''
         else if de_inum de \<noteq> 0 then Ret (Inr False) s
         else Ret (Inl (off + 16)) s)
       else Ret (Inr True) s) 32 s"

definition sys_unlink_bad :: "nat \<Rightarrow> 'a fstate_scheme \<Rightarrow> (u64, 'a fstate_scheme) run" where
  "sys_unlink_bad dp s = bnd (iunlockput dp s) (\<lambda>_ s. end_bad s)"

definition sys_unlink :: "'a kstate_scheme \<Rightarrow> (u64, 'a kstate_scheme) run" where
  "sys_unlink s =
     bnd (argstr 0 MAXPATH s) (\<lambda>path s.
       case path of
         None \<Rightarrow> Ret (- 1) s
       | Some path \<Rightarrow>
     bnd (begin_op s) (\<lambda>_ s.
     bnd (nameiparent path (replicate DIRSIZ (junk s)) s) (\<lambda>(r, name) s.
       case r of
         None \<Rightarrow> end_bad s
       | Some dp \<Rightarrow>
     bnd (ilock dp s) (\<lambda>_ s.
       if namecmp name (str ''.'') = 0 \<or> namecmp name (str ''..'') = 0 then sys_unlink_bad dp s
       else
     bnd (dirlookup dp name s) (\<lambda>r s.
       case r of
         None \<Rightarrow> sys_unlink_bad dp s
       | Some (ip, off) \<Rightarrow>
     bnd (ilock ip s) (\<lambda>_ s.
       if i_nlink (itable s ! ip) <s 1 then Panic ''unlink: nlink < 1''
       else
     bnd (if i_type (itable s ! ip) = T_DIR then isdirempty ip s else Ret True s) (\<lambda>empty s.
       if \<not> empty then bnd (iunlockput ip s) (\<lambda>_ s. sys_unlink_bad dp s)
       else
     bnd (writei dp (FromLocal (replicate 16 0)) off 16 s) (\<lambda>r s.
       if r \<noteq> 16 then Panic ''unlink: writei''
       else
     bnd (if i_type (itable s ! ip) = T_DIR
          then iupdate dp (upd_inode dp (\<lambda>x. x\<lparr>i_nlink := i_nlink x - 1\<rparr>) s)
          else Ret () s) (\<lambda>_ s.
     bnd (iunlockput dp s) (\<lambda>_ s.
     bnd (iupdate ip (upd_inode ip (\<lambda>x. x\<lparr>i_nlink := i_nlink x - 1\<rparr>) s)) (\<lambda>_ s.
     bnd (iunlockput ip s) (\<lambda>_ s.
     bnd (end_op s) (\<lambda>_ s.
     Ret 0 s)))))))))))))"

section \<open>Creating and opening\<close>

definition create_fail :: "nat \<Rightarrow> nat \<Rightarrow> 'a fstate_scheme \<Rightarrow> (nat option, 'a fstate_scheme) run" where
  "create_fail ip dp s =
     bnd (iupdate ip (upd_inode ip (\<lambda>x. x\<lparr>i_nlink := 0\<rparr>) s)) (\<lambda>_ s.
     bnd (iunlockput ip s) (\<lambda>_ s.
     bnd (iunlockput dp s) (\<lambda>_ s.
     Ret None s)))"

definition create :: "u8 list \<Rightarrow> u16 \<Rightarrow> u16 \<Rightarrow> u16 \<Rightarrow> 'a kstate_scheme \<Rightarrow> (nat option, 'a kstate_scheme) run" where
  "create path type major minor s =
     bnd (nameiparent path (replicate DIRSIZ (junk s)) s) (\<lambda>(r, name) s.
       case r of
         None \<Rightarrow> Ret None s
       | Some dp \<Rightarrow>
     bnd (ilock dp s) (\<lambda>_ s.
     bnd (dirlookup dp name s) (\<lambda>r s.
       case r of
         Some (ip, _) \<Rightarrow>
           bnd (iunlockput dp s) (\<lambda>_ s.
           bnd (ilock ip s) (\<lambda>_ s.
             if type = T_FILE \<and> (i_type (itable s ! ip) = T_FILE \<or> i_type (itable s ! ip) = T_DEVICE)
             then Ret (Some ip) s
             else bnd (iunlockput ip s) (\<lambda>_ s. Ret None s)))
       | None \<Rightarrow>
     bnd (ialloc (i_dev (itable s ! dp)) type s) (\<lambda>r s.
       case r of
         None \<Rightarrow> bnd (iunlockput dp s) (\<lambda>_ s. Ret None s)
       | Some ip \<Rightarrow>
     bnd (ilock ip s) (\<lambda>_ s.
     bnd (iupdate ip (upd_inode ip (\<lambda>x. x\<lparr>i_major := major, i_minor := minor, i_nlink := 1\<rparr>) s)) (\<lambda>_ s.
     bnd (if type = T_DIR
          then bnd (dirlink ip (str ''.'') (i_inum (itable s ! ip)) s) (\<lambda>ok s.
            if \<not> ok then Ret False s else dirlink ip (str ''..'') (i_inum (itable s ! dp)) s)
          else Ret True s) (\<lambda>ok s.
       if \<not> ok then create_fail ip dp s
       else
     bnd (dirlink dp name (i_inum (itable s ! ip)) s) (\<lambda>ok s.
       if \<not> ok then create_fail ip dp s
       else
     bnd (if type = T_DIR then iupdate dp (upd_inode dp (\<lambda>x. x\<lparr>i_nlink := i_nlink x + 1\<rparr>) s) else Ret () s) (\<lambda>_ s.
     bnd (iunlockput dp s) (\<lambda>_ s.
     Ret (Some ip) s))))))))))"

text \<open>The first half of \<open>sys_open\<close>: the locked inode.\<close>

definition open_inode :: "u8 list \<Rightarrow> u32 \<Rightarrow> 'a kstate_scheme \<Rightarrow> (nat option, 'a kstate_scheme) run" where
  "open_inode path omode s =
     (if omode AND O_CREATE \<noteq> 0 then create path T_FILE 0 0 s
      else bnd (namei path s) (\<lambda>r s.
        case r of
          None \<Rightarrow> Ret None s
        | Some ip \<Rightarrow>
            bnd (ilock ip s) (\<lambda>_ s.
              if i_type (itable s ! ip) = T_DIR \<and> omode \<noteq> O_RDONLY
              then bnd (iunlockput ip s) (\<lambda>_ s. Ret None s)
              else Ret (Some ip) s)))"

definition open_file :: "nat \<Rightarrow> u32 \<Rightarrow> inode \<Rightarrow> kfile \<Rightarrow> kfile" where
  "open_file ip omode x f =
     (let f = (if i_type x = T_DEVICE then f\<lparr>f_type := FD_DEVICE, f_major := i_major x\<rparr>
               else f\<lparr>f_type := FD_INODE, f_off := 0\<rparr>)
      in f\<lparr>f_ip := ip, f_readable := (omode AND O_WRONLY = 0),
           f_writable := (omode AND O_WRONLY \<noteq> 0 \<or> omode AND O_RDWR \<noteq> 0)\<rparr>)"

definition sys_open :: "'a kstate_scheme \<Rightarrow> (u64, 'a kstate_scheme) run" where
  "sys_open s =
     bnd (argint 1 s) (\<lambda>omode s.
     bnd (argstr 0 MAXPATH s) (\<lambda>path s.
       case path of
         None \<Rightarrow> Ret (- 1) s
       | Some path \<Rightarrow>
     bnd (begin_op s) (\<lambda>_ s.
     bnd (open_inode path omode s) (\<lambda>r s.
       case r of
         None \<Rightarrow> end_bad s
       | Some ip \<Rightarrow>
       if i_type (itable s ! ip) = T_DEVICE \<and> (i_major (itable s ! ip) <s 0 \<or> of_nat NDEV \<le>s i_major (itable s ! ip))
       then bnd (iunlockput ip s) (\<lambda>_ s. end_bad s)
       else case filealloc s of
         (None, s) \<Rightarrow> bnd (iunlockput ip s) (\<lambda>_ s. end_bad s)
       | (Some f, s) \<Rightarrow>
     bnd (fdalloc f s) (\<lambda>r s.
       case r of
         None \<Rightarrow> bnd (fileclose f s) (\<lambda>_ s. bnd (iunlockput ip s) (\<lambda>_ s. end_bad s))
       | Some fd \<Rightarrow>
           let s = upd_file f (open_file ip omode (itable s ! ip)) s
           in bnd (if omode AND O_TRUNC \<noteq> 0 \<and> i_type (itable s ! ip) = T_FILE then itrunc ip s else Ret () s) (\<lambda>_ s.
              bnd (iunlock ip s) (\<lambda>_ s.
              bnd (end_op s) (\<lambda>_ s.
              Ret (scast fd) s))))))))"

definition sys_mkdir :: "'a kstate_scheme \<Rightarrow> (u64, 'a kstate_scheme) run" where
  "sys_mkdir s =
     bnd (begin_op s) (\<lambda>_ s.
     bnd (argstr 0 MAXPATH s) (\<lambda>path s.
     bnd (case path of None \<Rightarrow> Ret None s | Some path \<Rightarrow> create path T_DIR 0 0 s) (\<lambda>r s.
       case r of
         None \<Rightarrow> end_bad s
       | Some ip \<Rightarrow> bnd (iunlockput ip s) (\<lambda>_ s. bnd (end_op s) (\<lambda>_ s. Ret 0 s)))))"

definition sys_mknod :: "'a kstate_scheme \<Rightarrow> (u64, 'a kstate_scheme) run" where
  "sys_mknod s =
     bnd (begin_op s) (\<lambda>_ s.
     bnd (argint 1 s) (\<lambda>major s.
     bnd (argint 2 s) (\<lambda>minor s.
     bnd (argstr 0 MAXPATH s) (\<lambda>path s.
     bnd (case path of None \<Rightarrow> Ret None s | Some path \<Rightarrow> create path T_DEVICE (ucast major) (ucast minor) s) (\<lambda>r s.
       case r of
         None \<Rightarrow> end_bad s
       | Some ip \<Rightarrow> bnd (iunlockput ip s) (\<lambda>_ s. bnd (end_op s) (\<lambda>_ s. Ret 0 s)))))))"

definition sys_chdir :: "'a kstate_scheme \<Rightarrow> (u64, 'a kstate_scheme) run" where
  "sys_chdir s =
     with_proc s (\<lambda>p.
     bnd (begin_op s) (\<lambda>_ s.
     bnd (argstr 0 MAXPATH s) (\<lambda>path s.
     bnd (case path of None \<Rightarrow> Ret None s | Some path \<Rightarrow> namei path s) (\<lambda>r s.
       case r of
         None \<Rightarrow> end_bad s
       | Some ip \<Rightarrow>
     bnd (ilock ip s) (\<lambda>_ s.
       if i_type (itable s ! ip) \<noteq> T_DIR then bnd (iunlockput ip s) (\<lambda>_ s. end_bad s)
       else
     bnd (iunlock ip s) (\<lambda>_ s.
     bnd (case p_cwd (procs s ! p) of None \<Rightarrow> Undef | Some cwd \<Rightarrow> iput cwd s) (\<lambda>_ s.
     bnd (end_op s) (\<lambda>_ s.
     Ret 0 (upd_proc p (\<lambda>q. q\<lparr>p_cwd := Some ip\<rparr>) s)))))))))"

section \<open>Programs and pipes\<close>

text \<open>
  The argument strings of \<open>sys_exec\<close> go to pages of their own. \<open>get_args\<close> is the loop that fetches
  them: it ends with the strings, or \<open>None\<close>, and the pages to free.
\<close>

definition get_args_step :: "u64 \<Rightarrow> u64 list \<times> u8 list list \<Rightarrow> 'a kstate_scheme \<Rightarrow>
    ((u64 list \<times> u8 list list) + (u64 list \<times> u8 list list option), 'a kstate_scheme) run" where
  "get_args_step uargv = (\<lambda>(pages, argv) s.
     if MAXARG \<le> length argv then Ret (Inr (pages, None)) s
     else bnd (fetchaddr (uargv + 8 * of_nat (length argv)) s) (\<lambda>uarg s.
       case uarg of
         None \<Rightarrow> Ret (Inr (pages, None)) s
       | Some uarg \<Rightarrow>
           if uarg = 0 then Ret (Inr (pages, Some argv)) s
           else bnd (kalloc s) (\<lambda>page s.
             if page = 0 then Ret (Inr (pages, None)) s
             else bnd (fetchstr uarg (unat PGSIZE) s) (\<lambda>arg s.
               case arg of
                 None \<Rightarrow> Ret (Inr (pages @ [page], None)) s
               | Some arg \<Rightarrow>
                   Ret (Inl (pages @ [page], argv @ [arg])) (s\<lparr>phys := store_bytes (phys s) page (arg @ [0])\<rparr>)))))"

definition sys_exec :: "'a kstate_scheme \<Rightarrow> (u64, 'a kstate_scheme) run" where
  "sys_exec s =
     bnd (argaddr 1 s) (\<lambda>uargv s.
     bnd (argstr 0 MAXPATH s) (\<lambda>path s.
       case path of
         None \<Rightarrow> Ret (- 1) s
       | Some path \<Rightarrow>
           bnd (loop (Suc MAXARG) (get_args_step uargv) ([], []) s) (\<lambda>(pages, argv) s.
           bnd (case argv of None \<Rightarrow> Ret None s | Some argv \<Rightarrow> exec path argv s) (\<lambda>ret s.
           bnd (each (\<lambda>page s. kfree s page) pages s) (\<lambda>_ s.
           Ret (int_result ret) s)))))"

definition pipe_bad :: "nat \<Rightarrow> nat \<Rightarrow> 'a kstate_scheme \<Rightarrow> (u64, 'a kstate_scheme) run" where
  "pipe_bad rfile wfile s = bnd (fileclose rfile s) (\<lambda>_ s. bnd (fileclose wfile s) (\<lambda>_ s. Ret (- 1) s))"

definition sys_pipe :: "'a kstate_scheme \<Rightarrow> (u64, 'a kstate_scheme) run" where
  "sys_pipe s =
     with_proc s (\<lambda>p.
     bnd (argaddr 0 s) (\<lambda>fdarray s.
     bnd (pipealloc s) (\<lambda>r s.
       case r of
         None \<Rightarrow> Ret (- 1) s
       | Some (rfile, wfile) \<Rightarrow>
     bnd (fdalloc rfile s) (\<lambda>r s.
       case r of
         None \<Rightarrow> pipe_bad rfile wfile s
       | Some fd0 \<Rightarrow>
     bnd (fdalloc wfile s) (\<lambda>r s.
       case r of
         None \<Rightarrow> bnd (clear_fd fd0 s) (\<lambda>_ s. pipe_bad rfile wfile s)
       | Some fd1 \<Rightarrow>
     bnd (copyout s (p_pagetable (procs s ! p)) fdarray (le32 fd0)) (\<lambda>ok s.
     bnd (if ok then copyout s (p_pagetable (procs s ! p)) (fdarray + 4) (le32 fd1) else Ret False s) (\<lambda>ok s.
       if \<not> ok
       then bnd (clear_fd fd0 s) (\<lambda>_ s. bnd (clear_fd fd1 s) (\<lambda>_ s. pipe_bad rfile wfile s))
       else Ret 0 s)))))))"

end
