(* ===== verification/Syscall.thy ===== *)
theory Syscall
  imports Sysfile
begin

text \<open>
  The system-call numbers (kernel/syscall.h) and the dispatcher (\<open>syscall\<close>, kernel/syscall.c).
\<close>

definition SYS_fork :: u32 where [params]: "SYS_fork = 1"
definition SYS_exit :: u32 where [params]: "SYS_exit = 2"
definition SYS_wait :: u32 where [params]: "SYS_wait = 3"
definition SYS_pipe :: u32 where [params]: "SYS_pipe = 4"
definition SYS_read :: u32 where [params]: "SYS_read = 5"
definition SYS_kill :: u32 where [params]: "SYS_kill = 6"
definition SYS_exec :: u32 where [params]: "SYS_exec = 7"
definition SYS_fstat :: u32 where [params]: "SYS_fstat = 8"
definition SYS_chdir :: u32 where [params]: "SYS_chdir = 9"
definition SYS_dup :: u32 where [params]: "SYS_dup = 10"
definition SYS_getpid :: u32 where [params]: "SYS_getpid = 11"
definition SYS_sbrk :: u32 where [params]: "SYS_sbrk = 12"
definition SYS_sleep :: u32 where [params]: "SYS_sleep = 13"
definition SYS_uptime :: u32 where [params]: "SYS_uptime = 14"
definition SYS_open :: u32 where [params]: "SYS_open = 15"
definition SYS_write :: u32 where [params]: "SYS_write = 16"
definition SYS_mknod :: u32 where [params]: "SYS_mknod = 17"
definition SYS_unlink :: u32 where [params]: "SYS_unlink = 18"
definition SYS_link :: u32 where [params]: "SYS_link = 19"
definition SYS_mkdir :: u32 where [params]: "SYS_mkdir = 20"
definition SYS_close :: u32 where [params]: "SYS_close = 21"
definition SYS_tempo_total :: u32 where [params]: "SYS_tempo_total = 22"
definition SYS_get_eficiencia :: u32 where [params]: "SYS_get_eficiencia = 23"
definition SYS_get_overhead :: u32 where [params]: "SYS_get_overhead = 24"
definition SYS_increment_metric :: u32 where [params]: "SYS_increment_metric = 25"
definition SYS_initialize_metrics :: u32 where [params]: "SYS_initialize_metrics = 26"
definition SYS_get_justica :: u32 where [params]: "SYS_get_justica = 27"
definition SYS_set_justica :: u32 where [params]: "SYS_set_justica = 28"
definition SYS_uptime_nolock :: u32 where [params]: "SYS_uptime_nolock = 29"
definition SYS_set_type :: u32 where [params]: "SYS_set_type = 30"

text \<open>The table, with each number's handler.\<close>

definition syscalls :: "(u32 \<times> ('a kstate_scheme \<Rightarrow> (u64, 'a kstate_scheme) run)) list" where
  "syscalls =
    [(SYS_fork, sys_fork),
     (SYS_exit, sys_exit),
     (SYS_wait, sys_wait),
     (SYS_pipe, sys_pipe),
     (SYS_read, sys_read),
     (SYS_kill, sys_kill),
     (SYS_exec, sys_exec),
     (SYS_fstat, sys_fstat),
     (SYS_chdir, sys_chdir),
     (SYS_dup, sys_dup),
     (SYS_getpid, sys_getpid),
     (SYS_sbrk, sys_sbrk),
     (SYS_sleep, sys_sleep),
     (SYS_uptime, sys_uptime),
     (SYS_open, sys_open),
     (SYS_write, sys_write),
     (SYS_mknod, sys_mknod),
     (SYS_unlink, sys_unlink),
     (SYS_link, sys_link),
     (SYS_mkdir, sys_mkdir),
     (SYS_close, sys_close),
     (SYS_tempo_total, sys_tempo_total),
     (SYS_get_eficiencia, sys_get_eficiencia),
     (SYS_get_overhead, sys_get_overhead),
     (SYS_increment_metric, sys_increment_metric),
     (SYS_initialize_metrics, sys_initialize_metrics),
     (SYS_get_justica, sys_get_justica),
     (SYS_set_justica, sys_set_justica),
     (SYS_uptime_nolock, \<lambda>s. Ret (ucast (sys_uptime_nolock s)) s),
     (SYS_set_type, sys_set_type)]"

definition syscall :: "'a kstate_scheme \<Rightarrow> (unit, 'a kstate_scheme) run" where
  "syscall s =
     with_proc s (\<lambda>p.
       let num = ucast (get_tf s p (tf_a 7)) :: u32
       in case map_of syscalls num of
            Some f \<Rightarrow> bnd (f s) (\<lambda>r s. Ret () (set_tf p (tf_a 0) r s))
          | None \<Rightarrow>
              bnd (printf (str ''%d %s: unknown sys call %d'' @ [newline])
                     [VNum (ucast (p_pid (procs s ! p))), VStr (Some (p_name (procs s ! p))), VNum (ucast num)] s) (\<lambda>_ s.
              Ret () (set_tf p (tf_a 0) (- 1) s)))"

end
