(* ===== verification/Virtio.thy ===== *)
theory Virtio
  imports File
begin

text \<open>
  The driver of the virtio disk (kernel/virtio_disk.c, kernel/virtio.h). The queues live in pages
  shared with the device; here they are the structures that overlay the pages. The device is not
  part of the kernel: it is the sequence of values its registers return (\<open>vd_dev\<close>), the trace of
  register writes (\<open>vd_regs\<close>), and what it does to the shared structures between two steps of the
  driver. \<open>virtio_disk_rw\<close> sleeps until the device is done, so it comes in three parts: the request,
  the wait, and the end.
\<close>

section \<open>Registers and constants\<close>

definition VIRTIO_MMIO_MAGIC_VALUE :: nat where [params]: "VIRTIO_MMIO_MAGIC_VALUE = 0x000"
definition VIRTIO_MMIO_VERSION :: nat where [params]: "VIRTIO_MMIO_VERSION = 0x004"
definition VIRTIO_MMIO_DEVICE_ID :: nat where [params]: "VIRTIO_MMIO_DEVICE_ID = 0x008"
definition VIRTIO_MMIO_VENDOR_ID :: nat where [params]: "VIRTIO_MMIO_VENDOR_ID = 0x00c"
definition VIRTIO_MMIO_DEVICE_FEATURES :: nat where [params]: "VIRTIO_MMIO_DEVICE_FEATURES = 0x010"
definition VIRTIO_MMIO_DRIVER_FEATURES :: nat where [params]: "VIRTIO_MMIO_DRIVER_FEATURES = 0x020"
definition VIRTIO_MMIO_QUEUE_SEL :: nat where [params]: "VIRTIO_MMIO_QUEUE_SEL = 0x030"
definition VIRTIO_MMIO_QUEUE_NUM_MAX :: nat where [params]: "VIRTIO_MMIO_QUEUE_NUM_MAX = 0x034"
definition VIRTIO_MMIO_QUEUE_NUM :: nat where [params]: "VIRTIO_MMIO_QUEUE_NUM = 0x038"
definition VIRTIO_MMIO_QUEUE_READY :: nat where [params]: "VIRTIO_MMIO_QUEUE_READY = 0x044"
definition VIRTIO_MMIO_QUEUE_NOTIFY :: nat where [params]: "VIRTIO_MMIO_QUEUE_NOTIFY = 0x050"
definition VIRTIO_MMIO_INTERRUPT_STATUS :: nat where [params]: "VIRTIO_MMIO_INTERRUPT_STATUS = 0x060"
definition VIRTIO_MMIO_INTERRUPT_ACK :: nat where [params]: "VIRTIO_MMIO_INTERRUPT_ACK = 0x064"
definition VIRTIO_MMIO_STATUS :: nat where [params]: "VIRTIO_MMIO_STATUS = 0x070"
definition VIRTIO_MMIO_QUEUE_DESC_LOW :: nat where [params]: "VIRTIO_MMIO_QUEUE_DESC_LOW = 0x080"
definition VIRTIO_MMIO_QUEUE_DESC_HIGH :: nat where [params]: "VIRTIO_MMIO_QUEUE_DESC_HIGH = 0x084"
definition VIRTIO_MMIO_DRIVER_DESC_LOW :: nat where [params]: "VIRTIO_MMIO_DRIVER_DESC_LOW = 0x090"
definition VIRTIO_MMIO_DRIVER_DESC_HIGH :: nat where [params]: "VIRTIO_MMIO_DRIVER_DESC_HIGH = 0x094"
definition VIRTIO_MMIO_DEVICE_DESC_LOW :: nat where [params]: "VIRTIO_MMIO_DEVICE_DESC_LOW = 0x0a0"
definition VIRTIO_MMIO_DEVICE_DESC_HIGH :: nat where [params]: "VIRTIO_MMIO_DEVICE_DESC_HIGH = 0x0a4"
definition VIRTIO_CONFIG_S_ACKNOWLEDGE :: u32 where [params]: "VIRTIO_CONFIG_S_ACKNOWLEDGE = 1"
definition VIRTIO_CONFIG_S_DRIVER :: u32 where [params]: "VIRTIO_CONFIG_S_DRIVER = 2"
definition VIRTIO_CONFIG_S_DRIVER_OK :: u32 where [params]: "VIRTIO_CONFIG_S_DRIVER_OK = 4"
definition VIRTIO_CONFIG_S_FEATURES_OK :: u32 where [params]: "VIRTIO_CONFIG_S_FEATURES_OK = 8"
definition VIRTIO_BLK_F_RO :: nat where [params]: "VIRTIO_BLK_F_RO = 5"
definition VIRTIO_BLK_F_SCSI :: nat where [params]: "VIRTIO_BLK_F_SCSI = 7"
definition VIRTIO_BLK_F_CONFIG_WCE :: nat where [params]: "VIRTIO_BLK_F_CONFIG_WCE = 11"
definition VIRTIO_BLK_F_MQ :: nat where [params]: "VIRTIO_BLK_F_MQ = 12"
definition VIRTIO_F_ANY_LAYOUT :: nat where [params]: "VIRTIO_F_ANY_LAYOUT = 27"
definition VIRTIO_RING_F_INDIRECT_DESC :: nat where [params]: "VIRTIO_RING_F_INDIRECT_DESC = 28"
definition VIRTIO_RING_F_EVENT_IDX :: nat where [params]: "VIRTIO_RING_F_EVENT_IDX = 29"
definition NUM :: nat where [params]: "NUM = 8"
definition VRING_DESC_F_NEXT :: u16 where [params]: "VRING_DESC_F_NEXT = 1"
definition VRING_DESC_F_WRITE :: u16 where [params]: "VRING_DESC_F_WRITE = 2"
definition VIRTIO_BLK_T_IN :: u32 where [params]: "VIRTIO_BLK_T_IN = 0"
definition VIRTIO_BLK_T_OUT :: u32 where [params]: "VIRTIO_BLK_T_OUT = 1"

section \<open>State\<close>

text \<open>The objects a descriptor points to: a request header, the data of a buffer, a status byte.\<close>

datatype vaddr = Null | OpsAddr nat | DataAddr nat | StatusAddr nat

record virtq_desc =
  vq_addr :: vaddr
  vq_len :: u32
  vq_flags :: u16
  vq_next :: u16

record virtio_blk_req =
  req_type :: u32
  req_reserved :: u32
  req_sector :: u64

text \<open>\<open>info[i].b\<close> is \<open>None\<close> for the null pointer. The page of descriptors holds 256; the driver uses \<open>NUM\<close>.\<close>

record vstate = kstate +
  vd_desc :: "virtq_desc list"
  avail_idx :: u16
  avail_ring :: "u16 list"
  vused_idx :: u16
  vused_ring :: "u32 list"
  vd_free :: "bool list"
  used_idx :: u16
  info_b :: "nat option list"
  info_status :: "u8 list"
  vd_ops :: "virtio_blk_req list"
  vd_desc_pa :: u64
  vd_avail_pa :: u64
  vd_used_pa :: u64
  vd_dev :: "nat \<Rightarrow> nat \<Rightarrow> u32"
  vd_time :: nat
  vd_regs :: "(nat \<times> u32) list"

definition null_desc :: virtq_desc where
  "null_desc = \<lparr>vq_addr = Null, vq_len = 0, vq_flags = 0, vq_next = 0\<rparr>"

definition vread :: "nat \<Rightarrow> 'a vstate_scheme \<Rightarrow> u32 \<times> 'a vstate_scheme" where
  "vread r s = (vd_dev s (vd_time s) r, s\<lparr>vd_time := Suc (vd_time s)\<rparr>)"

definition vwrite :: "nat \<Rightarrow> u32 \<Rightarrow> 'a vstate_scheme \<Rightarrow> 'a vstate_scheme" where
  "vwrite r v s = s\<lparr>vd_regs := vd_regs s @ [(r, v)]\<rparr>"

section \<open>Initialisation\<close>

text \<open>The tests of the identification registers; \<open>||\<close> stops reading at the first that fails.\<close>

fun expect :: "(nat \<times> u32) list \<Rightarrow> 'a vstate_scheme \<Rightarrow> bool \<times> 'a vstate_scheme" where
  "expect [] s = (True, s)"
| "expect ((r, v) # rvs) s = (let (x, s) = vread r s in if x \<noteq> v then (False, s) else expect rvs s)"

definition features_mask :: u32 where
  "features_mask =
     NOT (push_bit VIRTIO_BLK_F_RO 1) AND NOT (push_bit VIRTIO_BLK_F_SCSI 1) AND NOT (push_bit VIRTIO_BLK_F_CONFIG_WCE 1)
     AND NOT (push_bit VIRTIO_BLK_F_MQ 1) AND NOT (push_bit VIRTIO_F_ANY_LAYOUT 1)
     AND NOT (push_bit VIRTIO_RING_F_EVENT_IDX 1) AND NOT (push_bit VIRTIO_RING_F_INDIRECT_DESC 1)"

text \<open>The handshake with the device: status bits and features; it ends with the status.\<close>

definition negotiate :: "'a vstate_scheme \<Rightarrow> (u32, 'a vstate_scheme) run" where
  "negotiate s =
     (let (ok, s) = expect [(VIRTIO_MMIO_MAGIC_VALUE, 0x74726976), (VIRTIO_MMIO_VERSION, 2),
                            (VIRTIO_MMIO_DEVICE_ID, 2), (VIRTIO_MMIO_VENDOR_ID, 0x554d4551)] s
      in if \<not> ok then Panic ''could not find virtio disk''
         else
           let s = vwrite VIRTIO_MMIO_STATUS 0 s;
               status = VIRTIO_CONFIG_S_ACKNOWLEDGE;
               s = vwrite VIRTIO_MMIO_STATUS status s;
               status = status OR VIRTIO_CONFIG_S_DRIVER;
               s = vwrite VIRTIO_MMIO_STATUS status s;
               (features, s) = vread VIRTIO_MMIO_DEVICE_FEATURES s;
               s = vwrite VIRTIO_MMIO_DRIVER_FEATURES (features AND features_mask) s;
               status = status OR VIRTIO_CONFIG_S_FEATURES_OK;
               s = vwrite VIRTIO_MMIO_STATUS status s;
               (status, s) = vread VIRTIO_MMIO_STATUS s
           in if status AND VIRTIO_CONFIG_S_FEATURES_OK = 0 then Panic ''virtio disk FEATURES_OK unset''
              else Ret status s)"

text \<open>The choice of queue 0 and the checks of its size.\<close>

definition select_queue :: "'a vstate_scheme \<Rightarrow> (unit, 'a vstate_scheme) run" where
  "select_queue s =
     (let s = vwrite VIRTIO_MMIO_QUEUE_SEL 0 s;
          (ready, s) = vread VIRTIO_MMIO_QUEUE_READY s
      in if ready \<noteq> 0 then Panic ''virtio disk should not be ready''
         else let (maxq, s) = vread VIRTIO_MMIO_QUEUE_NUM_MAX s
              in if maxq = 0 then Panic ''virtio disk has no queue 0''
                 else if maxq < of_nat NUM then Panic ''virtio disk max queue too short''
                 else Ret () s)"

definition virtio_disk_init :: "'a vstate_scheme \<Rightarrow> (unit, 'a vstate_scheme) run" where
  "virtio_disk_init s =
     bnd (negotiate s) (\<lambda>status s.
     bnd (select_queue s) (\<lambda>_ s.
     bnd (kalloc s) (\<lambda>desc s. bnd (kalloc s) (\<lambda>avail s. bnd (kalloc s) (\<lambda>used s.
       if desc = 0 \<or> avail = 0 \<or> used = 0 then Panic ''virtio disk kalloc''
       else
         let s = s\<lparr>vd_desc_pa := desc, vd_avail_pa := avail, vd_used_pa := used\<rparr>;
             s = s\<lparr>phys := memset (phys s) desc 0 (ucast PGSIZE)\<rparr>;
             s = s\<lparr>phys := memset (phys s) avail 0 (ucast PGSIZE)\<rparr>;
             s = s\<lparr>phys := memset (phys s) used 0 (ucast PGSIZE)\<rparr>;
             s = s\<lparr>vd_desc := replicate 256 null_desc, avail_idx := 0, avail_ring := replicate NUM 0,
                   vused_idx := 0, vused_ring := replicate NUM 0\<rparr>;
             s = vwrite VIRTIO_MMIO_QUEUE_NUM (of_nat NUM) s;
             s = vwrite VIRTIO_MMIO_QUEUE_DESC_LOW (ucast desc) s;
             s = vwrite VIRTIO_MMIO_QUEUE_DESC_HIGH (ucast (drop_bit 32 desc)) s;
             s = vwrite VIRTIO_MMIO_DRIVER_DESC_LOW (ucast avail) s;
             s = vwrite VIRTIO_MMIO_DRIVER_DESC_HIGH (ucast (drop_bit 32 avail)) s;
             s = vwrite VIRTIO_MMIO_DEVICE_DESC_LOW (ucast used) s;
             s = vwrite VIRTIO_MMIO_DEVICE_DESC_HIGH (ucast (drop_bit 32 used)) s;
             s = vwrite VIRTIO_MMIO_QUEUE_READY 1 s;
             s = s\<lparr>vd_free := replicate NUM True\<rparr>
         in Ret () (vwrite VIRTIO_MMIO_STATUS (status OR VIRTIO_CONFIG_S_DRIVER_OK) s))))))"

section \<open>Descriptors\<close>

definition alloc_desc :: "'a vstate_scheme \<Rightarrow> nat option \<times> 'a vstate_scheme" where
  "alloc_desc s =
     (case first_slot (\<lambda>free. free) (vd_free s) of
        None \<Rightarrow> (None, s)
      | Some i \<Rightarrow> (Some i, s\<lparr>vd_free := (vd_free s)[i := False]\<rparr>))"

definition free_desc :: "nat \<Rightarrow> 'a vstate_scheme \<Rightarrow> (unit, 'a vstate_scheme) run" where
  "free_desc i s =
     (if NUM \<le> i then Panic ''free_desc 1''
      else if vd_free s ! i then Panic ''free_desc 2''
      else Ret () (wakeup (Some ChDiskFree) (s\<lparr>vd_desc := (vd_desc s)[i := null_desc], vd_free := (vd_free s)[i := True]\<rparr>)))"

text \<open>A descriptor that is freed twice panics, so \<open>NUM + 1\<close> rounds are enough.\<close>

definition free_chain :: "nat \<Rightarrow> 'a vstate_scheme \<Rightarrow> (unit, 'a vstate_scheme) run" where
  "free_chain i s =
     loop (Suc NUM) (\<lambda>i s.
       index (vd_desc s) i (\<lambda>d.
         bnd (free_desc i s) (\<lambda>_ s.
           if vq_flags d AND VRING_DESC_F_NEXT \<noteq> 0 then Ret (Inl (unat (vq_next d))) s
           else Ret (Inr ()) s))) i s"

text \<open>\<open>idx\<close> are the descriptors allocated so far; on failure they are freed in order.\<close>

fun alloc_more :: "nat \<Rightarrow> nat list \<Rightarrow> 'a vstate_scheme \<Rightarrow> (nat list option, 'a vstate_scheme) run" where
  "alloc_more 0 idx s = Ret (Some idx) s"
| "alloc_more (Suc k) idx s =
     (case alloc_desc s of
        (Some i, s) \<Rightarrow> alloc_more k (idx @ [i]) s
      | (None, s) \<Rightarrow> bnd (each free_desc idx s) (\<lambda>_ s. Ret None s))"

definition alloc3_desc :: "'a vstate_scheme \<Rightarrow> (nat list option, 'a vstate_scheme) run" where
  "alloc3_desc s = alloc_more 3 [] s"

section \<open>Requests\<close>

text \<open>The three descriptors of a request for buffer \<open>b\<close>, its header and its status byte.\<close>

definition format_desc :: "nat \<Rightarrow> bool \<Rightarrow> nat \<Rightarrow> nat \<Rightarrow> nat \<Rightarrow> 'a vstate_scheme \<Rightarrow> 'a vstate_scheme" where
  "format_desc b write i0 i1 i2 s =
     s\<lparr>vd_ops := (vd_ops s)[i0 := \<lparr>req_type = (if write then VIRTIO_BLK_T_OUT else VIRTIO_BLK_T_IN), req_reserved = 0,
                                   req_sector = sector_of (b_blockno (bufs s ! b))\<rparr>],
       vd_desc := (vd_desc s)
         [i0 := \<lparr>vq_addr = OpsAddr i0, vq_len = 16, vq_flags = VRING_DESC_F_NEXT, vq_next = of_nat i1\<rparr>,
          i1 := \<lparr>vq_addr = DataAddr b, vq_len = of_nat BSIZE,
                 vq_flags = (if write then 0 else VRING_DESC_F_WRITE) OR VRING_DESC_F_NEXT, vq_next = of_nat i2\<rparr>,
          i2 := \<lparr>vq_addr = StatusAddr i0, vq_len = 1, vq_flags = VRING_DESC_F_WRITE, vq_next = 0\<rparr>],
       info_status := (info_status s)[i0 := 0xff]\<rparr>"

text \<open>The request: it ends with the head of the chain, or sleeps until descriptors are free and tries again.\<close>

definition virtio_request :: "nat \<Rightarrow> bool \<Rightarrow> 'a vstate_scheme \<Rightarrow> (nat, 'a vstate_scheme) run" where
  "virtio_request b write s =
     bnd (alloc3_desc s) (\<lambda>r s.
       case r of
         Some [i0, i1, i2] \<Rightarrow>
           let s = format_desc b write i0 i1 i2 s;
               s = upd_buf b (\<lambda>x. x\<lparr>b_disk := True\<rparr>) s;
               s = s\<lparr>info_b := (info_b s)[i0 := Some b]\<rparr>;
               s = s\<lparr>avail_ring := (avail_ring s)[ring_index NUM (avail_idx s) := of_nat i0]\<rparr>;
               s = s\<lparr>avail_idx := avail_idx s + 1\<rparr>
           in Ret i0 (vwrite VIRTIO_MMIO_QUEUE_NOTIFY 0 s)
       | _ \<Rightarrow> sleep ChDiskFree s)"

definition virtio_wait :: "nat \<Rightarrow> 'a vstate_scheme \<Rightarrow> (unit, 'a vstate_scheme) run" where
  "virtio_wait b s = (if b_disk (bufs s ! b) then sleep (ChBuf b) s else Ret () s)"

definition virtio_end :: "nat \<Rightarrow> 'a vstate_scheme \<Rightarrow> (unit, 'a vstate_scheme) run" where
  "virtio_end i0 s = free_chain i0 (s\<lparr>info_b := (info_b s)[i0 := None]\<rparr>)"

definition virtio_disk_rw :: "nat \<Rightarrow> bool \<Rightarrow> 'a vstate_scheme \<Rightarrow> (unit, 'a vstate_scheme) run" where
  "virtio_disk_rw b write s =
     bnd (virtio_request b write s) (\<lambda>i0 s.
     bnd (virtio_wait b s) (\<lambda>_ s.
     virtio_end i0 s))"

section \<open>Completions\<close>

text \<open>\<open>used_idx\<close> runs towards the device's index, so \<open>2^16\<close> rounds are enough.\<close>

definition virtio_disk_intr :: "'a vstate_scheme \<Rightarrow> (unit, 'a vstate_scheme) run" where
  "virtio_disk_intr s =
     (let (st, s) = vread VIRTIO_MMIO_INTERRUPT_STATUS s;
          s = vwrite VIRTIO_MMIO_INTERRUPT_ACK (st AND 3) s
      in loop (2 ^ 16) (\<lambda>_ s.
           if used_idx s \<noteq> vused_idx s
           then let id = unat (vused_ring s ! ring_index NUM (used_idx s))
                in index (info_status s) id (\<lambda>st.
                   if st \<noteq> 0 then Panic ''virtio_disk_intr status''
                   else case info_b s ! id of
                     None \<Rightarrow> Undef
                   | Some b \<Rightarrow>
                       let s = upd_buf b (\<lambda>x. x\<lparr>b_disk := False\<rparr>) s;
                           s = wakeup (Some (ChBuf b)) s
                       in Ret (Inl ()) (s\<lparr>used_idx := used_idx s + 1\<rparr>))
           else Ret (Inr ()) s) () s)"

end
