(* ===== verification/Trap.thy ===== *)
theory Trap
  imports Syscall Virtio
begin

text \<open>
  Traps (kernel/trap.c), the interrupt controller (kernel/plic.c) and the first return of a process
  (\<open>forkret\<close>, kernel/proc.c). The control and status registers are fields of the state, as they are
  when the trap is taken. A trap that ends in \<open>yield\<close> leaves the process runnable and the outcome
  says so: \<open>usertrapret\<close> is what it does when it runs again.
\<close>

definition SSTATUS_SPP :: u64 where [params]: "SSTATUS_SPP = 0x100"
definition SSTATUS_SPIE :: u64 where [params]: "SSTATUS_SPIE = 0x20"
definition SSTATUS_SIE :: u64 where [params]: "SSTATUS_SIE = 2"
definition SATP_SV39 :: u64 where [params]: "SATP_SV39 = 0x8000000000000000"
definition MAKE_SATP :: "u64 \<Rightarrow> u64" where "MAKE_SATP pagetable = SATP_SV39 OR drop_bit 12 pagetable"
definition UART0_IRQ :: u32 where [params]: "UART0_IRQ = 10"
definition VIRTIO0_IRQ :: u32 where [params]: "VIRTIO0_IRQ = 1"

definition PLIC_SENABLE :: "nat \<Rightarrow> u64" where "PLIC_SENABLE h = PLIC + 0x2080 + of_nat h * 0x100"
definition PLIC_SPRIORITY :: "nat \<Rightarrow> u64" where "PLIC_SPRIORITY h = PLIC + 0x201000 + of_nat h * 0x2000"
definition PLIC_SCLAIM :: "nat \<Rightarrow> u64" where "PLIC_SCLAIM h = PLIC + 0x201004 + of_nat h * 0x2000"

text \<open>
  The registers, the interrupt controller (the number the claim register gives, and the trace of
  writes to it), the clock, and the addresses of the assembly entry points. \<open>first\<close> is the static
  variable of \<open>forkret\<close>.
\<close>

record tstate = vstate +
  sepc :: u64
  scause :: u64
  stval :: u64
  sstatus :: u64
  stvec :: u64
  satp :: u64
  stimecmp :: u64
  time :: u64
  plic_irq :: u32
  plic_regs :: "(u64 \<times> u32) list"
  kernelvec :: u64
  uservec :: u64
  userret :: u64
  usertrap_addr :: u64
  first :: bool

section \<open>The interrupt controller\<close>

definition plic_write :: "u64 \<Rightarrow> u32 \<Rightarrow> 'a tstate_scheme \<Rightarrow> 'a tstate_scheme" where
  "plic_write a v s = s\<lparr>plic_regs := plic_regs s @ [(a, v)]\<rparr>"

definition plicinit :: "'a tstate_scheme \<Rightarrow> 'a tstate_scheme" where
  "plicinit s = plic_write (PLIC + ucast VIRTIO0_IRQ * 4) 1 (plic_write (PLIC + ucast UART0_IRQ * 4) 1 s)"

definition plicinithart :: "'a tstate_scheme \<Rightarrow> 'a tstate_scheme" where
  "plicinithart s =
     plic_write (PLIC_SPRIORITY (hart s)) 0
       (plic_write (PLIC_SENABLE (hart s)) (push_bit (unat UART0_IRQ) 1 OR push_bit (unat VIRTIO0_IRQ) 1) s)"

definition plic_claim :: "'a tstate_scheme \<Rightarrow> u32" where
  "plic_claim s = plic_irq s"

definition plic_complete :: "u32 \<Rightarrow> 'a tstate_scheme \<Rightarrow> 'a tstate_scheme" where
  "plic_complete irq s = plic_write (PLIC_SCLAIM (hart s)) irq s"

section \<open>Interrupts\<close>

definition trapinithart :: "'a tstate_scheme \<Rightarrow> 'a tstate_scheme" where
  "trapinithart s = s\<lparr>stvec := kernelvec s\<rparr>"

definition clockintr :: "'a tstate_scheme \<Rightarrow> 'a tstate_scheme" where
  "clockintr s =
     (let s = (if hart s = 0 then wakeup (Some ChTicks) (s\<lparr>ticks := ticks s + 1\<rparr>) else s)
      in s\<lparr>stimecmp := time s + 1000000\<rparr>)"

text \<open>The result: 2 for the timer, 1 for another device, 0 if the cause is not an interrupt.\<close>

definition devintr :: "'a tstate_scheme \<Rightarrow> (nat, 'a tstate_scheme) run" where
  "devintr s =
     (if scause s = 0x8000000000000009
      then let irq = plic_claim s
           in bnd (if irq = UART0_IRQ then uartintr s
                   else if irq = VIRTIO0_IRQ then virtio_disk_intr s
                   else if irq \<noteq> 0 then printf (str ''unexpected interrupt irq=%d'' @ [newline]) [VNum (ucast irq)] s
                   else Ret () s) (\<lambda>_ s.
              Ret 1 (if irq \<noteq> 0 then plic_complete irq s else s))
      else if scause s = 0x8000000000000005 then Ret 2 (clockintr s)
      else Ret 0 s)"

section \<open>Traps from user space\<close>

text \<open>\<open>usertrapret\<close> ends in the trampoline; its result is the page table it passes to \<open>userret\<close>.\<close>

definition usertrapret :: "'a tstate_scheme \<Rightarrow> (u64, 'a tstate_scheme) run" where
  "usertrapret s =
     with_proc s (\<lambda>p.
       let s = s\<lparr>sstatus := sstatus s AND NOT SSTATUS_SIE\<rparr>;
           s = s\<lparr>stvec := TRAMPOLINE + (uservec s - trampoline s)\<rparr>;
           s = set_tf p tf_kernel_satp (satp s) s;
           s = set_tf p tf_kernel_sp (p_kstack (procs s ! p) + PGSIZE) s;
           s = set_tf p tf_kernel_trap (usertrap_addr s) s;
           s = set_tf p tf_kernel_hartid (of_nat (hart s)) s;
           s = s\<lparr>sstatus := (sstatus s AND NOT SSTATUS_SPP) OR SSTATUS_SPIE\<rparr>;
           s = s\<lparr>sepc := get_tf s p tf_epc\<rparr>
       in Ret (MAKE_SATP (p_pagetable (procs s ! p))) s)"

datatype trap_end = Resume u64 | Yielded

text \<open>The part of \<open>usertrap\<close> that finds out what happened and serves it.\<close>

definition usertrap_serve :: "nat \<Rightarrow> 'a tstate_scheme \<Rightarrow> (nat, 'a tstate_scheme) run" where
  "usertrap_serve p s =
     (if scause s = 8
      then bnd (if killed s p then exit (- 1) s else Ret () s) (\<lambda>_ s.
           let s = set_tf p tf_epc (get_tf s p tf_epc + 4) s;
               s = s\<lparr>sstatus := sstatus s OR SSTATUS_SIE\<rparr>
           in bnd (syscall s) (\<lambda>_ s. Ret 0 s))
      else bnd (devintr s) (\<lambda>which s.
        if which \<noteq> 0 then Ret which s
        else bnd (printf (str ''usertrap(): unexpected scause 0x%lx pid=%d'' @ [newline])
                    [VNum (scause s), VNum (ucast (p_pid (procs s ! p)))] s) (\<lambda>_ s.
             bnd (printf (str ''            sepc=0x%lx stval=0x%lx'' @ [newline]) [VNum (sepc s), VNum (stval s)] s) (\<lambda>_ s.
             Ret 0 (setkilled p s)))))"

definition usertrap :: "'a tstate_scheme \<Rightarrow> (trap_end, 'a tstate_scheme) run" where
  "usertrap s =
     (if sstatus s AND SSTATUS_SPP \<noteq> 0 then Panic ''usertrap: not from user mode''
      else let s = s\<lparr>stvec := kernelvec s\<rparr>
           in with_proc s (\<lambda>p.
              bnd (usertrap_serve p (set_tf p tf_epc (sepc s) s)) (\<lambda>which s.
              bnd (if killed s p then exit (- 1) s else Ret () s) (\<lambda>_ s.
              if which = 2 then Ret Yielded (yield_state p s)
              else bnd (usertrapret s) (\<lambda>satp s. Ret (Resume satp) s)))))"

section \<open>Traps from the kernel\<close>

text \<open>The result says whether the interrupted process yields before the registers are restored.\<close>

definition kerneltrap :: "'a tstate_scheme \<Rightarrow> (bool, 'a tstate_scheme) run" where
  "kerneltrap s =
     (let pc = sepc s; status = sstatus s; cause = scause s
      in if status AND SSTATUS_SPP = 0 then Panic ''kerneltrap: not from supervisor mode''
         else if sstatus s AND SSTATUS_SIE \<noteq> 0 then Panic ''kerneltrap: interrupts enabled''
         else bnd (devintr s) (\<lambda>which s.
           if which = 0
           then bnd (printf (str ''scause=0x%lx sepc=0x%lx stval=0x%lx'' @ [newline]) [VNum cause, VNum (sepc s), VNum (stval s)] s) (\<lambda>_ s.
                Panic ''kerneltrap'')
           else let yields = (which = 2 \<and> myproc s \<noteq> None);
                    s = (if yields then yield_state (the (myproc s)) s else s)
                in Ret yields (s\<lparr>sepc := pc, sstatus := status\<rparr>)))"

section \<open>The first return\<close>

definition forkret :: "'a tstate_scheme \<Rightarrow> (u64, 'a tstate_scheme) run" where
  "forkret s =
     bnd (if first s then bnd (fsinit ROOTDEV s) (\<lambda>_ s. Ret () (s\<lparr>first := False\<rparr>)) else Ret () s) (\<lambda>_ s.
     usertrapret s)"

end
