(* ===== verification/Boot.thy ===== *)
theory Boot
  imports Trap
begin

text \<open>
  Start-up: the machine-mode code of each CPU (kernel/start.c) and \<open>main\<close> (kernel/main.c). The
  registers that only \<open>start\<close> uses are a record of their own.
\<close>

section \<open>Machine mode (kernel/start.c)\<close>

definition MSTATUS_MPP_MASK :: u64 where [params]: "MSTATUS_MPP_MASK = 0x1800"
definition MSTATUS_MPP_S :: u64 where [params]: "MSTATUS_MPP_S = 0x800"
definition SIE_SEIE :: u64 where [params]: "SIE_SEIE = 0x200"
definition SIE_STIE :: u64 where [params]: "SIE_STIE = 0x20"
definition SIE_SSIE :: u64 where [params]: "SIE_SSIE = 2"
definition MIE_STIE :: u64 where [params]: "MIE_STIE = 0x20"

record mregs =
  mstatus :: u64
  mepc :: u64
  msatp :: u64
  medeleg :: u64
  mideleg :: u64
  sie :: u64
  pmpaddr0 :: u64
  pmpcfg0 :: u64
  mie :: u64
  menvcfg :: u64
  mcounteren :: u64
  mstimecmp :: u64
  mtime :: u64
  mhartid :: u64
  tp :: u64

definition timerinit :: "mregs \<Rightarrow> mregs" where
  "timerinit r =
     (let r = r\<lparr>mie := mie r OR MIE_STIE\<rparr>;
          r = r\<lparr>menvcfg := menvcfg r OR push_bit 63 1\<rparr>;
          r = r\<lparr>mcounteren := mcounteren r OR 2\<rparr>
      in r\<lparr>mstimecmp := mtime r + 1000000\<rparr>)"

text \<open>\<open>start\<close> ends in \<open>mret\<close>, which goes to \<open>mepc\<close> in the mode \<open>mstatus\<close> names.\<close>

definition start :: "u64 \<Rightarrow> mregs \<Rightarrow> mregs" where
  "start main_addr r =
     (let x = (mstatus r AND NOT MSTATUS_MPP_MASK) OR MSTATUS_MPP_S;
          r = r\<lparr>mstatus := x\<rparr>;
          r = r\<lparr>mepc := main_addr\<rparr>;
          r = r\<lparr>msatp := 0\<rparr>;
          r = r\<lparr>medeleg := 0xffff\<rparr>;
          r = r\<lparr>mideleg := 0xffff\<rparr>;
          r = r\<lparr>sie := sie r OR SIE_SEIE OR SIE_STIE OR SIE_SSIE\<rparr>;
          r = r\<lparr>pmpaddr0 := 0x3fffffffffffff\<rparr>;
          r = r\<lparr>pmpcfg0 := 0xf\<rparr>;
          r = timerinit r
      in r\<lparr>tp := scast (ucast (mhartid r) :: u32)\<rparr>)"

section \<open>Supervisor mode (kernel/main.c)\<close>

record gstate = tstate +
  kernel_pagetable :: u64
  started :: bool

definition kvminit :: "u64 \<Rightarrow> 'a gstate_scheme \<Rightarrow> (unit, 'a gstate_scheme) run" where
  "kvminit etext s = bnd (kvmmake s etext) (\<lambda>pt s. Ret () (s\<lparr>kernel_pagetable := pt\<rparr>))"

definition kvminithart :: "'a gstate_scheme \<Rightarrow> 'a gstate_scheme" where
  "kvminithart s = s\<lparr>satp := MAKE_SATP (kernel_pagetable s)\<rparr>"

text \<open>
  What \<open>main\<close> does before it enters the scheduler. The other CPUs spin until the first one has set
  \<open>started\<close>.
\<close>

definition main_first :: "u64 \<Rightarrow> 'a gstate_scheme \<Rightarrow> (unit, 'a gstate_scheme) run" where
  "main_first etext s =
     bnd (printf [newline] [] (consoleinit s)) (\<lambda>_ s.
     bnd (printf (str ''xv6 kernel is booting'' @ [newline]) [] s) (\<lambda>_ s.
     bnd (printf [newline] [] s) (\<lambda>_ s.
     bnd (kinit s) (\<lambda>_ s.
     bnd (kvminit etext s) (\<lambda>_ s.
     let s = kvminithart s;
         s = procinit s;
         s = trapinithart s;
         s = plicinit s;
         s = plicinithart s;
         s = binit s;
         s = iinit s
     in bnd (virtio_disk_init s) (\<lambda>_ s.
        bnd (userinit s) (\<lambda>_ s.
        Ret () (s\<lparr>started := True\<rparr>))))))))"

definition main_other :: "'a gstate_scheme \<Rightarrow> (unit, 'a gstate_scheme) run" where
  "main_other s =
     (if \<not> started s then Diverge
      else bnd (printf (str ''hart %d starting'' @ [newline]) [VNum (of_nat (hart s))] s) (\<lambda>_ s.
        Ret () (plicinithart (trapinithart (kvminithart s)))))"

definition main :: "u64 \<Rightarrow> 'a gstate_scheme \<Rightarrow> (unit, 'a gstate_scheme) run" where
  "main etext s = (if hart s = 0 then main_first etext s else main_other s)"

end
