(* ===== verification/Pagetable.thy ===== *)
theory Pagetable
  imports Vm
begin

text \<open>
  The page tables of kernel/vm.c as trees. The theory reads a table in memory as a tree of pages
  and as a function from virtual addresses to entries, and shows what the operations of
  kernel/vm.c do to both: \<open>walk\<close> adds table pages and changes no mapping, \<open>mappages\<close> adds exactly
  the mappings asked for, and \<open>copyout\<close> and \<open>copyin\<close> agree on what user memory holds.
\<close>

section \<open>Page tables as trees\<close>

text \<open>
  \<open>pte m pt k\<close> is entry \<open>k\<close> of the table page \<open>pt\<close>. \<open>tabs l m pt\<close> are the pages of the table of
  height \<open>l\<close> at \<open>pt\<close>, \<open>wft\<close> says that they form a tree (no page is used twice), and \<open>leafv\<close> is
  the entry the hardware finds for a virtual address, 0 where a table is missing on the way.
\<close>

definition pte :: "mem \<Rightarrow> u64 \<Rightarrow> u64 \<Rightarrow> u64" where
  "pte m pt k = load64 m (pt + 8 * k)"

definition valid :: "u64 \<Rightarrow> bool" where
  "valid v \<longleftrightarrow> v AND PTE_V \<noteq> 0"

primrec tabs :: "nat \<Rightarrow> mem \<Rightarrow> u64 \<Rightarrow> u64 set" where
  "tabs 0 m pt = {pt}"
| "tabs (Suc l) m pt =
     insert pt (\<Union>k \<in> {k. k < 512 \<and> valid (pte m pt k)}. tabs l m (PTE2PA (pte m pt k)))"

primrec wft :: "nat \<Rightarrow> mem \<Rightarrow> u64 \<Rightarrow> bool" where
  "wft 0 m pt = page_aligned pt"
| "wft (Suc l) m pt =
     (page_aligned pt \<and>
      (\<forall>k < 512. valid (pte m pt k) \<longrightarrow>
         wft l m (PTE2PA (pte m pt k)) \<and> pt \<notin> tabs l m (PTE2PA (pte m pt k))) \<and>
      (\<forall>j < 512. \<forall>k < 512. j \<noteq> k \<longrightarrow> valid (pte m pt j) \<longrightarrow> valid (pte m pt k) \<longrightarrow>
         tabs l m (PTE2PA (pte m pt j)) \<inter> tabs l m (PTE2PA (pte m pt k)) = {}))"

primrec leafv :: "nat \<Rightarrow> mem \<Rightarrow> u64 \<Rightarrow> u64 \<Rightarrow> u64" where
  "leafv 0 m pt va = pte m pt (PX 0 va)"
| "leafv (Suc l) m pt va =
     (let v = pte m pt (PX (Suc l) va) in if valid v then leafv l m (PTE2PA v) va else 0)"

text \<open>The slot \<open>walk\<close> finds without allocating.\<close>

primrec slot :: "nat \<Rightarrow> mem \<Rightarrow> u64 \<Rightarrow> u64 \<Rightarrow> u64 option" where
  "slot 0 m pt va = Some (pte_addr pt 0 va)"
| "slot (Suc l) m pt va =
     (let v = pte m pt (PX (Suc l) va) in if valid v then slot l m (PTE2PA v) va else None)"

lemma valid_0 [simp]: "\<not> valid 0"
  by (simp add: valid_def)

lemma walk_from_lookup: "walk_from l s pt va False = Ret (slot l (phys s) pt va) s"
  by (induction l arbitrary: pt) (simp_all add: Let_def valid_def pte_def pte_addr_def)

lemma leafv_slot: "leafv l m pt va = (case slot l m pt va of None \<Rightarrow> 0 | Some a \<Rightarrow> load64 m a)"
  by (induction l arbitrary: pt) (simp_all add: Let_def pte_def pte_addr_def)

lemma tabs_self [simp]: "pt \<in> tabs l m pt"
  by (cases l) auto

lemma wft_aligned: "wft l m pt \<Longrightarrow> page_aligned pt"
  by (cases l) auto

lemma index_bound: "k < 512 \<Longrightarrow> 8 * k + 7 < 4096 \<and> 8 * k \<le> 8 * k + 7" for k :: u64
  by (simp add: word_less_nat_alt word_le_nat_alt unat_word_ariths)

lemma pte_page_cong:
  assumes "\<And>a. PGROUNDDOWN a = pt \<Longrightarrow> m' a = m a" "page_aligned pt" "k < 512"
  shows "pte m' pt k = pte m pt k"
  using load64_same_page [of pt m' m "8 * k"] assms index_bound [of k] by (simp add: pte_def)

text \<open>Writes outside the pages of a table do not change the table.\<close>

lemma tabs_frame:
  assumes "wft l m pt" "\<And>a. PGROUNDDOWN a \<in> tabs l m pt \<Longrightarrow> m' a = m a"
  shows "tabs l m' pt = tabs l m pt \<and> wft l m' pt \<and> (\<forall>va. leafv l m' pt va = leafv l m pt va)
    \<and> (\<forall>va. slot l m' pt va = slot l m pt va)"
  using assms
proof (induction l arbitrary: pt)
  case 0
  then have "pte m' pt (PX 0 va) = pte m pt (PX 0 va)" for va
    by (intro pte_page_cong) (auto simp: PX_less)
  with 0 show ?case by simp
next
  case (Suc l)
  have e: "pte m' pt k = pte m pt k" if "k < 512" for k
    using Suc.prems that by (intro pte_page_cong) auto
  have c: "tabs l m' c = tabs l m c \<and> wft l m' c \<and> (\<forall>va. leafv l m' c va = leafv l m c va)
      \<and> (\<forall>va. slot l m' c va = slot l m c va)"
    if "k < 512" "valid (pte m pt k)" "c = PTE2PA (pte m pt k)" for k c
    using Suc.prems that by (intro Suc.IH) auto
  have t: "tabs (Suc l) m' pt = tabs (Suc l) m pt"
    using c e by auto
  have "wft (Suc l) m' pt"
    using Suc.prems(1) c e by simp
  with t show ?case using c e by (simp add: PX_less Let_def)
qed

lemma unat_pte_addr:
  assumes "page_aligned pt" "k < 512"
  shows "unat (pt + 8 * k) = unat pt + 8 * unat k"
proof -
  obtain q where q: "unat pt = 4096 * q"
    using assms(1) by (auto simp: page_aligned_unat mod_eq_0_iff_dvd elim!: dvdE)
  have "unat pt < 4096 * 4503599627370496" using unsigned_less [of pt] by simp
  then have "q < 4503599627370496" unfolding q by simp
  then have "unat pt + 8 * unat k < 2 ^ 64" using q assms(2) by (simp add: word_less_nat_alt)
  moreover have "unat (8 * k) = 8 * unat k"
    using assms(2) by (simp add: word_less_nat_alt unat_word_ariths)
  ultimately show ?thesis by (simp add: unat_word_ariths)
qed

lemma aligned8_pte: "page_aligned pt \<Longrightarrow> k < 512 \<Longrightarrow> aligned8 (pt + 8 * k)"
  using aligned8_page [of pt] by (simp add: aligned8_def unat_pte_addr)

lemma pte_store_same:
  assumes "page_aligned pt" "j < 512" "k < 512"
  shows "pte (store64 m (pt + 8 * j) v) pt k = (if j = k then v else pte m pt k)"
proof -
  have "pt + 8 * j = pt + 8 * k \<longleftrightarrow> j = k"
  proof
    assume "pt + 8 * j = pt + 8 * k"
    then have "unat (pt + 8 * j) = unat (pt + 8 * k)" by simp
    then show "j = k" using assms by (simp add: unat_pte_addr word_unat_eq_iff)
  qed simp
  then show ?thesis
    using assms by (simp add: pte_def load64_store64 aligned8_pte)
qed

lemma store_pte_frame: "page_aligned pt \<Longrightarrow> j < 512 \<Longrightarrow> PGROUNDDOWN a \<noteq> pt \<Longrightarrow> store64 m (pt + 8 * j) v a = m a"
  using store64_page [of pt "8 * j" a m v] index_bound [of j] by simp

text \<open>Replacing one child of a table, with writes that stay clear of the other children.\<close>

lemma wft_child:
  assumes wf: "wft (Suc l) m pt" and k0: "k0 < 512"
    and other: "\<And>k. k < 512 \<Longrightarrow> k \<noteq> k0 \<Longrightarrow> pte m' pt k = pte m pt k"
    and new: "valid (pte m' pt k0)" "c = PTE2PA (pte m' pt k0)" "wft l m' c" "pt \<notin> tabs l m' c"
    and keep: "\<And>k a. k < 512 \<Longrightarrow> k \<noteq> k0 \<Longrightarrow> valid (pte m pt k) \<Longrightarrow>
        PGROUNDDOWN a \<in> tabs l m (PTE2PA (pte m pt k)) \<Longrightarrow> m' a = m a"
    and disj: "\<And>k. k < 512 \<Longrightarrow> k \<noteq> k0 \<Longrightarrow> valid (pte m pt k) \<Longrightarrow>
        tabs l m' c \<inter> tabs l m (PTE2PA (pte m pt k)) = {}"
  shows "wft (Suc l) m' pt"
    and "tabs (Suc l) m' pt = insert pt (tabs l m' c \<union>
      (\<Union>k \<in> {k. k < 512 \<and> k \<noteq> k0 \<and> valid (pte m pt k)}. tabs l m (PTE2PA (pte m pt k))))"
    and "leafv (Suc l) m' pt va = (if PX (Suc l) va = k0 then leafv l m' c va else leafv (Suc l) m pt va)"
proof -
  have f: "tabs l m' d = tabs l m d \<and> wft l m' d \<and> (\<forall>va. leafv l m' d va = leafv l m d va) \<and>
      (\<forall>va. slot l m' d va = slot l m d va)"
    if "k < 512" "k \<noteq> k0" "valid (pte m pt k)" "d = PTE2PA (pte m pt k)" for k d
    using wf that keep by (intro tabs_frame) auto
  have ds: "tabs l m' (PTE2PA (pte m' pt j)) \<inter> tabs l m' (PTE2PA (pte m' pt k)) = {}"
    if "j < 512" "k < 512" "j \<noteq> k" "valid (pte m' pt j)" "valid (pte m' pt k)" for j k
  proof (cases "j = k0 \<or> k = k0")
    case True
    then show ?thesis using that disj [of j] disj [of k] f other new(2) by fastforce
  next
    case False
    with that other have "valid (pte m pt j)" "valid (pte m pt k)" by auto
    with False that wf f other show ?thesis by simp
  qed
  have ws: "wft l m' (PTE2PA (pte m' pt k)) \<and> pt \<notin> tabs l m' (PTE2PA (pte m' pt k))"
    if "k < 512" "valid (pte m' pt k)" for k
    using that wf f [of k] other new by (cases "k = k0") auto
  show "wft (Suc l) m' pt" using ds ws wf by simp
  have "{k. k < 512 \<and> valid (pte m' pt k)} = insert k0 {k. k < 512 \<and> k \<noteq> k0 \<and> valid (pte m pt k)}"
    using new(1) k0 other by auto
  then show "tabs (Suc l) m' pt = insert pt (tabs l m' c \<union>
      (\<Union>k \<in> {k. k < 512 \<and> k \<noteq> k0 \<and> valid (pte m pt k)}. tabs l m (PTE2PA (pte m pt k))))"
    using f other new(2) by simp
  show "leafv (Suc l) m' pt va = (if PX (Suc l) va = k0 then leafv l m' c va else leafv (Suc l) m pt va)"
    using new(1,2) other [of "PX (Suc l) va"] f [of "PX (Suc l) va"]
    by (auto simp: Let_def PX_less)
qed

lemma pte_zero_page:
  assumes "\<And>a. PGROUNDDOWN a = p \<Longrightarrow> m a = 0" "page_aligned p" "k < 512"
  shows "pte m p k = 0"
proof -
  have "pte m p k = pte (\<lambda>_. 0) p k"
    using assms by (intro pte_page_cong) auto
  then show ?thesis by (simp add: pte_def load64_def)
qed

lemma zero_page:
  assumes "\<And>a. PGROUNDDOWN a = p \<Longrightarrow> m a = 0" "page_aligned p"
  shows "tabs l m p = {p}" "wft l m p" "leafv l m p va = 0"
  using pte_zero_page [OF assms] assms(2) by (cases l; simp add: PX_less)+

lemma pool_pte: "in_pool s p \<Longrightarrow> f < 2 ^ 10 \<Longrightarrow> PTE2PA (PA2PTE p OR f) = p"
proof -
  assume "in_pool s p" and f: "f < 2 ^ 10"
  then have "page_aligned p" "p < PHYSTOP" by (auto simp: in_pool_def)
  moreover then have "p < 2 ^ 56" by (auto simp: params intro: order_less_trans)
  ultimately show ?thesis using f by (intro PTE2PA_PA2PTE)
qed

lemma PTE_V_bound: "PTE_V < 2 ^ 10"
  by (simp add: params)

lemma valid_or: "valid (v OR PTE_V)"
  unfolding valid_def
proof
  assume "(v OR PTE_V) AND PTE_V = 0"
  then have "\<not> bit ((v OR PTE_V) AND PTE_V) 0" by simp
  then show False by (simp add: params bit_simps)
qed

definition walk_post :: "nat \<Rightarrow> u64 \<Rightarrow> u64 \<Rightarrow> 'a kmem_scheme \<Rightarrow> u64 list \<Rightarrow> u64 option \<Rightarrow> 'a kmem_scheme \<Rightarrow> bool" where
  "walk_post l pt va s ps r t \<longleftrightarrow> (\<exists>us qs. ps = us @ qs \<and> free_pages t qs \<and> in_pool t = in_pool s \<and>
     wft l (phys t) pt \<and> tabs l (phys t) pt = tabs l (phys s) pt \<union> set us \<and>
     (\<forall>vb. leafv l (phys t) pt vb = leafv l (phys s) pt vb) \<and>
     (\<forall>a. PGROUNDDOWN a \<notin> tabs l (phys s) pt \<union> set us \<longrightarrow> phys t a = phys s a) \<and>
     (case r of None \<Rightarrow> qs = [] | Some a \<Rightarrow> slot l (phys t) pt va = Some a))"

lemma walk_post_descend:
  assumes wf: "wft (Suc l) (phys s) pt" and v: "valid (pte (phys s) pt (PX (Suc l) va))"
    and c: "c = PTE2PA (pte (phys s) pt (PX (Suc l) va))"
    and d: "tabs (Suc l) (phys s) pt \<inter> set ps = {}"
    and post: "walk_post l c va s ps r t"
  shows "walk_post (Suc l) pt va s ps r t"
proof -
  let ?k = "PX (Suc l) va"
  have k: "?k < 512" by (rule PX_less)
  obtain us qs where u: "ps = us @ qs" "free_pages t qs" "in_pool t = in_pool s" "wft l (phys t) c"
      "tabs l (phys t) c = tabs l (phys s) c \<union> set us"
      "\<And>vb. leafv l (phys t) c vb = leafv l (phys s) c vb"
      "\<And>a. PGROUNDDOWN a \<notin> tabs l (phys s) c \<union> set us \<Longrightarrow> phys t a = phys s a"
      "case r of None \<Rightarrow> qs = [] | Some a \<Rightarrow> slot l (phys t) c va = Some a"
    using post unfolding walk_post_def by blast
  have ptc: "pt \<notin> tabs l (phys s) c" "pt \<notin> set us" "page_aligned pt"
    using wf v k c d u(1) by auto
  have e: "pte (phys t) pt j = pte (phys s) pt j" if "j < 512" for j
    using that ptc u(7) by (intro pte_page_cong) auto
  have sub: "tabs l (phys s) (PTE2PA (pte (phys s) pt j)) \<inter> set us = {}"
    if "j < 512" "valid (pte (phys s) pt j)" for j
    using that d u(1) by auto
  have dj: "tabs l (phys s) c \<inter> tabs l (phys s) (PTE2PA (pte (phys s) pt j)) = {}"
    if "j < 512" "j \<noteq> ?k" "valid (pte (phys s) pt j)" for j
    using wf v k c that by auto
  note W = wft_child [OF wf k, of "phys t" c]
  have *: "wft (Suc l) (phys t) pt"
     "tabs (Suc l) (phys t) pt = insert pt (tabs l (phys t) c \<union>
      (\<Union>j \<in> {j. j < 512 \<and> j \<noteq> ?k \<and> valid (pte (phys s) pt j)}. tabs l (phys s) (PTE2PA (pte (phys s) pt j))))"
     "leafv (Suc l) (phys t) pt vb = (if PX (Suc l) vb = ?k then leafv l (phys t) c vb else leafv (Suc l) (phys s) pt vb)" for vb
    by (rule W; use e v c k u(4,5,7) ptc sub dj in \<open>fastforce\<close>)+
  have "{j. j < 512 \<and> valid (pte (phys s) pt j)} = insert ?k {j. j < 512 \<and> j \<noteq> ?k \<and> valid (pte (phys s) pt j)}"
    using v k by auto
  then have ts: "tabs (Suc l) (phys s) pt = insert pt (tabs l (phys s) c \<union>
      (\<Union>j \<in> {j. j < 512 \<and> j \<noteq> ?k \<and> valid (pte (phys s) pt j)}. tabs l (phys s) (PTE2PA (pte (phys s) pt j))))"
    using c by simp
  have "tabs (Suc l) (phys t) pt = tabs (Suc l) (phys s) pt \<union> set us"
    unfolding *(2) ts u(5) by blast
  moreover have "leafv (Suc l) (phys t) pt vb = leafv (Suc l) (phys s) pt vb" for vb
    using *(3) [of vb] u(6) [of vb] v c by (auto simp: Let_def)
  moreover have "phys t a = phys s a" if "PGROUNDDOWN a \<notin> tabs (Suc l) (phys s) pt \<union> set us" for a
    using that u(7) [of a] ts by auto
  moreover have "slot (Suc l) (phys t) pt va = slot l (phys t) c va"
    using e [OF k] v c by simp
  ultimately show ?thesis using u(1-3,8) *(1) unfolding walk_post_def by metis
qed

text \<open>Hanging a fresh, zeroed page into an empty entry.\<close>

lemma hang_page:
  assumes wf: "wft (Suc l) m pt" and k: "k < 512" and nv: "\<not> valid (pte m pt k)"
    and p: "page_aligned p" "p \<notin> tabs (Suc l) m pt" "PTE2PA v = p" "valid v"
    and m': "m' = store64 (memset m1 p 0 (ucast PGSIZE)) (pt + 8 * k) v"
    and m1: "\<And>a. PGROUNDDOWN a \<noteq> p \<Longrightarrow> m1 a = m a"
  shows "wft (Suc l) m' pt" and "tabs (Suc l) m' pt = insert p (tabs (Suc l) m pt)"
    and "leafv (Suc l) m' pt vb = leafv (Suc l) m pt vb" and "pte m' pt k = v"
    and "PGROUNDDOWN a \<notin> insert p (tabs (Suc l) m pt) \<Longrightarrow> m' a = m a"
proof -
  have pt: "page_aligned pt" "pt \<noteq> p" using wf p(2) by auto
  have out: "m' a = m a" if "PGROUNDDOWN a \<noteq> pt" "PGROUNDDOWN a \<noteq> p" for a
    using that pt(1) k p(1) m1 by (simp add: m' store_pte_frame memset_page)
  then show "PGROUNDDOWN a \<notin> insert p (tabs (Suc l) m pt) \<Longrightarrow> m' a = m a" by auto
  have zero: "m' a = 0" if "PGROUNDDOWN a = p" for a
    using that pt k p(1) by (simp add: m' store_pte_frame memset_page)
  have e: "pte m' pt j = (if k = j then v else pte m pt j)" if "j < 512" for j
  proof -
    have "pte (memset m1 p 0 (ucast PGSIZE)) pt j = pte m pt j"
      using pt that p(1) m1 by (intro pte_page_cong) (auto simp: memset_page)
    then show ?thesis using pte_store_same [OF pt(1) k that] by (simp add: m')
  qed
  show ek: "pte m' pt k = v" using e [OF k] by simp
  note z = zero_page [of p m', OF zero p(1)]
  have other: "\<And>j. j < 512 \<Longrightarrow> j \<noteq> k \<Longrightarrow> pte m' pt j = pte m pt j"
    using e by auto
  have new: "valid (pte m' pt k)" "p = PTE2PA (pte m' pt k)" "wft l m' p" "pt \<notin> tabs l m' p"
    using ek p(3,4) z pt(2) by simp_all
  have child: "pt \<notin> tabs l m (PTE2PA (pte m pt j))" "p \<notin> tabs l m (PTE2PA (pte m pt j))"
    if "j < 512" "valid (pte m pt j)" for j
    using wf p(2) that by auto
  have keep: "\<And>j a. j < 512 \<Longrightarrow> j \<noteq> k \<Longrightarrow> valid (pte m pt j) \<Longrightarrow>
      PGROUNDDOWN a \<in> tabs l m (PTE2PA (pte m pt j)) \<Longrightarrow> m' a = m a"
    using child out by metis
  have disj: "\<And>j. j < 512 \<Longrightarrow> j \<noteq> k \<Longrightarrow> valid (pte m pt j) \<Longrightarrow>
      tabs l m' p \<inter> tabs l m (PTE2PA (pte m pt j)) = {}"
    using child z(1) by simp
  note W = wft_child [OF wf k, of m' p]
  have *: "wft (Suc l) m' pt"
     "tabs (Suc l) m' pt = insert pt (tabs l m' p \<union>
      (\<Union>j \<in> {j. j < 512 \<and> j \<noteq> k \<and> valid (pte m pt j)}. tabs l m (PTE2PA (pte m pt j))))"
     "leafv (Suc l) m' pt vb = (if PX (Suc l) vb = k then leafv l m' p vb else leafv (Suc l) m pt vb)" for vb
    by (rule W; use other new keep disj in blast)+
  show "wft (Suc l) m' pt" by (rule *)
  have "{j. j < 512 \<and> j \<noteq> k \<and> valid (pte m pt j)} = {j. j < 512 \<and> valid (pte m pt j)}"
    using nv by auto
  with *(2) z show "tabs (Suc l) m' pt = insert p (tabs (Suc l) m pt)" by auto
  show "leafv (Suc l) m' pt vb = leafv (Suc l) m pt vb"
    using *(3) [of vb] z nv by (auto simp: Let_def)
qed

lemma walk_from_alloc:
  assumes "wft l (phys s) pt" "free_pages s ps" "tabs l (phys s) pt \<inter> set ps = {}"
  shows "returns (walk_from l s pt va True) (walk_post l pt va s ps)"
  using assms
proof (induction l arbitrary: s pt ps)
  case 0
  then have "walk_post 0 pt va s ps (Some (pte_addr pt 0 va)) s"
    unfolding walk_post_def by (intro exI [of _ "[]"] exI [of _ ps]) simp
  then show ?case by simp
next
  case (Suc l)
  let ?k = "PX (Suc l) va"
  have addr: "pte_addr pt (Suc l) va = pt + 8 * ?k" by (simp add: pte_addr_def)
  have k: "?k < 512" by (rule PX_less)
  show ?case
  proof (cases "valid (pte (phys s) pt ?k)")
    case True
    let ?c = "PTE2PA (pte (phys s) pt ?k)"
    have "returns (walk_from l s ?c va True) (walk_post l ?c va s ps)"
      using Suc.prems True k by (intro Suc.IH) auto
    then have "returns (walk_from l s ?c va True) (walk_post (Suc l) pt va s ps)"
      by (rule returns_mono) (rule walk_post_descend [OF Suc.prems(1) True refl Suc.prems(3)])
    then show ?thesis using True by (simp add: addr Let_def valid_def pte_def)
  next
    case False
    then have nv: "load64 (phys s) (pt + 8 * ?k) AND PTE_V = 0" by (simp add: valid_def pte_def)
    show ?thesis
    proof (cases ps)
      case Nil
      with Suc.prems have "kalloc s = Ret 0 s" by (simp add: kmem.alloc_empty)
      with nv Nil Suc.prems show ?thesis by (auto simp: addr Let_def walk_post_def)
    next
      case (Cons p qs)
      obtain s1 where s1: "kalloc s = Ret p s1" "free_pages s1 qs" "p \<notin> set qs" "in_pool s p"
          "in_pool s1 = in_pool s" "\<And>a. PGROUNDDOWN a \<noteq> p \<Longrightarrow> phys s1 a = phys s a"
        using kmem.alloc_page [of s p qs] Suc.prems(2) Cons by blast
      let ?v = "PA2PTE p OR PTE_V"
      let ?m = "store64 (memset (phys s1) p 0 (ucast PGSIZE)) (pt + 8 * ?k) ?v"
      let ?s2 = "s1\<lparr>phys := ?m\<rparr>"
      have p: "page_aligned p" "p \<noteq> 0" "p \<notin> tabs (Suc l) (phys s) pt" "PTE2PA ?v = p" "valid ?v"
        using s1(4) Suc.prems(3) Cons pool_pte [OF s1(4) PTE_V_bound]
        by (auto simp: in_pool_def valid_or)
      note H = hang_page [OF Suc.prems(1) k False p(1,3-5) refl s1(6)]
      have pt: "page_aligned pt" "pt \<notin> set qs" "pt \<noteq> p"
        using Suc.prems(1,3) Cons by auto
      have out: "?m a = phys s1 a" if "PGROUNDDOWN a \<in> set qs" for a
      proof -
        have "PGROUNDDOWN a \<noteq> pt" "PGROUNDDOWN a \<noteq> p" using that pt s1(3) by auto
        then show ?thesis using p(1) by (simp add: store_pte_frame [OF pt(1) k] memset_page)
      qed
      have pool: "in_pool ?s2 = in_pool s" using s1(5) by (auto simp: in_pool_def fun_eq_iff)
      have fr: "free_pages ?s2 qs"
        using free_pages_mem [OF s1(2) out] .
      have zero: "?m a = 0" if "PGROUNDDOWN a = p" for a
        using that pt p(1) by (simp add: store_pte_frame [OF pt(1) k] memset_page)
      note z = zero_page [of p ?m, OF zero p(1)]
      have dd: "tabs (Suc l) (phys ?s2) pt \<inter> set qs = {}"
        using H(2) Suc.prems(3) Cons s1(3) by auto
      have "returns (walk_from l ?s2 p va True) (walk_post l p va ?s2 qs)"
        using z fr s1(3) by (intro Suc.IH) auto
      then have "returns (walk_from l ?s2 p va True) (walk_post (Suc l) pt va ?s2 qs)"
        by (rule returns_mono) (rule walk_post_descend; use H p dd in simp)
      then have "returns (walk_from l ?s2 p va True) (walk_post (Suc l) pt va s ps)"
      proof (rule returns_mono)
        fix r t assume "walk_post (Suc l) pt va ?s2 qs r t"
        then obtain us qs' where u: "qs = us @ qs'" "free_pages t qs'" "in_pool t = in_pool s"
            "wft (Suc l) (phys t) pt" "tabs (Suc l) (phys t) pt = tabs (Suc l) ?m pt \<union> set us"
            "\<And>vb. leafv (Suc l) (phys t) pt vb = leafv (Suc l) ?m pt vb"
            "\<And>a. PGROUNDDOWN a \<notin> tabs (Suc l) ?m pt \<union> set us \<Longrightarrow> phys t a = ?m a"
            "case r of None \<Rightarrow> qs' = [] | Some a \<Rightarrow> slot (Suc l) (phys t) pt va = Some a"
          unfolding walk_post_def using pool by (auto simp del: tabs.simps wft.simps leafv.simps slot.simps)
        show "walk_post (Suc l) pt va s ps r t"
          unfolding walk_post_def
          by (rule exI [of _ "p # us"], rule exI [of _ qs'])
            (use u H Cons in \<open>auto simp del: tabs.simps wft.simps leafv.simps slot.simps\<close>)
      qed
      then show ?thesis using nv s1(1) p(2) by (simp add: addr Let_def)
    qed
  qed
qed

section \<open>Writing an entry\<close>

definition same_slot :: "nat \<Rightarrow> u64 \<Rightarrow> u64 \<Rightarrow> bool" where
  "same_slot l va vb \<longleftrightarrow> (\<forall>i \<le> l. PX i va = PX i vb)"

lemma same_slot_Suc: "same_slot (Suc l) va vb \<longleftrightarrow> PX (Suc l) va = PX (Suc l) vb \<and> same_slot l va vb"
  by (auto simp: same_slot_def le_Suc_eq)

lemma leaf_store:
  assumes "wft l m pt" "slot l m pt va = Some a" "m' = store64 m a v"
  shows "wft l m' pt \<and> tabs l m' pt = tabs l m pt \<and>
    (\<forall>vb. leafv l m' pt vb = (if same_slot l va vb then v else leafv l m pt vb)) \<and>
    (\<forall>x. PGROUNDDOWN x \<notin> tabs l m pt \<longrightarrow> m' x = m x)"
  using assms(1,2)
proof (induction l arbitrary: pt)
  case 0
  then have "a = pt + 8 * PX 0 va" "page_aligned pt" by (simp_all add: pte_addr_def)
  then show ?case
    using assms(3) by (auto simp: pte_store_same PX_less same_slot_def store_pte_frame)
next
  case (Suc l)
  let ?k = "PX (Suc l) va" and ?c = "PTE2PA (pte m pt (PX (Suc l) va))"
  have k: "?k < 512" by (rule PX_less)
  have v: "valid (pte m pt ?k)" and sl: "slot l m ?c va = Some a"
    using Suc.prems(2) by (auto simp: Let_def split: if_splits)
  have wc: "wft l m ?c" "pt \<notin> tabs l m ?c" "page_aligned pt"
    using Suc.prems(1) v k by auto
  note IH = Suc.IH [OF wc(1) sl]
  have out: "m' x = m x" if "PGROUNDDOWN x \<notin> tabs l m ?c" for x using IH that by blast
  have e: "pte m' pt j = pte m pt j" if "j < 512" for j
    using that wc out by (intro pte_page_cong) auto
  have dj: "tabs l m ?c \<inter> tabs l m (PTE2PA (pte m pt j)) = {}"
    if "j < 512" "j \<noteq> ?k" "valid (pte m pt j)" for j
    using Suc.prems(1) v k that by auto
  have keep: "\<And>j x. j < 512 \<Longrightarrow> j \<noteq> ?k \<Longrightarrow> valid (pte m pt j) \<Longrightarrow>
      PGROUNDDOWN x \<in> tabs l m (PTE2PA (pte m pt j)) \<Longrightarrow> m' x = m x"
    using dj out by blast
  have new: "valid (pte m' pt ?k)" "?c = PTE2PA (pte m' pt ?k)" "wft l m' ?c" "pt \<notin> tabs l m' ?c"
    using e [OF k] v IH wc by simp_all
  have disj: "\<And>j. j < 512 \<Longrightarrow> j \<noteq> ?k \<Longrightarrow> valid (pte m pt j) \<Longrightarrow>
      tabs l m' ?c \<inter> tabs l m (PTE2PA (pte m pt j)) = {}"
    using dj IH by simp
  have "{j. j < 512 \<and> valid (pte m pt j)} = insert ?k {j. j < 512 \<and> j \<noteq> ?k \<and> valid (pte m pt j)}"
    using v k by auto
  then have ts: "tabs (Suc l) m pt = insert pt (tabs l m ?c \<union>
      (\<Union>j \<in> {j. j < 512 \<and> j \<noteq> ?k \<and> valid (pte m pt j)}. tabs l m (PTE2PA (pte m pt j))))"
    by simp
  have "wft (Suc l) m' pt"
    by (rule wft_child(1) [OF Suc.prems(1) k _ new]) (use e keep disj in blast)+
  moreover have "tabs (Suc l) m' pt = tabs (Suc l) m pt"
  proof -
    have "tabs (Suc l) m' pt = insert pt (tabs l m' ?c \<union>
      (\<Union>j \<in> {j. j < 512 \<and> j \<noteq> ?k \<and> valid (pte m pt j)}. tabs l m (PTE2PA (pte m pt j))))"
      by (rule wft_child(2) [OF Suc.prems(1) k _ new]) (use e keep disj in blast)+
    then show ?thesis using ts IH by simp
  qed
  moreover have "leafv (Suc l) m' pt vb = (if same_slot (Suc l) va vb then v else leafv (Suc l) m pt vb)" for vb
  proof -
    have "leafv (Suc l) m' pt vb = (if PX (Suc l) vb = ?k then leafv l m' ?c vb else leafv (Suc l) m pt vb)"
      by (rule wft_child(3) [OF Suc.prems(1) k _ new]) (use e keep disj in blast)+
    then show ?thesis using IH v by (auto simp: same_slot_Suc Let_def)
  qed
  moreover have "\<forall>x. PGROUNDDOWN x \<notin> tabs (Suc l) m pt \<longrightarrow> m' x = m x"
    using out ts by auto
  ultimately show ?case by blast
qed

lemma PX_PGROUNDDOWN: "PX l (PGROUNDDOWN v) = PX l v"
proof -
  have "n div 4096 * 4096 div 2 ^ (12 + 9 * l) = n div 2 ^ (12 + 9 * l)" for n :: nat
    by (simp add: power_add div_mult2_eq)
  then have "unat (PX l (PGROUNDDOWN v)) = unat (PX l v)"
    by (simp add: unat_PX PXSHIFT_def unat_PGROUNDDOWN)
  then show ?thesis by (simp add: word_unat_eq_iff)
qed

lemma same_slot_page:
  assumes "va < MAXVA" "vb < MAXVA" "page_aligned va"
  shows "same_slot 2 va vb \<longleftrightarrow> PGROUNDDOWN vb = va"
proof
  assume "PGROUNDDOWN vb = va"
  then show "same_slot 2 va vb" using PX_PGROUNDDOWN by (auto simp: same_slot_def)
next
  assume *: "same_slot 2 va vb"
  have "PGROUNDDOWN vb < MAXVA" using PGROUNDDOWN_le assms(2) by (rule order_le_less_trans)
  moreover have "PX i (PGROUNDDOWN vb) = PX i va" if "i \<le> 2" for i
    using * that by (simp add: same_slot_def PX_PGROUNDDOWN)
  ultimately show "PGROUNDDOWN vb = va"
    using PX_inj_page [of "PGROUNDDOWN vb" va] assms by simp
qed

text \<open>\<open>in_pages va n vb\<close>: \<open>vb\<close> lies in the \<open>n\<close> pages from \<open>va\<close> on.\<close>

definition in_pages :: "u64 \<Rightarrow> nat \<Rightarrow> u64 \<Rightarrow> bool" where
  "in_pages va n vb \<longleftrightarrow> unat va \<le> unat vb \<and> unat vb < unat va + n * 4096"

lemma nth_page:
  assumes "page_aligned va" "unat va + n * 4096 \<le> 2 ^ 38" "j < n"
  shows "unat (va + of_nat j * PGSIZE) = unat va + j * 4096"
    and "va + of_nat j * PGSIZE < MAXVA" and "page_aligned (va + of_nat j * PGSIZE)"
proof -
  have j: "unat va + j * 4096 < 2 ^ 38" using assms(2,3) by simp
  then have m: "unat (of_nat j * PGSIZE) = j * 4096"
    by (simp add: params unat_word_ariths unsigned_of_nat take_bit_eq_mod)
  then show u: "unat (va + of_nat j * PGSIZE) = unat va + j * 4096"
    using j by (simp add: unat_word_ariths)
  then show "va + of_nat j * PGSIZE < MAXVA" using j by (simp add: word_less_nat_alt params)
  show "page_aligned (va + of_nat j * PGSIZE)"
    using assms(1) by (simp add: page_aligned_unat u)
qed

lemma in_pages_Suc:
  assumes "page_aligned va" "unat va + n * 4096 \<le> 2 ^ 38" "j < n"
  shows "in_pages va (Suc j) vb \<longleftrightarrow> in_pages va j vb \<or> PGROUNDDOWN vb = va + of_nat j * PGSIZE"
proof -
  obtain q where q: "unat va = 4096 * q"
    using assms(1) by (auto simp: page_aligned_unat mod_eq_0_iff_dvd elim!: dvdE)
  define w r where "w = unat vb div 4096" and "r = unat vb mod 4096"
  have vb: "unat vb = 4096 * w + r" "r < 4096" by (simp_all add: w_def r_def)
  have "PGROUNDDOWN vb = va + of_nat j * PGSIZE \<longleftrightarrow> w = q + j"
    using nth_page(1) [OF assms] by (simp add: word_unat_eq_iff unat_PGROUNDDOWN q flip: w_def) arith
  then show ?thesis unfolding in_pages_def vb(1) q using vb(2) by auto
qed

lemma in_pages_0 [simp]: "\<not> in_pages va 0 vb"
  by (simp add: in_pages_def)

section \<open>What \<open>mappages\<close> does\<close>

definition map_post :: "u64 \<Rightarrow> u64 \<Rightarrow> u64 \<Rightarrow> u64 \<Rightarrow> 'a kmem_scheme \<Rightarrow> u64 list \<Rightarrow> nat \<Rightarrow> u64 list \<Rightarrow> 'a kmem_scheme \<Rightarrow> bool" where
  "map_post pt va pa perm s ps j qs t \<longleftrightarrow> (\<exists>us. ps = us @ qs \<and> free_pages t qs \<and> in_pool t = in_pool s \<and>
     wft 2 (phys t) pt \<and> tabs 2 (phys t) pt = tabs 2 (phys s) pt \<union> set us \<and>
     (\<forall>vb < MAXVA. leafv 2 (phys t) pt vb =
        (if in_pages va j vb then PA2PTE (pa + (PGROUNDDOWN vb - va)) OR perm OR PTE_V
         else leafv 2 (phys s) pt vb)) \<and>
     (\<forall>a. PGROUNDDOWN a \<notin> tabs 2 (phys s) pt \<union> set us \<longrightarrow> phys t a = phys s a))"

lemma map_post_walk:
  assumes "map_post pt va pa perm s ps j qs t" "set ps \<inter> tabs 2 (phys s) pt = {}" "a < MAXVA" "distinct ps"
  shows "returns (walk t pt a True) (\<lambda>r u. \<exists>qs'. map_post pt va pa perm s ps j qs' u \<and>
      (case r of None \<Rightarrow> qs' = [] | Some x \<Rightarrow> slot 2 (phys u) pt a = Some x))"
proof -
  obtain us where u: "ps = us @ qs" "free_pages t qs" "in_pool t = in_pool s" "wft 2 (phys t) pt"
      "tabs 2 (phys t) pt = tabs 2 (phys s) pt \<union> set us"
      "\<forall>vb < MAXVA. leafv 2 (phys t) pt vb =
        (if in_pages va j vb then PA2PTE (pa + (PGROUNDDOWN vb - va)) OR perm OR PTE_V
         else leafv 2 (phys s) pt vb)"
      "\<forall>a. PGROUNDDOWN a \<notin> tabs 2 (phys s) pt \<union> set us \<longrightarrow> phys t a = phys s a"
    using assms(1) unfolding map_post_def by blast
  have "tabs 2 (phys t) pt \<inter> set qs = {}" using u(1,5) assms(2,4) by auto
  note w = walk_from_alloc [OF u(4,2) this, of a]
  have "returns (walk_from 2 t pt a True) (\<lambda>r u. \<exists>qs'. map_post pt va pa perm s ps j qs' u \<and>
      (case r of None \<Rightarrow> qs' = [] | Some x \<Rightarrow> slot 2 (phys u) pt a = Some x))"
  proof (rule returns_mono [OF w])
    fix r u assume "walk_post 2 pt a t qs r u"
    then obtain vs qs' where v: "qs = vs @ qs'" "free_pages u qs'" "in_pool u = in_pool t" "wft 2 (phys u) pt"
        "tabs 2 (phys u) pt = tabs 2 (phys t) pt \<union> set vs"
        "\<forall>vb. leafv 2 (phys u) pt vb = leafv 2 (phys t) pt vb"
        "\<forall>a. PGROUNDDOWN a \<notin> tabs 2 (phys t) pt \<union> set vs \<longrightarrow> phys u a = phys t a"
        "case r of None \<Rightarrow> qs' = [] | Some x \<Rightarrow> slot 2 (phys u) pt a = Some x"
      unfolding walk_post_def by blast
    have "map_post pt va pa perm s ps j qs' u"
      unfolding map_post_def by (rule exI [of _ "us @ vs"]) (use u v in auto)
    with v(8) show "\<exists>qs'. map_post pt va pa perm s ps j qs' u \<and>
        (case r of None \<Rightarrow> qs' = [] | Some x \<Rightarrow> slot 2 (phys u) pt a = Some x)" by blast
  qed
  then show ?thesis using assms(3) by (simp add: walk_def)
qed

lemma map_post_store:
  assumes mp: "map_post pt va pa perm s ps j qs u" and d: "set ps \<inter> tabs 2 (phys s) pt = {}" "distinct ps"
    and r: "page_aligned va" "unat va + n * 4096 \<le> 2 ^ 38" "j < n"
    and a: "a = va + of_nat j * PGSIZE" and sl: "slot 2 (phys u) pt a = Some x"
    and t: "t = u\<lparr>phys := store64 (phys u) x (PA2PTE (pa + of_nat j * PGSIZE) OR perm OR PTE_V)\<rparr>"
  shows "map_post pt va pa perm s ps (Suc j) qs t"
proof -
  obtain us where u: "ps = us @ qs" "free_pages u qs" "in_pool u = in_pool s" "wft 2 (phys u) pt"
      "tabs 2 (phys u) pt = tabs 2 (phys s) pt \<union> set us"
      "\<forall>vb < MAXVA. leafv 2 (phys u) pt vb =
        (if in_pages va j vb then PA2PTE (pa + (PGROUNDDOWN vb - va)) OR perm OR PTE_V
         else leafv 2 (phys s) pt vb)"
      "\<forall>a. PGROUNDDOWN a \<notin> tabs 2 (phys s) pt \<union> set us \<longrightarrow> phys u a = phys s a"
    using mp unfolding map_post_def by blast
  note L = leaf_store [OF u(4) sl refl, of "PA2PTE (pa + of_nat j * PGSIZE) OR perm OR PTE_V"]
  have am: "a < MAXVA" "page_aligned a" using nth_page [OF r] a by simp_all
  have leaf: "leafv 2 (phys t) pt vb = (if in_pages va (Suc j) vb
      then PA2PTE (pa + (PGROUNDDOWN vb - va)) OR perm OR PTE_V else leafv 2 (phys s) pt vb)"
    if "vb < MAXVA" for vb
    using L u(6) that same_slot_page [OF am(1) that am(2)] in_pages_Suc [OF r, of vb]
    by (auto simp: t a)
  have "free_pages t qs"
    unfolding t by (rule free_pages_mem [OF u(2)]) (use L u(1,5) d in auto)
  moreover have "in_pool t = in_pool s" using u(3) by (auto simp: t in_pool_def fun_eq_iff)
  moreover have "\<forall>a. PGROUNDDOWN a \<notin> tabs 2 (phys s) pt \<union> set us \<longrightarrow> phys t a = phys s a"
    using L u(5,7) by (auto simp: t)
  ultimately show ?thesis
    unfolding map_post_def by (intro exI [of _ us]) (use L u leaf in \<open>auto simp: t\<close>)
qed

lemma map_post_0:
  assumes "wft 2 (phys s) pt" "free_pages s ps"
  shows "map_post pt va pa perm s ps 0 ps s"
  unfolding map_post_def by (rule exI [of _ "[]"]) (use assms in simp)

lemma free_pages_distinct: "free_pages s ps \<Longrightarrow> distinct ps"
  by (simp add: free_pages_def)

lemma mappages_maps:
  assumes wf: "wft 2 (phys s) pt" and fr: "free_pages s ps" and d: "set ps \<inter> tabs 2 (phys s) pt = {}"
    and va: "page_aligned va" "unat va + n * 4096 \<le> 2 ^ 38" and n: "0 < n"
    and un: "\<And>vb. vb < MAXVA \<Longrightarrow> in_pages va n vb \<Longrightarrow> \<not> valid (leafv 2 (phys s) pt vb)"
  shows "returns (mappages s pt va (of_nat n * PGSIZE) pa perm) (\<lambda>ok t.
    if ok then \<exists>qs. map_post pt va pa perm s ps n qs t
    else \<exists>j < n. map_post pt va pa perm s ps j [] t)"
proof -
  let ?sz = "of_nat n * PGSIZE :: u64"
  define last where "last = va + ?sz - PGSIZE"
  have n64: "n * 4096 < 2 ^ 64" "n < 2 ^ 64" using va(2) by simp_all
  then have un_sz: "unat ?sz = n * 4096"
    by (simp add: params unat_word_ariths unsigned_of_nat take_bit_eq_mod)
  then have sz: "?sz mod PGSIZE = 0" "?sz \<noteq> 0"
    using n by (simp_all add: word_unat_eq_iff [of _ 0] unat_mod params)
  obtain k where k: "n = Suc k" using n by (cases n) auto
  have last: "last = va + of_nat k * PGSIZE" by (simp add: last_def k algebra_simps)
  have is_last: "va + of_nat j * PGSIZE = last \<longleftrightarrow> j = k" if "j < n" for j
    using nth_page(1) [OF va that] nth_page(1) [OF va, of k] k unfolding last by (metis add_left_cancel lessI mult_cancel2 zero_neq_numeral)
  let ?Q = "\<lambda>ok t. if ok then \<exists>qs. map_post pt va pa perm s ps n qs t
    else \<exists>j < n. map_post pt va pa perm s ps j [] t"
  let ?I = "\<lambda>(a, p) t. \<exists>j qs. j < n \<and> a = va + of_nat j * PGSIZE \<and> p = pa + of_nat j * PGSIZE \<and>
    map_post pt va pa perm s ps j qs t"
  have "returns (loop (2 ^ 52) (mappages_step pt last perm) (va, pa) s) ?Q"
  proof (rule loop_returns [where I = ?I and \<mu> = "\<lambda>(a, _) _. pages_to_go a"])
    show "?I (va, pa) s"
      unfolding prod.case using map_post_0 [OF wf fr] n by (intro exI [of _ 0] exI [of _ ps]) simp
    show "(case (va, pa) of (a, _) \<Rightarrow> \<lambda>_. pages_to_go a) s < 2 ^ 52"
      using pages_to_go_bound [of va] by simp
  next
    fix l t assume "?I l t"
    then obtain j qs where l: "l = (va + of_nat j * PGSIZE, pa + of_nat j * PGSIZE)" and j: "j < n"
      and mp: "map_post pt va pa perm s ps j qs t" by (cases l) auto
    let ?a = "va + of_nat j * PGSIZE"
    note a = nth_page [OF va j]
    have w: "returns (walk t pt ?a True) (\<lambda>r u. \<exists>qs'. map_post pt va pa perm s ps j qs' u \<and>
      (case r of None \<Rightarrow> qs' = [] | Some x \<Rightarrow> slot 2 (phys u) pt ?a = Some x))"
      by (rule map_post_walk [OF mp d a(2) free_pages_distinct [OF fr]])
    show "returns (mappages_step pt last perm l t) (\<lambda>r u. case r of
        Inl l' \<Rightarrow> ?I l' u \<and> (case l' of (a, _) \<Rightarrow> \<lambda>_. pages_to_go a) u < (case l of (a, _) \<Rightarrow> \<lambda>_. pages_to_go a) t
      | Inr x \<Rightarrow> ?Q x u)"
      unfolding l prod.case mappages_step.simps returns_bnd
    proof (rule returns_mono [OF w])
      fix r u assume "\<exists>qs'. map_post pt va pa perm s ps j qs' u \<and>
        (case r of None \<Rightarrow> qs' = [] | Some x \<Rightarrow> slot 2 (phys u) pt ?a = Some x)"
      then obtain qs' where mp': "map_post pt va pa perm s ps j qs' u"
        and r: "case r of None \<Rightarrow> qs' = [] | Some x \<Rightarrow> slot 2 (phys u) pt ?a = Some x" by blast
      show "returns (case r of None \<Rightarrow> Ret (Inr False) u
          | Some p \<Rightarrow> if load64 (phys u) p AND PTE_V \<noteq> 0 then Panic ''mappages: remap''
             else let s = u\<lparr>phys := store64 (phys u) p (PA2PTE (pa + of_nat j * PGSIZE) OR perm OR PTE_V)\<rparr>
                  in if ?a = last then Ret (Inr True) s
                     else Ret (Inl (?a + PGSIZE, pa + of_nat j * PGSIZE + PGSIZE)) s)
        (\<lambda>r u. case r of Inl l' \<Rightarrow> ?I l' u \<and> (case l' of (a, _) \<Rightarrow> \<lambda>_. pages_to_go a) u < pages_to_go ?a
           | Inr x \<Rightarrow> ?Q x u)"
      proof (cases r)
        case None
        with r mp' j show ?thesis by auto
      next
        case (Some x)
        with r have sl: "slot 2 (phys u) pt ?a = Some x" by simp
        have ip: "\<not> in_pages va j ?a" "in_pages va n ?a" using a(1) j by (auto simp: in_pages_def)
        have "leafv 2 (phys u) pt ?a = leafv 2 (phys s) pt ?a"
          using mp' a(2) ip(1) unfolding map_post_def by auto
        then have "load64 (phys u) x AND PTE_V = 0"
          using un [OF a(2) ip(2)] leafv_slot [of 2 "phys u" pt ?a] sl by (simp add: valid_def)
        moreover have "map_post pt va pa perm s ps (Suc j) qs'
            (u\<lparr>phys := store64 (phys u) x (PA2PTE (pa + of_nat j * PGSIZE) OR perm OR PTE_V)\<rparr>)"
          by (rule map_post_store [OF mp' d free_pages_distinct [OF fr] va j refl sl refl])
        moreover have "pages_to_go (?a + PGSIZE) < pages_to_go ?a" by (rule pages_to_go_step [OF a(2)])
        ultimately show ?thesis
          using Some is_last [OF j] j k
          by (auto simp: Let_def algebra_simps intro!: exI [of _ "Suc j"])
      qed
    qed
  qed
  moreover have "mappages s pt va ?sz pa perm = loop (2 ^ 52) (mappages_step pt last perm) (va, pa) s"
    by (simp only: mappages_def Let_def last_def va(1) [unfolded page_aligned_def] sz simp_thms if_False)
  ultimately show ?thesis by metis
qed

section \<open>User memory\<close>

text \<open>
  The physical address a user address is translated to, and what a user page must allow for
  \<open>copyin\<close> and \<open>copyout\<close>.
\<close>

definition uaddr :: "mem \<Rightarrow> u64 \<Rightarrow> u64 \<Rightarrow> u64" where
  "uaddr m pt va = PTE2PA (leafv 2 m pt va) + (va - PGROUNDDOWN va)"

definition user_ok :: "u64 \<Rightarrow> bool" where
  "user_ok v \<longleftrightarrow> v AND PTE_V \<noteq> 0 \<and> v AND PTE_U \<noteq> 0"

definition user_wr :: "u64 \<Rightarrow> bool" where
  "user_wr v \<longleftrightarrow> user_ok v \<and> v AND PTE_W \<noteq> 0"

lemma same_slot_leafv: "same_slot l va vb \<Longrightarrow> leafv l m pt va = leafv l m pt vb"
proof (induction l arbitrary: pt)
  case (Suc l)
  then show ?case by (simp add: same_slot_Suc Let_def)
qed (simp add: same_slot_def)

lemma leafv_PGROUNDDOWN: "leafv l m pt (PGROUNDDOWN va) = leafv l m pt va"
  by (rule same_slot_leafv) (simp add: same_slot_def PX_PGROUNDDOWN)

lemma page_rest: "unat (PGSIZE - (v - PGROUNDDOWN v)) = 4096 - unat v mod 4096"
proof -
  have "v - PGROUNDDOWN v \<le> PGSIZE"
    by (simp add: word_le_nat_alt unat_page_offset params less_imp_le)
  then show ?thesis by (simp add: unat_sub unat_page_offset params)
qed

lemma in_chunk:
  assumes "i < unat (PGSIZE - (v - PGROUNDDOWN v))"
  shows "PGROUNDDOWN (v + of_nat i) = PGROUNDDOWN v"
    and "v + of_nat i - PGROUNDDOWN (v + of_nat i) = v - PGROUNDDOWN v + of_nat i"
proof -
  let ?o = "v - PGROUNDDOWN v"
  have i: "i + unat ?o < 4096" using assms unfolding page_rest unat_page_offset by simp
  then have "?o + of_nat i < 4096"
    by (simp add: word_less_nat_alt unat_word_ariths unsigned_of_nat take_bit_eq_mod)
  then have "PGROUNDDOWN (PGROUNDDOWN v + (?o + of_nat i)) = PGROUNDDOWN v"
    by (intro in_page_self) simp_all
  moreover have "PGROUNDDOWN v + (?o + of_nat i) = v + of_nat i" by simp
  ultimately show p: "PGROUNDDOWN (v + of_nat i) = PGROUNDDOWN v" by simp
  show "v + of_nat i - PGROUNDDOWN (v + of_nat i) = v - PGROUNDDOWN v + of_nat i"
    unfolding p by simp
qed

lemma uaddr_chunk:
  assumes "i < unat (PGSIZE - (v - PGROUNDDOWN v))"
  shows "uaddr m pt (v + of_nat i) = uaddr m pt v + of_nat i"
    and "leafv 2 m pt (v + of_nat i) = leafv 2 m pt v"
proof -
  show l: "leafv 2 m pt (v + of_nat i) = leafv 2 m pt v"
    using leafv_PGROUNDDOWN [of 2 m pt "v + of_nat i"] leafv_PGROUNDDOWN [of 2 m pt v]
    by (simp add: in_chunk(1) [OF assms])
  show "uaddr m pt (v + of_nat i) = uaddr m pt v + of_nat i"
    unfolding uaddr_def l in_chunk(2) [OF assms] by simp
qed

lemma uaddr_page: "PGROUNDDOWN (uaddr m pt va) = PTE2PA (leafv 2 m pt va)"
  unfolding uaddr_def
  by (rule in_page_self) (simp_all add: word_less_nat_alt unat_page_offset)

lemma walk_lookup: "va < MAXVA \<Longrightarrow> walk s pt va False = Ret (slot 2 (phys s) pt va) s"
  by (simp add: walk_def walk_from_lookup)

lemma walkaddr_lookup:
  "walkaddr s pt va =
     Ret (if va < MAXVA \<and> user_ok (leafv 2 (phys s) pt va) then PTE2PA (leafv 2 (phys s) pt va) else 0) s"
  by (auto simp: walkaddr_def walk_lookup leafv_slot user_ok_def Let_def split: option.splits)

text \<open>
  The reference for the two copy loops: byte by byte through the translation.
\<close>

primrec put_bytes :: "(nat \<Rightarrow> u64) \<Rightarrow> u8 list \<Rightarrow> mem \<Rightarrow> nat \<Rightarrow> mem" where
  "put_bytes U src m 0 = m"
| "put_bytes U src m (Suc k) = (put_bytes U src m k)(U k := src ! k)"

lemma store_bytes_put:
  "(\<And>i. i < n \<Longrightarrow> U (k + i) = a + of_nat i) \<Longrightarrow> k + n \<le> length src \<Longrightarrow>
   store_bytes (put_bytes U src m k) a (take n (drop k src)) = put_bytes U src m (k + n)"
proof (induction n arbitrary: k a)
  case (Suc n)
  have "take (Suc n) (drop k src) = src ! k # take n (drop (Suc k) src)"
    using Suc.prems(2) by (simp flip: Cons_nth_drop_Suc)
  moreover have "store_bytes (put_bytes U src m (Suc k)) (a + 1) (take n (drop (Suc k) src)) =
      put_bytes U src m (Suc k + n)"
  proof (rule Suc.IH)
    fix i assume "i < n"
    then show "U (Suc k + i) = a + 1 + of_nat i" using Suc.prems(1) [of "Suc i"] by (simp add: ac_simps)
  qed (use Suc.prems(2) in simp)
  moreover have "U k = a" using Suc.prems(1) [of 0] by simp
  ultimately show ?case by simp
qed simp

lemma put_bytes_other: "(\<And>i. i < k \<Longrightarrow> U i \<noteq> a) \<Longrightarrow> put_bytes U src m k a = m a"
  by (induction k) auto

lemma put_bytes_at: "i < k \<Longrightarrow> inj_on U {..<k} \<Longrightarrow> put_bytes U src m k (U i) = src ! i"
proof (induction k)
  case (Suc k)
  then have "inj_on U {..<k}" by (auto intro: inj_on_subset)
  with Suc show ?case by (cases "i = k") (auto simp: inj_on_def)
qed simp

lemma load_bytes_map: "load_bytes m a n = map (\<lambda>i. m (a + of_nat i)) [0..<n]"
proof (induction n arbitrary: a)
  case (Suc n)
  have "[0..<Suc n] = 0 # map Suc [0..<n]" by (simp add: map_Suc_upt upt_conv_Cons)
  then show ?case by (simp add: Suc o_def ac_simps)
qed simp

lemma PGROUNDDOWN_MAXVA: "PGROUNDDOWN v < MAXVA \<longleftrightarrow> v < MAXVA"
proof -
  have "unat v div 4096 * 4096 < 67108864 * 4096 \<longleftrightarrow> unat v div 4096 < 67108864"
    by (rule mult_less_cancel2 [THEN trans]) simp
  also have "\<dots> \<longleftrightarrow> unat v < 67108864 * 4096"
    by (rule div_less_iff_less_mult) simp
  finally have "unat v div 4096 * 4096 < 274877906944 \<longleftrightarrow> unat v < 274877906944" by simp
  then show ?thesis by (simp add: word_less_nat_alt unat_PGROUNDDOWN params)
qed

lemma next_page: "va0 = PGROUNDDOWN v \<Longrightarrow> v + of_nat (unat (PGSIZE - (v - va0))) = va0 + PGSIZE"
  by simp

text \<open>The bytes a page takes: \<open>k\<close> done, \<open>n\<close> more from address \<open>v\<close> on.\<close>

definition copy_done :: "mem \<Rightarrow> u64 \<Rightarrow> u64 \<Rightarrow> (u64 \<Rightarrow> bool) \<Rightarrow> nat \<Rightarrow> bool" where
  "copy_done m pt va P k \<longleftrightarrow>
     (\<forall>i < k. va + of_nat i < MAXVA \<and> P (leafv 2 m pt (va + of_nat i)))"

lemma copy_done_chunk:
  assumes "copy_done m pt va P k" "v = va + of_nat k" "v < MAXVA" "P (leafv 2 m pt v)"
    and n: "n \<le> unat (PGSIZE - (v - PGROUNDDOWN v))"
  shows "copy_done m pt va P (k + n)"
  unfolding copy_done_def
proof (intro allI impI)
  fix i assume i: "i < k + n"
  show "va + of_nat i < MAXVA \<and> P (leafv 2 m pt (va + of_nat i))"
  proof (cases "i < k")
    case True
    with assms(1) show ?thesis by (simp add: copy_done_def)
  next
    case False
    then obtain j where j: "i = k + j" by (metis le_add_diff_inverse linorder_not_less)
    with i n have c: "j < unat (PGSIZE - (v - PGROUNDDOWN v))" by simp
    have v: "va + of_nat i = v + of_nat j" using assms(2) j by simp
    have "v + of_nat j < MAXVA"
      using in_chunk(1) [OF c] assms(3) PGROUNDDOWN_MAXVA by metis
    moreover have "P (leafv 2 m pt (v + of_nat j))" using uaddr_chunk(2) [OF c] assms(4) by simp
    ultimately show ?thesis unfolding v by simp
  qed
qed

lemma copyout_spec:
  assumes wf: "wft 2 (phys s) pt"
    and sep: "\<And>va. va < MAXVA \<Longrightarrow> user_ok (leafv 2 (phys s) pt va) \<Longrightarrow>
      PTE2PA (leafv 2 (phys s) pt va) \<notin> tabs 2 (phys s) pt"
  shows "returns (copyout s pt dstva src) (\<lambda>ok t. \<exists>k \<le> length src.
    t = s\<lparr>phys := put_bytes (\<lambda>i. uaddr (phys s) pt (dstva + of_nat i)) src (phys s) k\<rparr> \<and>
    copy_done (phys s) pt dstva user_wr k \<and>
    (if ok then k = length src
     else k < length src \<and> \<not> (dstva + of_nat k < MAXVA \<and> user_wr (leafv 2 (phys s) pt (dstva + of_nat k)))))"
proof -
  let ?U = "\<lambda>i. uaddr (phys s) pt (dstva + of_nat i)"
  let ?W = "\<lambda>k. put_bytes ?U src (phys s) k"
  let ?I = "\<lambda>(v, bs) t. \<exists>k \<le> length src. bs = drop k src \<and> (bs \<noteq> [] \<longrightarrow> v = dstva + of_nat k) \<and>
    t = s\<lparr>phys := ?W k\<rparr> \<and> copy_done (phys s) pt dstva user_wr k"
  show ?thesis
    unfolding copyout_def
  proof (rule loop_returns [where I = ?I and \<mu> = "\<lambda>(_, bs) _. length bs"])
    show "?I (dstva, src) s" by (auto simp: copy_done_def intro!: exI [of _ 0])
    show "(case (dstva, src) of (_, bs) \<Rightarrow> \<lambda>_. length bs) s < Suc (length src)" by simp
  next
    fix l t assume "?I l t"
    then obtain v bs k where l: "l = (v, bs)" and k: "k \<le> length src" "bs = drop k src"
        "bs \<noteq> [] \<longrightarrow> v = dstva + of_nat k" "t = s\<lparr>phys := ?W k\<rparr>" "copy_done (phys s) pt dstva user_wr k"
      by (cases l) auto
    have keep: "?W k a = phys s a" if "PGROUNDDOWN a \<in> tabs 2 (phys s) pt" for a
    proof (rule put_bytes_other)
      fix i assume "i < k"
      with k(5) have "PTE2PA (leafv 2 (phys s) pt (dstva + of_nat i)) \<notin> tabs 2 (phys s) pt"
        by (intro sep) (auto simp: copy_done_def user_wr_def)
      with that show "?U i \<noteq> a" using uaddr_page by metis
    qed
    note fr = tabs_frame [OF wf keep]
    show "returns (copyout_step pt l t)
      (\<lambda>r u. case r of
        Inl l' \<Rightarrow> ?I l' u \<and> (case l' of (_, bs) \<Rightarrow> \<lambda>_. length bs) u < (case l of (_, bs) \<Rightarrow> \<lambda>_. length bs) t
      | Inr ok \<Rightarrow> \<exists>k \<le> length src. u = s\<lparr>phys := ?W k\<rparr> \<and> copy_done (phys s) pt dstva user_wr k \<and>
          (if ok then k = length src
           else k < length src \<and> \<not> (dstva + of_nat k < MAXVA \<and> user_wr (leafv 2 (phys s) pt (dstva + of_nat k)))))"
    proof (cases "bs = []")
      case True
      with k show ?thesis by (auto simp: l intro!: exI [of _ "length src"])
    next
      case False
      then have v: "v = dstva + of_nat k" and lt: "k < length src" using k by auto
      let ?v0 = "PGROUNDDOWN v"
      have lv: "leafv 2 (phys t) pt ?v0 = leafv 2 (phys s) pt v"
        using fr k(4) by (simp add: leafv_PGROUNDDOWN)
      show ?thesis
      proof (cases "v < MAXVA \<and> user_wr (leafv 2 (phys s) pt v)")
        case True
        then have v0: "?v0 < MAXVA" by (simp add: PGROUNDDOWN_MAXVA)
        from True lv obtain p where p: "slot 2 (phys t) pt ?v0 = Some p" "load64 (phys t) p = leafv 2 (phys s) pt v"
          by (cases "slot 2 (phys t) pt ?v0") (auto simp: leafv_slot user_wr_def user_ok_def)
        let ?r = "unat (PGSIZE - (v - ?v0))"
        define n where "n = min ?r (length bs)"
        have n: "n \<le> ?r" "k + n \<le> length src" "0 < n"
          using False k(1,2) page_rest [of v] by (auto simp: n_def)
        have "store_bytes (?W k) (PTE2PA (leafv 2 (phys s) pt v) + (v - ?v0)) (take n bs) = ?W (k + n)"
          unfolding k(2)
        proof (rule store_bytes_put [OF _ n(2)])
          fix i assume "i < n"
          with n(1) have "uaddr (phys s) pt (v + of_nat i) = uaddr (phys s) pt v + of_nat i"
            by (intro uaddr_chunk) simp
          then show "?U (k + i) = PTE2PA (leafv 2 (phys s) pt v) + (v - ?v0) + of_nat i"
            by (simp add: v uaddr_def add.assoc)
        qed
        moreover have "copy_done (phys s) pt dstva user_wr (k + n)"
          using copy_done_chunk [OF k(5) v _ _ n(1)] True by blast
        moreover have "drop n bs \<noteq> [] \<longrightarrow> ?v0 + PGSIZE = dstva + of_nat (k + n)"
        proof
          assume "drop n bs \<noteq> []"
          then have "n = ?r" by (auto simp: n_def)
          then show "?v0 + PGSIZE = dstva + of_nat (k + n)"
            using next_page [of ?v0 v] by (simp add: v add.assoc)
        qed
        moreover have "user_wr (load64 (phys t) p)" using True p(2) by simp
        moreover have "drop n bs = drop (k + n) src" "length (drop n bs) < length bs"
          using k(2) n(3) False by (simp_all add: add.commute)
        moreover have "phys t = ?W k" by (simp add: k(4))
        ultimately show ?thesis
          using False v0 n(2) p k(4)
          by (auto simp: l walk_lookup Let_def user_wr_def user_ok_def simp flip: n_def
              intro!: exI [of _ "k + n"])
      next
        case bad: False
        show ?thesis
        proof (cases "v < MAXVA")
          case True
          with bad lv have "\<not> user_wr (leafv 2 (phys t) pt ?v0)" by simp
          with True False bad lt k v show ?thesis
            by (auto simp: l walk_lookup PGROUNDDOWN_MAXVA leafv_slot user_wr_def user_ok_def Let_def
                linorder_not_le split: option.splits intro!: exI [of _ k])
        next
          case nv: False
          with False lt k v show ?thesis
            by (auto simp: l PGROUNDDOWN_MAXVA linorder_not_less [symmetric] Let_def intro!: exI [of _ k])
        qed
      qed
    qed
  qed
qed

lemma copyin_spec:
  "returns (copyin s pt srcva len) (\<lambda>(ok, bs) t. t = s \<and> (\<exists>k \<le> len.
    bs = map (\<lambda>i. phys s (uaddr (phys s) pt (srcva + of_nat i))) [0..<k] \<and>
    copy_done (phys s) pt srcva (\<lambda>v. user_ok v \<and> PTE2PA v \<noteq> 0) k \<and>
    (if ok then k = len
     else k < len \<and> \<not> (srcva + of_nat k < MAXVA \<and> user_ok (leafv 2 (phys s) pt (srcva + of_nat k)) \<and>
       PTE2PA (leafv 2 (phys s) pt (srcva + of_nat k)) \<noteq> 0))))"
proof -
  let ?P = "\<lambda>v. user_ok v \<and> PTE2PA v \<noteq> 0"
  let ?B = "\<lambda>k. map (\<lambda>i. phys s (uaddr (phys s) pt (srcva + of_nat i))) [0..<k]"
  let ?I = "\<lambda>(v, len', dst) t. t = s \<and> (\<exists>k \<le> len. len' = len - k \<and> (len' \<noteq> 0 \<longrightarrow> v = srcva + of_nat k) \<and>
    dst = ?B k \<and> copy_done (phys s) pt srcva ?P k)"
  show ?thesis
    unfolding copyin_def
  proof (rule loop_returns [where I = ?I and \<mu> = "\<lambda>(_, len', _) _. len'"])
    show "?I (srcva, len, []) s" by (auto simp: copy_done_def intro!: exI [of _ 0])
    show "(case (srcva, len, []) of (_, len', _) \<Rightarrow> \<lambda>_. len') s < Suc len" by simp
  next
    fix l t assume "?I l t"
    then obtain v k where l: "l = (v, len - k, ?B k)" and t: "t = s" and k: "k \<le> len"
        "len - k \<noteq> 0 \<longrightarrow> v = srcva + of_nat k" "copy_done (phys s) pt srcva ?P k"
      by (cases l) auto
    let ?v0 = "PGROUNDDOWN v" and ?lv = "leafv 2 (phys s) pt v"
    have wa: "walkaddr s pt ?v0 = Ret (if v < MAXVA \<and> user_ok ?lv then PTE2PA ?lv else 0) s"
      by (simp add: walkaddr_lookup PGROUNDDOWN_MAXVA leafv_PGROUNDDOWN)
    show "returns (copyin_step pt l t) (\<lambda>r u. case r of
        Inl l' \<Rightarrow> ?I l' u \<and> (case l' of (_, len', _) \<Rightarrow> \<lambda>_. len') u < (case l of (_, len', _) \<Rightarrow> \<lambda>_. len') t
      | Inr x \<Rightarrow> (\<lambda>(ok, bs) t. t = s \<and> (\<exists>k \<le> len. bs = ?B k \<and> copy_done (phys s) pt srcva ?P k \<and>
          (if ok then k = len else k < len \<and> \<not> (srcva + of_nat k < MAXVA \<and>
             user_ok (leafv 2 (phys s) pt (srcva + of_nat k)) \<and> PTE2PA (leafv 2 (phys s) pt (srcva + of_nat k)) \<noteq> 0)))) x u)"
    proof (cases "len - k = 0 \<or> \<not> (v < MAXVA \<and> ?P ?lv)")
      case True
      then have "copyin_step pt l t = Ret (Inr (len - k = 0, ?B k)) s"
        by (auto simp: l t wa Let_def)
      with True k show ?thesis by (auto intro!: exI [of _ k])
    next
      case False
      then have v: "v = srcva + of_nat k" and ok: "v < MAXVA" "?P ?lv" using k by auto
      let ?r = "unat (PGSIZE - (v - ?v0))"
      define n where "n = min ?r (len - k)"
      have n: "n \<le> ?r" "k + n \<le> len" "0 < n" using False page_rest [of v] k(1) by (auto simp: n_def)
      have "copy_done (phys s) pt srcva ?P (k + n)"
        using copy_done_chunk [OF k(3) v ok(1) _ n(1)] ok(2) by blast
      moreover have "?B k @ load_bytes (phys s) (PTE2PA ?lv + (v - ?v0)) n = ?B (k + n)"
      proof -
        have "load_bytes (phys s) (PTE2PA ?lv + (v - ?v0)) n =
            map (\<lambda>i. phys s (uaddr (phys s) pt (srcva + of_nat (k + i)))) [0..<n]"
          unfolding load_bytes_map
        proof (rule map_cong [OF refl])
          fix i assume "i \<in> set [0..<n]"
          with n(1) have "uaddr (phys s) pt (v + of_nat i) = uaddr (phys s) pt v + of_nat i"
            by (intro uaddr_chunk) simp
          moreover have "srcva + of_nat (k + i) = v + of_nat i" by (simp add: v)
          ultimately show "phys s (PTE2PA ?lv + (v - ?v0) + of_nat i) = phys s (uaddr (phys s) pt (srcva + of_nat (k + i)))"
            by (metis uaddr_def)
        qed
        moreover have "[k..<k + n] = map (\<lambda>i. k + i) [0..<n]"
          using map_add_upt [of k n] by (simp add: add.commute)
        moreover have "[0..<k + n] = [0..<k] @ [k..<k + n]" by (rule upt_add_eq_append) simp
        ultimately show ?thesis by (simp only: map_append map_map o_def)
      qed
      moreover have "len - (k + n) \<noteq> 0 \<longrightarrow> ?v0 + PGSIZE = srcva + of_nat (k + n)"
        using next_page [of ?v0 v] by (auto simp: v n_def add.assoc min_def split: if_splits)
      moreover have "copyin_step pt l t = Ret (Inl (?v0 + PGSIZE, len - k - n,
          ?B k @ load_bytes (phys s) (PTE2PA ?lv + (v - ?v0)) n)) s"
        using False ok by (simp add: l t wa Let_def n_def)
      ultimately show ?thesis
        using n False by (auto simp: l intro!: exI [of _ "k + n"])
    qed
  qed
qed

section \<open>A concrete address space\<close>

text \<open>
  A page table with its three levels at \<open>0x80000000\<close>, \<open>0x80001000\<close> and \<open>0x80002000\<close> that maps user
  page 0 to the physical page \<open>0x80003000\<close>, and two free pages.
\<close>

definition demo_mem :: mem where
  "demo_mem = store64 (store64 (store64 (store64 (\<lambda>_. 0) 0x80004000 0x80005000)
     0x80000000 (PA2PTE 0x80001000 OR PTE_V)) 0x80001000 (PA2PTE 0x80002000 OR PTE_V))
     0x80002000 (PA2PTE 0x80003000 OR (PTE_V OR PTE_R OR PTE_W OR PTE_U))"

definition demo :: kmem where
  "demo = \<lparr>phys = demo_mem, freelist = 0x80004000, kend = 0x80000000\<rparr>"

lemma pte_store:
  assumes "page_aligned q" "page_aligned pt" "k < 512"
  shows "pte (store64 m q v) pt k = (if q = pt \<and> k = 0 then v else pte m pt k)"
proof (cases "q = pt")
  case True
  then show ?thesis using pte_store_same [OF assms(1), of 0 k m v] assms by auto
next
  case False
  have "pte (store64 m q v) pt k = pte m pt k"
    by (rule pte_page_cong) (use assms False store64_page_start in auto)
  with False show ?thesis by simp
qed

lemma demo_pte:
  assumes "k < 512"
  shows "pte demo_mem 0x80000000 k = (if k = 0 then PA2PTE 0x80001000 OR PTE_V else 0)"
    and "pte demo_mem 0x80001000 k = (if k = 0 then PA2PTE 0x80002000 OR PTE_V else 0)"
    and "pte demo_mem 0x80002000 k =
      (if k = 0 then PA2PTE 0x80003000 OR (PTE_V OR PTE_R OR PTE_W OR PTE_U) else 0)"
proof -
  have z: "pte (\<lambda>_. 0) p k = 0" for p by (simp add: pte_def load64_def)
  show "pte demo_mem 0x80000000 k = (if k = 0 then PA2PTE 0x80001000 OR PTE_V else 0)"
    "pte demo_mem 0x80001000 k = (if k = 0 then PA2PTE 0x80002000 OR PTE_V else 0)"
    "pte demo_mem 0x80002000 k =
      (if k = 0 then PA2PTE 0x80003000 OR (PTE_V OR PTE_R OR PTE_W OR PTE_U) else 0)"
    using assms by (simp_all add: demo_mem_def pte_store page_aligned_def params z)
qed

lemma demo_PTE2PA:
  "PTE2PA (PA2PTE 0x80001000 OR PTE_V) = 0x80001000"
  "PTE2PA (PA2PTE 0x80002000 OR PTE_V) = 0x80002000"
  "PTE2PA (PA2PTE 0x80003000 OR (PTE_V OR PTE_R OR PTE_W OR PTE_U)) = 0x80003000"
  by (simp_all add: PTE2PA_def PA2PTE_def params)

lemma demo_valid:
  "valid (PA2PTE p OR PTE_V)" "user_wr (PA2PTE 0x80003000 OR (PTE_V OR PTE_R OR PTE_W OR PTE_U))"
  using valid_or by (simp_all add: user_wr_def user_ok_def PA2PTE_def params)

lemma demo_entries:
  "{k. k < 512 \<and> valid (pte demo_mem 0x80000000 k)} = {0}"
  "{k. k < 512 \<and> valid (pte demo_mem 0x80001000 k)} = {0}"
  using demo_valid by (auto simp: demo_pte split: if_splits)

lemma demo_tabs1: "tabs (Suc 0) demo_mem 0x80001000 = {0x80001000, 0x80002000}"
  by (simp add: demo_entries demo_pte demo_PTE2PA)

lemma demo_tabs: "tabs 2 demo_mem 0x80000000 = {0x80000000, 0x80001000, 0x80002000}"
proof -
  have "tabs (Suc (Suc 0)) demo_mem 0x80000000 = insert 0x80000000 (tabs (Suc 0) demo_mem 0x80001000)"
    unfolding tabs.simps(2) [of "Suc 0"] demo_entries by (simp add: demo_pte demo_PTE2PA del: tabs.simps)
  then show ?thesis unfolding demo_tabs1 numeral_2_eq_2 .
qed

lemma demo_aligned: "page_aligned 0x80000000" "page_aligned 0x80001000" "page_aligned 0x80002000"
  by (simp_all add: page_aligned_def params)

lemma demo_wft: "wft 2 demo_mem 0x80000000"
proof -
  have only: "k = 0" if "k < 512" "valid (pte demo_mem p k)" "p = 0x80000000 \<or> p = 0x80001000" for k p
    using that demo_entries by blast
  have "wft (Suc 0) demo_mem 0x80001000"
    using only by (auto simp: demo_aligned demo_pte demo_PTE2PA split: if_splits)
  then have "wft (Suc (Suc 0)) demo_mem 0x80000000"
    using only unfolding wft.simps(2) [of "Suc 0"]
    by (auto simp: demo_aligned demo_pte demo_PTE2PA demo_tabs1 simp del: wft.simps tabs.simps
        split: if_splits)
  then show ?thesis unfolding numeral_2_eq_2 .
qed

lemma demo_leafv:
  "leafv 2 demo_mem 0x80000000 va = (if PX 2 va = 0 \<and> PX 1 va = 0 \<and> PX 0 va = 0
     then PA2PTE 0x80003000 OR (PTE_V OR PTE_R OR PTE_W OR PTE_U) else 0)"
proof -
  have l0: "leafv 0 demo_mem 0x80002000 va = (if PX 0 va = 0
      then PA2PTE 0x80003000 OR (PTE_V OR PTE_R OR PTE_W OR PTE_U) else 0)"
    by (simp add: demo_pte PX_less)
  have l1: "leafv (Suc 0) demo_mem 0x80001000 va = (if PX 1 va = 0 then leafv 0 demo_mem 0x80002000 va else 0)"
    using demo_valid(1) demo_pte(2) [OF PX_less [of 1 va]]
    by (cases "PX 1 va = 0") (simp_all add: demo_PTE2PA Let_def)
  have "leafv (Suc (Suc 0)) demo_mem 0x80000000 va =
      (if PX 2 va = 0 then leafv (Suc 0) demo_mem 0x80001000 va else 0)"
    using demo_valid(1) demo_pte(1) [OF PX_less [of 2 va]]
    by (cases "PX 2 va = 0") (simp_all add: demo_PTE2PA Let_def numeral_2_eq_2)
  then show ?thesis unfolding l1 l0 by (simp add: numeral_2_eq_2)
qed

lemma demo_free: "free_pages demo [0x80004000, 0x80005000]"
proof -
  have al: "aligned8 0x80000000" "aligned8 0x80001000" "aligned8 0x80002000" "aligned8 0x80004000" "aligned8 0x80005000"
    by (simp_all add: aligned8_def)
  have "load64 demo_mem 0x80004000 = 0x80005000" "load64 demo_mem 0x80005000 = 0"
    by (simp_all add: demo_mem_def load64_store64 al) (simp add: load64_def)
  then show ?thesis
    by (simp add: free_pages_def demo_def in_pool_def page_aligned_def params)
qed

section \<open>Properties\<close>

text \<open>
  C3. \<open>mappages\<close> on \<open>n\<close> unmapped pages of a well-formed table returns. When it reports success
  exactly those \<open>n\<close> pages have become mapped, to consecutive physical pages with the permissions
  asked for; when it reports failure the free list is exhausted and a prefix of them is mapped.
  In both cases every other virtual address keeps its entry, the table is still a tree of pages,
  the pages it gained came off the free list, and memory outside the table is unchanged.
\<close>

theorem mappages_correct:
  assumes "wft 2 (phys s) pt" "free_pages s ps" "set ps \<inter> tabs 2 (phys s) pt = {}"
    and "page_aligned va" "unat va + n * 4096 \<le> 2 ^ 38" "0 < n"
    and "\<forall>vb < MAXVA. in_pages va n vb \<longrightarrow> \<not> valid (leafv 2 (phys s) pt vb)"
  shows "returns (mappages s pt va (of_nat n * PGSIZE) pa perm) (\<lambda>ok t.
    \<exists>j qs us. (if ok then j = n else j < n \<and> qs = []) \<and>
      ps = us @ qs \<and> free_pages t qs \<and> wft 2 (phys t) pt \<and>
      tabs 2 (phys t) pt = tabs 2 (phys s) pt \<union> set us \<and>
      (\<forall>vb < MAXVA. leafv 2 (phys t) pt vb =
         (if in_pages va j vb then PA2PTE (pa + (PGROUNDDOWN vb - va)) OR perm OR PTE_V
          else leafv 2 (phys s) pt vb)) \<and>
      (\<forall>a. PGROUNDDOWN a \<notin> tabs 2 (phys s) pt \<union> set us \<longrightarrow> phys t a = phys s a))"
proof -
  have "returns (mappages s pt va (of_nat n * PGSIZE) pa perm) (\<lambda>ok t.
      if ok then \<exists>qs. map_post pt va pa perm s ps n qs t
      else \<exists>j < n. map_post pt va pa perm s ps j [] t)"
    by (rule mappages_maps) (use assms in auto)
  then show ?thesis
  proof (rule returns_mono)
    fix ok t assume "if ok then \<exists>qs. map_post pt va pa perm s ps n qs t
      else \<exists>j < n. map_post pt va pa perm s ps j [] t"
    then obtain j qs where "if ok then j = n else j < n \<and> qs = []" "map_post pt va pa perm s ps j qs t"
      by (auto split: if_splits)
    then show "\<exists>j qs us. (if ok then j = n else j < n \<and> qs = []) \<and>
      ps = us @ qs \<and> free_pages t qs \<and> wft 2 (phys t) pt \<and>
      tabs 2 (phys t) pt = tabs 2 (phys s) pt \<union> set us \<and>
      (\<forall>vb < MAXVA. leafv 2 (phys t) pt vb =
         (if in_pages va j vb then PA2PTE (pa + (PGROUNDDOWN vb - va)) OR perm OR PTE_V
          else leafv 2 (phys s) pt vb)) \<and>
      (\<forall>a. PGROUNDDOWN a \<notin> tabs 2 (phys s) pt \<union> set us \<longrightarrow> phys t a = phys s a)"
      unfolding map_post_def by blast
  qed
qed

lemma demo_unmapped: "vb < MAXVA \<Longrightarrow> in_pages 0x1000 3 vb \<Longrightarrow> leafv 2 demo_mem 0x80000000 vb = 0"
proof -
  assume "in_pages 0x1000 3 vb"
  then have vb: "4096 \<le> unat vb" "unat vb < 16384" by (simp_all add: in_pages_def)
  define q where "q = unat vb div 4096"
  have "q * 4096 \<le> unat vb" unfolding q_def by simp
  then have "q < 4" using vb(2) by linarith
  moreover have "1 \<le> q" using vb(1) by (simp add: q_def div_greater_zero_iff Suc_le_eq)
  ultimately have "unat (PX 0 vb) \<noteq> 0" by (simp add: unat_PX PXSHIFT_def flip: q_def)
  then show ?thesis by (auto simp: demo_leafv)
qed

theorem mappages_correct_witness:
  "returns (mappages demo 0x80000000 0x1000 (of_nat 3 * PGSIZE) 0x80006000 PTE_R) (\<lambda>ok t.
    \<exists>j qs us. (if ok then j = 3 else j < 3 \<and> qs = []) \<and>
      [0x80004000, 0x80005000] = us @ qs \<and> free_pages t qs \<and> wft 2 (phys t) 0x80000000 \<and>
      tabs 2 (phys t) 0x80000000 = tabs 2 (phys demo) 0x80000000 \<union> set us \<and>
      (\<forall>vb < MAXVA. leafv 2 (phys t) 0x80000000 vb =
         (if in_pages 0x1000 j vb then PA2PTE (0x80006000 + (PGROUNDDOWN vb - 0x1000)) OR PTE_R OR PTE_V
          else leafv 2 (phys demo) 0x80000000 vb)) \<and>
      (\<forall>a. PGROUNDDOWN a \<notin> tabs 2 (phys demo) 0x80000000 \<union> set us \<longrightarrow> phys t a = phys demo a))"
proof (rule mappages_correct [OF _ demo_free])
  have ph: "phys demo = demo_mem" by (simp add: demo_def)
  show "wft 2 (phys demo) 0x80000000" unfolding ph by (rule demo_wft)
  show "set [0x80004000, 0x80005000] \<inter> tabs 2 (phys demo) 0x80000000 = {}"
    unfolding ph demo_tabs by simp
  show "\<forall>vb < MAXVA. in_pages 0x1000 3 vb \<longrightarrow> \<not> valid (leafv 2 (phys demo) 0x80000000 vb)"
    unfolding ph using demo_unmapped by simp
qed (simp_all add: page_aligned_def params)

text \<open>
  C5. \<open>copyout\<close> writes user memory only where the user may write: in a well-formed table whose user
  pages are not table pages, every byte of memory it changes lies in a page that the table maps
  with the valid, user and write bits set, whatever address and bytes it is called with, and it
  always returns.
\<close>

theorem copyout_confined:
  assumes "wft 2 (phys s) pt"
    and "\<forall>va < MAXVA. user_ok (leafv 2 (phys s) pt va) \<longrightarrow> PTE2PA (leafv 2 (phys s) pt va) \<notin> tabs 2 (phys s) pt"
  shows "returns (copyout s pt dstva src) (\<lambda>ok t. kmem_only s t \<and> (\<forall>a. phys t a \<noteq> phys s a \<longrightarrow>
    (\<exists>va < MAXVA. user_wr (leafv 2 (phys s) pt va) \<and> PGROUNDDOWN a = PTE2PA (leafv 2 (phys s) pt va))))"
proof (rule returns_mono [OF copyout_spec])
  fix ok t
  assume "\<exists>k \<le> length src.
    t = s\<lparr>phys := put_bytes (\<lambda>i. uaddr (phys s) pt (dstva + of_nat i)) src (phys s) k\<rparr> \<and>
    copy_done (phys s) pt dstva user_wr k \<and>
    (if ok then k = length src
     else k < length src \<and> \<not> (dstva + of_nat k < MAXVA \<and> user_wr (leafv 2 (phys s) pt (dstva + of_nat k))))"
  then obtain k where k: "t = s\<lparr>phys := put_bytes (\<lambda>i. uaddr (phys s) pt (dstva + of_nat i)) src (phys s) k\<rparr>"
    "copy_done (phys s) pt dstva user_wr k" by blast
  have "\<exists>va < MAXVA. user_wr (leafv 2 (phys s) pt va) \<and> PGROUNDDOWN a = PTE2PA (leafv 2 (phys s) pt va)"
    if ne: "phys t a \<noteq> phys s a" for a
  proof -
    have "put_bytes (\<lambda>i. uaddr (phys s) pt (dstva + of_nat i)) src (phys s) k a \<noteq> phys s a"
      using ne by (simp add: k(1))
    with put_bytes_other [of k "\<lambda>i. uaddr (phys s) pt (dstva + of_nat i)" a src "phys s"]
    obtain i where i: "i < k" "uaddr (phys s) pt (dstva + of_nat i) = a" by blast
    have "dstva + of_nat i < MAXVA \<and> user_wr (leafv 2 (phys s) pt (dstva + of_nat i))"
      using k(2) i(1) by (simp add: copy_done_def)
    then show ?thesis using i(2) uaddr_page by metis
  qed
  then show "kmem_only s t \<and> (\<forall>a. phys t a \<noteq> phys s a \<longrightarrow>
    (\<exists>va < MAXVA. user_wr (leafv 2 (phys s) pt va) \<and> PGROUNDDOWN a = PTE2PA (leafv 2 (phys s) pt va)))"
    by (simp add: k(1))
qed (use assms in auto)

lemma demo_sep:
  "user_ok (leafv 2 demo_mem 0x80000000 va) \<Longrightarrow>
   PTE2PA (leafv 2 demo_mem 0x80000000 va) \<notin> tabs 2 demo_mem 0x80000000"
  by (auto simp: demo_leafv demo_PTE2PA demo_tabs user_ok_def split: if_splits)

theorem copyout_confined_witness:
  "returns (copyout demo 0x80000000 0xFFE [1, 2, 3]) (\<lambda>ok t. kmem_only demo t \<and> (\<forall>a. phys t a \<noteq> phys demo a \<longrightarrow>
    (\<exists>va < MAXVA. user_wr (leafv 2 (phys demo) 0x80000000 va) \<and>
       PGROUNDDOWN a = PTE2PA (leafv 2 (phys demo) 0x80000000 va))))"
proof (rule copyout_confined)
  have ph: "phys demo = demo_mem" by (simp add: demo_def)
  show "wft 2 (phys demo) 0x80000000" unfolding ph by (rule demo_wft)
  show "\<forall>va < MAXVA. user_ok (leafv 2 (phys demo) 0x80000000 va) \<longrightarrow>
      PTE2PA (leafv 2 (phys demo) 0x80000000 va) \<notin> tabs 2 (phys demo) 0x80000000"
    unfolding ph using demo_sep by blast
qed

text \<open>
  C11. What \<open>copyout\<close> stores \<open>copyin\<close> reads back: on user-writable pages that are not table pages and
  that map distinct user bytes to distinct physical bytes, \<open>copyout\<close> of a byte string succeeds and a
  \<open>copyin\<close> of as many bytes from the same address succeeds and returns that string.
\<close>

theorem copyin_copyout:
  assumes "wft 2 (phys s) pt"
    and sep: "\<forall>va < MAXVA. user_ok (leafv 2 (phys s) pt va) \<longrightarrow>
      PTE2PA (leafv 2 (phys s) pt va) \<notin> tabs 2 (phys s) pt \<and> PTE2PA (leafv 2 (phys s) pt va) \<noteq> 0"
    and dn: "\<forall>i < length src. dstva + of_nat i < MAXVA \<and> user_wr (leafv 2 (phys s) pt (dstva + of_nat i))"
    and inj: "inj_on (\<lambda>i. uaddr (phys s) pt (dstva + of_nat i)) {..<length src}"
  shows "returns (bnd (copyout s pt dstva src) (\<lambda>ok t.
      bnd (copyin t pt dstva (length src)) (\<lambda>r u. Ret (ok, r) u)))
    (\<lambda>(ok, r) u. ok \<and> r = (True, src))"
proof -
  let ?U = "\<lambda>i. uaddr (phys s) pt (dstva + of_nat i)"
  let ?m = "put_bytes ?U src (phys s) (length src)"
  have co: "returns (copyout s pt dstva src) (\<lambda>ok t. ok \<and> t = s\<lparr>phys := ?m\<rparr>)"
    by (rule returns_mono [OF copyout_spec]) (use assms in \<open>auto split: if_splits\<close>)
  have keep: "?m a = phys s a" if "PGROUNDDOWN a \<in> tabs 2 (phys s) pt" for a
  proof (rule put_bytes_other)
    fix i assume "i < length src"
    with dn sep have "PTE2PA (leafv 2 (phys s) pt (dstva + of_nat i)) \<notin> tabs 2 (phys s) pt"
      by (auto simp: user_wr_def)
    with that show "?U i \<noteq> a" using uaddr_page by metis
  qed
  have lv: "leafv 2 ?m pt va = leafv 2 (phys s) pt va" for va
    using tabs_frame [OF assms(1) keep] by blast
  then have "uaddr ?m pt = uaddr (phys s) pt" by (simp add: uaddr_def fun_eq_iff)
  then have rd: "map (\<lambda>i. ?m (uaddr ?m pt (dstva + of_nat i))) [0..<length src] = src"
    using put_bytes_at [OF _ inj] by (intro nth_equalityI) simp_all
  have ci: "returns (copyin (s\<lparr>phys := ?m\<rparr>) pt dstva (length src)) (\<lambda>r t. r = (True, src))"
    by (rule returns_mono [OF copyin_spec])
      (use dn sep rd in \<open>auto simp: lv user_wr_def split: if_splits\<close>)
  from co ci show ?thesis by (auto elim!: returnsE)
qed

lemma demo_page0: "i < 4096 \<Longrightarrow> leafv 2 demo_mem 0x80000000 (of_nat i) = PA2PTE 0x80003000 OR (PTE_V OR PTE_R OR PTE_W OR PTE_U)"
proof -
  assume i: "i < 4096"
  then have "unat (of_nat i :: u64) = i" by (simp add: unsigned_of_nat take_bit_eq_mod)
  with i have "unat (PX l (of_nat i)) = 0" for l
    by (simp add: unat_PX PXSHIFT_def power_add div_mult2_eq)
  then have "PX l (of_nat i) = 0" for l by (simp add: unsigned_eq_0_iff)
  then show ?thesis by (simp add: demo_leafv)
qed

theorem copyin_copyout_witness:
  "returns (bnd (copyout demo 0x80000000 0 [7, 8, 9]) (\<lambda>ok t.
      bnd (copyin t 0x80000000 0 (length [7, 8, 9 :: u8])) (\<lambda>r u. Ret (ok, r) u)))
    (\<lambda>(ok, r) u. ok \<and> r = (True, [7, 8, 9]))"
proof (rule copyin_copyout)
  have ph: "phys demo = demo_mem" by (simp add: demo_def)
  show "wft 2 (phys demo) 0x80000000" unfolding ph by (rule demo_wft)
  show "\<forall>va < MAXVA. user_ok (leafv 2 (phys demo) 0x80000000 va) \<longrightarrow>
      PTE2PA (leafv 2 (phys demo) 0x80000000 va) \<notin> tabs 2 (phys demo) 0x80000000 \<and>
      PTE2PA (leafv 2 (phys demo) 0x80000000 va) \<noteq> 0"
    unfolding ph using demo_sep by (auto simp: demo_leafv demo_PTE2PA user_ok_def split: if_splits)
  have small: "of_nat i < MAXVA" "PGROUNDDOWN (of_nat i) = 0" if "i < 3" for i
    using that by (auto simp: less_Suc_eq numeral_3_eq_3 params PGROUNDDOWN_def)
  show "\<forall>i < length [7, 8, 9 :: u8]. 0 + of_nat i < MAXVA \<and> user_wr (leafv 2 (phys demo) 0x80000000 (0 + of_nat i))"
    unfolding ph using small by (simp add: demo_page0 demo_valid)
  show "inj_on (\<lambda>i. uaddr (phys demo) 0x80000000 (0 + of_nat i)) {..<length [7, 8, 9 :: u8]}"
  proof (rule inj_onI)
    have ua: "uaddr demo_mem 0x80000000 (of_nat i) = 0x80003000 + of_nat i" if "i < 3" for i
      using that small by (simp add: uaddr_def demo_page0 demo_PTE2PA)
    have small: "unat (of_nat i :: u64) = i" if "i < 3" for i
      using that by (simp add: unsigned_of_nat take_bit_eq_mod)
    fix i j assume ij: "i \<in> {..<length [7, 8, 9 :: u8]}" "j \<in> {..<length [7, 8, 9 :: u8]}"
      and eq: "uaddr (phys demo) 0x80000000 (0 + of_nat i) = uaddr (phys demo) 0x80000000 (0 + of_nat j)"
    from ij have "i < 3" "j < 3" by simp_all
    with eq have "of_nat i = (of_nat j :: u64)" unfolding ph by (simp add: ua)
    with small \<open>i < 3\<close> \<open>j < 3\<close> show "i = j" by metis
  qed
qed

end
