(* ===== verification/Usermem.thy ===== *)
theory Usermem
  imports Pagetable Proc
begin

text \<open>
  The memory of a process as the kernel sees it, one byte at a time: what \<open>copyin\<close> and \<open>copyout\<close> of a
  single byte do, for the drivers that move bytes between a queue and user memory.
\<close>

definition readable_at :: "mem \<Rightarrow> u64 \<Rightarrow> u64 \<Rightarrow> bool" where
  "readable_at m pt va \<longleftrightarrow> va < MAXVA \<and> user_ok (leafv 2 m pt va) \<and> PTE2PA (leafv 2 m pt va) \<noteq> 0"

definition writable_at :: "mem \<Rightarrow> u64 \<Rightarrow> u64 \<Rightarrow> bool" where
  "writable_at m pt va \<longleftrightarrow> va < MAXVA \<and> user_wr (leafv 2 m pt va)"

definition user_byte :: "mem \<Rightarrow> u64 \<Rightarrow> u64 \<Rightarrow> u8" where
  "user_byte m pt va = m (uaddr m pt va)"

lemma copyin_byte:
  "copyin s pt va (Suc 0) =
     (if readable_at (phys s) pt va then Ret (True, [user_byte (phys s) pt va]) s else Ret (False, []) s)"
proof -
  from copyin_spec [of s pt va "Suc 0"] obtain ok bs t k where
    r: "copyin s pt va (Suc 0) = Ret (ok, bs) t" "t = s" "k \<le> Suc 0"
      "bs = map (\<lambda>i. phys s (uaddr (phys s) pt (va + of_nat i))) [0..<k]"
    and dn: "copy_done (phys s) pt va (\<lambda>v. user_ok v \<and> PTE2PA v \<noteq> 0) k"
    and e: "if ok then k = Suc 0 else k < Suc 0 \<and> \<not> (va + of_nat k < MAXVA \<and> user_ok (leafv 2 (phys s) pt (va + of_nat k)) \<and>
       PTE2PA (leafv 2 (phys s) pt (va + of_nat k)) \<noteq> 0)"
    by (auto simp: returns_iff)
  show ?thesis
  proof (cases ok)
    case True
    with e dn have "readable_at (phys s) pt va" "k = Suc 0" by (auto simp: copy_done_def readable_at_def)
    with r True show ?thesis by (simp add: user_byte_def)
  next
    case False
    with e have "k = 0" "\<not> readable_at (phys s) pt va" by (auto simp: readable_at_def)
    with r False show ?thesis by simp
  qed
qed

lemma copyout_byte:
  "copyout s pt va [c] =
     (if writable_at (phys s) pt va then Ret True (s\<lparr>phys := (phys s)(uaddr (phys s) pt va := c)\<rparr>) else Ret False s)"
proof (cases "va < MAXVA")
  case True
  then have v0: "PGROUNDDOWN va < MAXVA" by (simp add: PGROUNDDOWN_MAXVA)
  have n: "min (unat (PGSIZE - (va - PGROUNDDOWN va))) (Suc 0) = Suc 0" using page_rest [of va] by simp
  show ?thesis
  proof (cases "slot 2 (phys s) pt (PGROUNDDOWN va)")
    case None
    then have "leafv 2 (phys s) pt va = 0" using leafv_PGROUNDDOWN [of 2 "phys s" pt va] by (simp add: leafv_slot)
    with True v0 None show ?thesis
      by (simp add: copyout_def Let_def walk_lookup writable_at_def user_wr_def user_ok_def linorder_not_le)
  next
    case (Some p)
    then have "load64 (phys s) p = leafv 2 (phys s) pt va"
      using leafv_PGROUNDDOWN [of 2 "phys s" pt va] by (simp add: leafv_slot)
    with True v0 Some n show ?thesis
      by (auto simp: copyout_def Let_def walk_lookup writable_at_def user_wr_def user_ok_def uaddr_def linorder_not_le)
  qed
next
  case False
  then show ?thesis
    by (simp add: copyout_def Let_def writable_at_def PGROUNDDOWN_MAXVA linorder_not_less [symmetric])
qed

text \<open>An \<open>int\<close> that is not negative, as an offset.\<close>

lemma sint_unat_small: "unat i < 2 ^ 31 \<Longrightarrow> sint (i :: u32) = int (unat i)"
proof -
  assume "unat i < 2 ^ 31"
  then have "int (unat i) < int (2 ^ 31)" by (simp only: of_nat_less_iff)
  then have "uint i < 2 ^ 31" by simp
  moreover have "sint i = signed_take_bit 31 (uint i)" by (simp add: sint_uint)
  moreover have "- (2 ^ 31) \<le> uint i" using unsigned_greater_eq [of i] by (simp add: order_trans [of _ 0])
  ultimately have "sint i = uint i" by (metis signed_take_bit_int_eq_self)
  then show ?thesis by simp
qed

lemma scast_small: "unat i < 2 ^ 31 \<Longrightarrow> scast (i :: u32) = (of_nat (unat i) :: u64)"
proof -
  assume i: "unat i < 2 ^ 31"
  then have "sint i = int (unat i)" by (simp add: sint_unat_small)
  then have "scast i = (word_of_int (int (unat i)) :: u64)" by (metis of_int_sint)
  then show ?thesis by simp
qed

lemma sless_small: "unat i < 2 ^ 31 \<Longrightarrow> unat n < 2 ^ 31 \<Longrightarrow> (i <s n) = (i < n)" for i n :: u32
  by (simp add: word_sless_alt word_less_def sint_unat_small)


text \<open>Writing user pages leaves the translation alone when no user page is a page-table page.\<close>

definition tables_apart :: "mem \<Rightarrow> u64 \<Rightarrow> bool" where
  "tables_apart m pt \<longleftrightarrow> wft 2 m pt \<and>
     (\<forall>va < MAXVA. user_ok (leafv 2 m pt va) \<longrightarrow> PTE2PA (leafv 2 m pt va) \<notin> tabs 2 m pt)"

lemma put_bytes_leafv:
  assumes ok: "tables_apart m pt" and dn: "copy_done m pt addr user_wr k"
  shows "leafv 2 (put_bytes (\<lambda>i. uaddr m pt (addr + of_nat i)) src m k) pt va = leafv 2 m pt va"
proof -
  let ?U = "\<lambda>i. uaddr m pt (addr + of_nat i)"
  have keep: "put_bytes ?U src m k a = m a" if "PGROUNDDOWN a \<in> tabs 2 m pt" for a
  proof (rule put_bytes_other)
    fix i assume "i < k"
    with dn have "PTE2PA (leafv 2 m pt (addr + of_nat i)) \<notin> tabs 2 m pt"
      using ok by (auto simp: copy_done_def user_wr_def tables_apart_def)
    with that show "?U i \<noteq> a" using uaddr_page by metis
  qed
  have wf: "wft 2 m pt" using ok by (simp add: tables_apart_def)
  show ?thesis using tabs_frame [OF wf keep] by simp
qed


text \<open>The small page table of the theory of page tables maps page 0 of the user.\<close>

lemma demo_apart: "tables_apart demo_mem 0x80000000"
  unfolding tables_apart_def using demo_wft demo_sep by blast

lemma demo_access:
  assumes "va < 4096"
  shows "readable_at demo_mem 0x80000000 va" "writable_at demo_mem 0x80000000 va"
proof -
  have "unat va < 4096" using assms by (simp add: word_less_nat_alt)
  from demo_page0 [OF this] have "leafv 2 demo_mem 0x80000000 va = PA2PTE 0x80003000 OR (PTE_V OR PTE_R OR PTE_W OR PTE_U)"
    by simp
  moreover have "va < MAXVA" using assms by (rule order_less_trans) (simp add: params)
  ultimately show "readable_at demo_mem 0x80000000 va" "writable_at demo_mem 0x80000000 va"
    using demo_valid by (simp_all add: readable_at_def writable_at_def demo_PTE2PA user_wr_def)
qed

end
