(* ===== verification/Pipefifo.thy ===== *)
theory Pipefifo
  imports Pipe Usermem
begin

text \<open>
  A pipe is a queue of bytes: what \<open>pipewrite\<close> and \<open>piperead\<close> do to it, in every run up to the point
  where they return or sleep.
\<close>

definition pipe_queue :: "pipe \<Rightarrow> u8 list" where
  "pipe_queue p = ring PIPESIZE (pi_data p) (nread p) (nwrite p)"

definition pipe_inv :: "pipe \<Rightarrow> bool" where
  "pipe_inv p \<longleftrightarrow> length (pi_data p) = PIPESIZE \<and> unat (nwrite p - nread p) \<le> PIPESIZE"

definition push_byte :: "u8 \<Rightarrow> pipe \<Rightarrow> pipe" where
  "push_byte c p = p\<lparr>pi_data := (pi_data p)[ring_index PIPESIZE (nwrite p) := c], nwrite := nwrite p + 1\<rparr>"

definition pop_byte :: "pipe \<Rightarrow> pipe" where
  "pop_byte p = p\<lparr>nread := nread p + 1\<rparr>"

interpretation pipe_ring: ring_buffer PIPESIZE pi_data nread nwrite push_byte pop_byte pipe_inv pipe_queue
  by unfold_locales (simp_all add: PIPESIZE_def push_byte_def pop_byte_def pipe_inv_def pipe_queue_def)

lemma pipe_push:
  assumes "pipe_inv p" "nwrite p \<noteq> nread p + of_nat PIPESIZE"
  shows "pipe_inv (push_byte c p) \<and> pipe_queue (push_byte c p) = pipe_queue p @ [c]"
  using pipe_ring.push_appends [OF assms] by blast

lemma pipe_pop:
  assumes "pipe_inv p" "nread p \<noteq> nwrite p"
  shows "pipe_queue p = pi_data p ! ring_index PIPESIZE (nread p) # pipe_queue (p\<lparr>nread := nread p + 1\<rparr>) \<and>
    pipe_inv (p\<lparr>nread := nread p + 1\<rparr>)"
  using pipe_ring.pop_takes [OF assms] by (simp add: pop_byte_def)

text \<open>What the two routines leave alone.\<close>

definition pipe_frame :: "u64 \<Rightarrow> 'a kstate_scheme \<Rightarrow> 'a kstate_scheme \<Rightarrow> bool" where
  "pipe_frame pi s t \<longleftrightarrow> myproc t = myproc s \<and> length (procs t) = length (procs s) \<and>
     (\<forall>q. q \<noteq> pi \<longrightarrow> pipes t q = pipes s q) \<and> readopen (pipes t pi) = readopen (pipes s pi) \<and>
     writeopen (pipes t pi) = writeopen (pipes s pi)"

lemma pipe_frame_wakeup [simp]: "pipe_frame pi s (wakeup c t) = pipe_frame pi s t"
  by (simp add: pipe_frame_def wakeup_def myproc_def)

lemma pipe_wakeup [simp]: "pipes (wakeup c s) = pipes s" "phys (wakeup c s) = phys s"
  by (simp_all add: wakeup_def)

text \<open>The bytes of the user that \<open>pipewrite\<close> has taken when its counter is \<open>i\<close>.\<close>

definition taken :: "mem \<Rightarrow> u64 \<Rightarrow> u64 \<Rightarrow> nat \<Rightarrow> u8 list" where
  "taken m pt addr k = map (\<lambda>j. user_byte m pt (addr + of_nat j)) [0..<k]"

lemma taken_Suc: "taken m pt addr (Suc k) = taken m pt addr k @ [user_byte m pt (addr + of_nat k)]"
  by (simp add: taken_def)

lemma unat_Suc_less: "i < n \<Longrightarrow> unat (i + 1) = Suc (unat i)" for i n :: "'l::len word"
proof -
  assume "i < n"
  moreover have "unat n < 2 ^ LENGTH('l)" by (rule unsigned_less)
  ultimately have "Suc (unat i) < 2 ^ LENGTH('l)" unfolding word_less_nat_alt by linarith
  moreover have "i + 1 = of_nat (Suc (unat i))" by (simp add: ac_simps)
  ultimately show ?thesis by (simp add: unat_of_nat del: of_nat_Suc)
qed

lemma pipewrite_loop:
  fixes s :: "'a kstate_scheme"
  assumes inv: "pipe_inv (pipes s pi)" and me: "myproc s = Some pr" and n: "unat n < 2 ^ 31"
    and pt: "pt = p_pagetable (procs s ! pr)"
  shows "ends (loop (Suc (unat n)) (pipewrite_step pi addr n pr) 0 s)
    (\<lambda>r t. phys t = phys s \<and> pipe_frame pi s t \<and> pipe_inv (pipes t pi) \<and>
       (case r of
          None \<Rightarrow> (\<not> readopen (pipes s pi) \<or> killed s pr) \<and> pipe_queue (pipes t pi) = pipe_queue (pipes s pi)
        | Some i \<Rightarrow> i \<le> n \<and> pipe_queue (pipes t pi) = pipe_queue (pipes s pi) @ taken (phys s) pt addr (unat i) \<and>
            (i < n \<longrightarrow> \<not> readable_at (phys s) pt (addr + of_nat (unat i)))))
    (\<lambda>c t. c = ChPipeWrite pi \<and> phys t = phys s \<and> pipe_frame pi s t \<and> pipe_inv (pipes t pi) \<and>
       length (pipe_queue (pipes t pi)) = PIPESIZE \<and>
       (\<exists>i < unat n. pipe_queue (pipes t pi) = pipe_queue (pipes s pi) @ taken (phys s) pt addr i))"
proof (rule loop_ends [where \<mu> = "\<lambda>i _. unat (n - i)" and
      I = "\<lambda>i t. i \<le> n \<and> phys t = phys s \<and> procs t = procs s \<and> pipe_frame pi s t \<and> pipe_inv (pipes t pi) \<and>
        (0 < i \<longrightarrow> readopen (pipes s pi) \<and> \<not> killed s pr) \<and>
        pipe_queue (pipes t pi) = pipe_queue (pipes s pi) @ taken (phys s) pt addr (unat i)"], goal_cases)
  case 1
  then show ?case using inv by (simp add: pipe_frame_def taken_def)
next
  case 2
  then show ?case by simp
next
  case (3 i t)
  then have i: "i \<le> n" and st: "phys t = phys s" "procs t = procs s" "pipe_frame pi s t" "pipe_inv (pipes t pi)"
    and q: "pipe_queue (pipes t pi) = pipe_queue (pipes s pi) @ taken (phys s) pt addr (unat i)"
    and go: "0 < i \<longrightarrow> readopen (pipes s pi) \<and> \<not> killed s pr" by auto
  have ui: "unat i < 2 ^ 31" using i n by (metis word_le_nat_alt order_le_less_trans)
  have lt: "i <s n \<longleftrightarrow> i < n" by (rule sless_small [OF ui n])
  have ro: "readopen (pipes t pi) = readopen (pipes s pi)" "killed t pr = killed s pr" "myproc t = Some pr"
    using st me by (simp_all add: pipe_frame_def killed_def)
  show ?case
  proof (cases "i < n")
    case False
    with i st q show ?thesis by (simp add: pipewrite_step_def lt)
  next
    case True
    have next_i: "unat (i + 1) = Suc (unat i)" by (rule unat_Suc_less [OF True])
    have le: "i + 1 \<le> n" using True by (metis inc_le)
    have meas: "unat (n - (i + 1)) < unat (n - i)" using True unat_suc_diff [of n i] by (simp add: unat_gt_0)
    show ?thesis
    proof (cases "\<not> readopen (pipes s pi) \<or> killed s pr")
      case stop: True
      then have "\<not> 0 < i" using go by blast
      then have "i = 0" by (simp add: word_neq_0_conv [symmetric])
      moreover have "0 <s n" using lt True \<open>i = 0\<close> by simp
      ultimately show ?thesis using stop True st q ro by (auto simp: pipewrite_step_def taken_def)
    next
      case on: False
      show ?thesis
      proof (cases "nwrite (pipes t pi) = nread (pipes t pi) + of_nat PIPESIZE")
        case full: True
        then have "length (pipe_queue (pipes t pi)) = PIPESIZE" by (simp add: pipe_queue_def PIPESIZE_def)
        moreover have "unat i < unat n" using True by (simp add: word_less_nat_alt)
        ultimately show ?thesis using True on full st q ro
          by (auto simp: pipewrite_step_def lt sleep_def with_proc_def pipe_frame_def myproc_def wakeup_def upd_proc_def)
      next
        case room: False
        note pp = pipe_push [OF st(4) room]
        show ?thesis using True on room st q ro pp [of "user_byte (phys s) pt (addr + of_nat (unat i))"] next_i le meas
          by (auto simp: pipewrite_step_def lt copyin_byte scast_small [OF ui] pt taken_Suc byte_at_def
              pipe_frame_def upd_pipe_def myproc_def push_byte_def)
      qed
    qed
  qed
qed


lemma piperead_loop:
  fixes s :: "'a kstate_scheme"
  assumes inv: "pipe_inv (pipes s pi)" and me: "myproc s = Some pr" and n: "unat n < 2 ^ 31"
    and pt: "pt = p_pagetable (procs s ! pr)" and ok: "tables_apart (phys s) pt"
  defines "q \<equiv> pipe_queue (pipes s pi)"
  shows "returns (loop (Suc (unat n)) (piperead_step pi addr n pr) 0 s)
    (\<lambda>i t. procs t = procs s \<and> pipe_frame pi s t \<and> pipe_inv (pipes t pi) \<and> i \<le> n \<and> unat i \<le> length q \<and>
       phys t = put_bytes (\<lambda>j. uaddr (phys s) pt (addr + of_nat j)) q (phys s) (unat i) \<and>
       (if i = n \<or> unat i = length q then pipe_queue (pipes t pi) = drop (unat i) q
        else \<not> writable_at (phys s) pt (addr + of_nat (unat i)) \<and> pipe_queue (pipes t pi) = drop (Suc (unat i)) q))"
proof (rule loop_returns [where \<mu> = "\<lambda>i _. unat (n - i)" and
      I = "\<lambda>i t. i \<le> n \<and> procs t = procs s \<and> pipe_frame pi s t \<and> pipe_inv (pipes t pi) \<and> unat i \<le> length q \<and>
        phys t = put_bytes (\<lambda>j. uaddr (phys s) pt (addr + of_nat j)) q (phys s) (unat i) \<and>
        copy_done (phys s) pt addr user_wr (unat i) \<and> pipe_queue (pipes t pi) = drop (unat i) q"], goal_cases)
  case 1
  then show ?case using inv by (simp add: pipe_frame_def copy_done_def q_def)
next
  case 2
  then show ?case by simp
next
  case (3 i t)
  let ?U = "\<lambda>j. uaddr (phys s) pt (addr + of_nat j)"
  from 3 have i: "i \<le> n" and st: "procs t = procs s" "pipe_frame pi s t" "pipe_inv (pipes t pi)" "unat i \<le> length q"
    and ph: "phys t = put_bytes ?U q (phys s) (unat i)" and dn: "copy_done (phys s) pt addr user_wr (unat i)"
    and qt: "pipe_queue (pipes t pi) = drop (unat i) q" by auto
  have ui: "unat i < 2 ^ 31" using i n by (metis word_le_nat_alt order_le_less_trans)
  have lt: "i <s n \<longleftrightarrow> i < n" by (rule sless_small [OF ui n])
  have empty: "nread (pipes t pi) = nwrite (pipes t pi) \<longleftrightarrow> unat i = length q"
    using ring_Nil_iff [of PIPESIZE "pi_data (pipes t pi)" "nread (pipes t pi)" "nwrite (pipes t pi)"] qt st(4)
    by (auto simp: pipe_queue_def)
  show ?case
  proof (cases "i < n \<and> unat i \<noteq> length q")
    case False
    with i have "i = n \<or> unat i = length q" by auto
    then show ?thesis using False i st ph qt empty by (auto simp: piperead_step_def lt)
  next
    case True
    then have less: "unat i < length q" and lt': "i < n" using st(4) by auto
    have next_i: "unat (i + 1) = Suc (unat i)" by (rule unat_Suc_less [OF lt'])
    have le: "i + 1 \<le> n" using lt' by (metis inc_le)
    have meas: "unat (n - (i + 1)) < unat (n - i)" using lt' unat_suc_diff [of n i] by (simp add: unat_gt_0)
    define p where "p = pipes t pi"
    have pop: "pipe_queue p = pi_data p ! ring_index PIPESIZE (nread p) # pipe_queue (p\<lparr>nread := nread p + 1\<rparr>)"
      "pipe_inv (p\<lparr>nread := nread p + 1\<rparr>)"
      using pipe_pop [of p] st(3) empty True by (auto simp: p_def)
    then have ch: "pi_data p ! ring_index PIPESIZE (nread p) = q ! unat i"
      and rest: "pipe_queue (p\<lparr>nread := nread p + 1\<rparr>) = drop (Suc (unat i)) q"
      using qt less by (auto simp: p_def simp flip: Cons_nth_drop_Suc)
    have wr: "writable_at (phys t) pt v = writable_at (phys s) pt v" "uaddr (phys t) pt v = uaddr (phys s) pt v" for v
    proof -
      have "leafv 2 (phys t) pt v = leafv 2 (phys s) pt v" unfolding ph by (rule put_bytes_leafv [OF ok dn])
      then show "writable_at (phys t) pt v = writable_at (phys s) pt v" "uaddr (phys t) pt v = uaddr (phys s) pt v"
        by (simp_all add: writable_at_def uaddr_def)
    qed
    have "copy_done (phys s) pt addr user_wr (Suc (unat i))" if "writable_at (phys s) pt (addr + of_nat (unat i))"
      using dn that by (auto simp: copy_done_def writable_at_def less_Suc_eq)
    moreover have "nread p \<noteq> nwrite p" using empty True by (auto simp: p_def)
    moreover
    let ?va = "addr + of_nat (unat i)" and ?u = "upd_pipe pi (\<lambda>p. p\<lparr>nread := nread p + 1\<rparr>) t"
    have "phys ?u = phys t" "procs ?u = procs s" by (simp_all add: upd_pipe_def st(1))
    then have "piperead_step pi addr n pr i t =
        (if writable_at (phys s) pt ?va then Ret (Inl (i + 1)) (?u\<lparr>phys := (phys t)(uaddr (phys s) pt ?va := q ! unat i)\<rparr>)
         else Ret (Inr i) ?u)"
      using lt' empty True lt ch
      by (simp add: piperead_step_def scast_small [OF ui] copyout_byte wr Let_def flip: pt p_def)
    ultimately show ?thesis
      using lt' less i st(1,2) ph pop(2) rest next_i le meas
      by (auto simp: upd_pipe_def pipe_frame_def myproc_def simp flip: p_def)
  qed
qed


section \<open>Writers and readers\<close>

text \<open>
  C19. A writer appends the user's bytes to the pipe in order. In a run of \<open>pipewrite\<close> the pipe's
  queue grows by the bytes at \<open>addr\<close>, \<open>addr + 1\<close>, and so on: all \<open>n\<close> of them, or up to one the user
  cannot read, or until the pipe is full, when the writer sleeps with some bytes still to come. It
  returns -1 only if the read end is closed or the process is killed. Nothing else in memory and no
  other pipe changes.
\<close>

theorem pipewrite_appends:
  fixes s :: "'a kstate_scheme"
  assumes inv: "pipe_inv (pipes s pi)" and me: "myproc s = Some pr" and n: "unat n < 2 ^ 31"
    and pt: "pt = p_pagetable (procs s ! pr)"
  shows "ends (pipewrite pi addr n s)
    (\<lambda>r t. phys t = phys s \<and> pipe_frame pi s t \<and> pipe_inv (pipes t pi) \<and>
       (case r of
          None \<Rightarrow> (\<not> readopen (pipes s pi) \<or> killed s pr) \<and> pipe_queue (pipes t pi) = pipe_queue (pipes s pi)
        | Some i \<Rightarrow> i \<le> n \<and> pipe_queue (pipes t pi) = pipe_queue (pipes s pi) @ taken (phys s) pt addr (unat i) \<and>
            (i < n \<longrightarrow> \<not> readable_at (phys s) pt (addr + of_nat (unat i)))))
    (\<lambda>c t. c = ChPipeWrite pi \<and> phys t = phys s \<and> pipe_frame pi s t \<and> pipe_inv (pipes t pi) \<and>
       length (pipe_queue (pipes t pi)) = PIPESIZE \<and>
       (\<exists>i < unat n. pipe_queue (pipes t pi) = pipe_queue (pipes s pi) @ taken (phys s) pt addr i))"
  using pipewrite_loop [OF assms] me by (simp add: pipewrite_def pipewrite_from_def with_proc_def)

text \<open>
  C20. A reader takes bytes from the front of the pipe in order. \<open>piperead\<close> sleeps exactly when the
  pipe is empty, its write end open and the process not killed. Otherwise it moves the first bytes of
  the queue to \<open>addr\<close>, \<open>addr + 1\<close>, and so on, as many as there are up to \<open>n\<close>; only a byte whose
  address the user cannot write is taken from the queue and lost, and then the read stops.
\<close>

theorem piperead_takes:
  fixes s :: "'a kstate_scheme"
  assumes inv: "pipe_inv (pipes s pi)" and me: "myproc s = Some pr" and n: "unat n < 2 ^ 31"
    and pt: "pt = p_pagetable (procs s ! pr)" and ok: "tables_apart (phys s) pt"
  defines "q \<equiv> pipe_queue (pipes s pi)"
  shows "ends (piperead pi addr n s)
    (\<lambda>r t. pipe_frame pi s t \<and> pipe_inv (pipes t pi) \<and>
       (case r of
          None \<Rightarrow> q = [] \<and> killed s pr \<and> t = s
        | Some i \<Rightarrow> (q \<noteq> [] \<or> \<not> writeopen (pipes s pi)) \<and> i \<le> n \<and> unat i \<le> length q \<and>
            phys t = put_bytes (\<lambda>j. uaddr (phys s) pt (addr + of_nat j)) q (phys s) (unat i) \<and>
            (if i = n \<or> unat i = length q then pipe_queue (pipes t pi) = drop (unat i) q
             else \<not> writable_at (phys s) pt (addr + of_nat (unat i)) \<and> pipe_queue (pipes t pi) = drop (Suc (unat i)) q)))
    (\<lambda>c t. c = ChPipeRead pi \<and> q = [] \<and> writeopen (pipes s pi) \<and> \<not> killed s pr \<and> pipes t = pipes s \<and> phys t = phys s)"
proof -
  have e: "nread (pipes s pi) = nwrite (pipes s pi) \<longleftrightarrow> q = []"
    unfolding q_def pipe_queue_def ring_Nil_iff by simp
  show ?thesis
  proof (cases "q = [] \<and> writeopen (pipes s pi)")
    case True
    then show ?thesis using me inv e
      by (auto simp: piperead_def with_proc_def sleep_def upd_proc_def pipe_frame_def killed_def)
  next
    case False
    then have L: "ends (loop (Suc (unat n)) (piperead_step pi addr n pr) 0 s)
      (\<lambda>i t. procs t = procs s \<and> pipe_frame pi s t \<and> pipe_inv (pipes t pi) \<and> i \<le> n \<and> unat i \<le> length q \<and>
         phys t = put_bytes (\<lambda>j. uaddr (phys s) pt (addr + of_nat j)) q (phys s) (unat i) \<and>
         (if i = n \<or> unat i = length q then pipe_queue (pipes t pi) = drop (unat i) q
          else \<not> writable_at (phys s) pt (addr + of_nat (unat i)) \<and> pipe_queue (pipes t pi) = drop (Suc (unat i)) q))
      (\<lambda>_ _. False)"
      unfolding q_def by (intro returns_ends [OF piperead_loop [OF inv me n pt ok]])
    have eq: "piperead pi addr n s = bnd (loop (Suc (unat n)) (piperead_step pi addr n pr) 0 s)
        (\<lambda>i s. Ret (Some i) (wakeup (Some (ChPipeWrite pi)) s))"
      using me e False by (auto simp: piperead_def with_proc_def simp del: loop.simps)
    show ?thesis unfolding eq ends_bnd by (rule ends_mono [OF L]) (use False in auto)
  qed
qed

definition demo_kstate :: kstate where
  "demo_kstate = cstate.extend (ustate.extend demo_ustate (cstate.fields (replicate 128 0) 0 0 0 []))
     (kstate.fields [] (\<lambda>_. \<lparr>pi_data = replicate PIPESIZE 5, nread = 0, nwrite = 0, readopen = True, writeopen = True\<rparr>) 0)"

definition demo_user :: kstate where
  "demo_user = demo_kstate\<lparr>phys := demo_mem, procs := (procs demo_kstate)[1 := (procs demo_kstate ! 1)\<lparr>p_pagetable := 0x80000000\<rparr>]\<rparr>"

lemmas demo_kstate_defs = demo_kstate_def demo_user_def demo_ustate_defs cstate.defs kstate.defs

lemma demo_user_fields:
  "myproc demo_user = Some (Suc 0)" "phys demo_user = demo_mem" "p_pagetable (procs demo_user ! Suc 0) = 0x80000000"
  "\<not> killed demo_user (Suc 0)"
  by (simp_all add: demo_kstate_defs myproc_def killed_def)

lemma demo_pipe: "pipe_inv (pipes demo_user q)" "pipe_queue (pipes demo_user q) = []" "readopen (pipes demo_user q)" "writeopen (pipes demo_user q)"
  by (simp_all add: demo_kstate_defs pipe_inv_def pipe_queue_def)

theorem pipewrite_appends_witness:
  "ends (pipewrite 0x80005000 0 2 demo_user)
    (\<lambda>r t. r = Some 2 \<and> pipe_queue (pipes t 0x80005000) = taken demo_mem 0x80000000 0 2) (\<lambda>_ _. False)"
proof (rule ends_mono [OF pipewrite_appends [where n = 2 and pr = "Suc 0" and pt = "0x80000000"]])
  have rd: "readable_at demo_mem 0x80000000 (of_nat (unat i))" if "i < (2 :: u32)" for i
  proof (rule demo_access(1))
    have "unat i < 2" using that by (simp add: word_less_nat_alt)
    then have "unat i = 0 \<or> unat i = 1" by linarith
    then show "of_nat (unat i) < (4096 :: u64)" by (elim disjE) (simp_all only: of_nat_0 of_nat_1, simp_all)
  qed
  fix r :: "u32 option" and t
  assume "phys t = phys demo_user \<and> pipe_frame 0x80005000 demo_user t \<and> pipe_inv (pipes t 0x80005000) \<and>
    (case r of
       None \<Rightarrow> (\<not> readopen (pipes demo_user 0x80005000) \<or> killed demo_user (Suc 0)) \<and>
         pipe_queue (pipes t 0x80005000) = pipe_queue (pipes demo_user 0x80005000)
     | Some i \<Rightarrow> i \<le> 2 \<and> pipe_queue (pipes t 0x80005000) = pipe_queue (pipes demo_user 0x80005000) @
           taken (phys demo_user) 0x80000000 0 (unat i) \<and>
         (i < 2 \<longrightarrow> \<not> readable_at (phys demo_user) 0x80000000 (0 + of_nat (unat i))))"
  with rd show "r = Some 2 \<and> pipe_queue (pipes t 0x80005000) = taken demo_mem 0x80000000 0 2"
    by (cases r) (auto simp: demo_user_fields demo_pipe order_less_le)
next
  fix c t
  assume "c = ChPipeWrite 0x80005000 \<and> phys t = phys demo_user \<and> pipe_frame 0x80005000 demo_user t \<and>
    pipe_inv (pipes t 0x80005000) \<and> length (pipe_queue (pipes t 0x80005000)) = PIPESIZE \<and>
    (\<exists>i < unat (2 :: u32). pipe_queue (pipes t 0x80005000) = pipe_queue (pipes demo_user 0x80005000) @
       taken (phys demo_user) 0x80000000 0 i)"
  then show False by (auto simp: demo_pipe taken_def PIPESIZE_def)
qed (simp_all add: demo_pipe demo_user_fields)

theorem piperead_takes_witness:
  "\<exists>t. piperead 0x80005000 0 2 demo_user = Sleep (ChPipeRead 0x80005000) t \<and> pipes t = pipes demo_user"
proof -
  have "ends (piperead 0x80005000 0 2 demo_user) (\<lambda>_ _. False) (\<lambda>c t. c = ChPipeRead 0x80005000 \<and> pipes t = pipes demo_user)"
    by (rule ends_mono [OF piperead_takes [where n = 2 and pr = "Suc 0" and pt = "0x80000000"]])
      (auto simp: demo_pipe demo_user_fields demo_apart split: option.splits)
  then show ?thesis by (cases "piperead 0x80005000 0 2 demo_user") auto
qed

end
