(* ===== verification/Lineedit.thy ===== *)
theory Lineedit
  imports Console Usermem
begin

text \<open>
  The console's input buffer is a line editor: the lines a reader may take, and the line being typed.
  The abstract editor is \<open>edit\<close>; \<open>consoleintr\<close> refines it.
\<close>

section \<open>The abstract editor\<close>

text \<open>The committed characters and the pending ones.\<close>

type_synonym lines = "u8 list \<times> u8 list"

definition accept :: "u8 \<Rightarrow> lines \<Rightarrow> lines" where
  "accept c l =
     (let (com, pen) = l; pen = pen @ [c]
      in if c = newline \<or> c = CTRL_D \<or> length com + length pen = INPUT_BUF_SIZE then (com @ pen, []) else (com, pen))"

definition edit :: "u8 \<Rightarrow> lines \<Rightarrow> lines" where
  "edit c l =
     (if c = CTRL_P then l
      else if c = CTRL_U then (fst l, [])
      else if c = CTRL_H \<or> c = DEL then (fst l, butlast (snd l))
      else if c \<noteq> 0 \<and> length (fst l) + length (snd l) < INPUT_BUF_SIZE
      then accept (if c = carriage_return then newline else c) l
      else l)"

section \<open>The buffer\<close>

definition cons_lines :: "'a cstate_scheme \<Rightarrow> lines" where
  "cons_lines s = (ring INPUT_BUF_SIZE (cons_buf s) (cons_r s) (cons_w s), ring INPUT_BUF_SIZE (cons_buf s) (cons_w s) (cons_e s))"

text \<open>
  The counters are in order, at most a buffer apart, and the line being typed has no end of line.
\<close>

definition cons_inv :: "'a cstate_scheme \<Rightarrow> bool" where
  "cons_inv s \<longleftrightarrow> length (cons_buf s) = INPUT_BUF_SIZE \<and>
     unat (cons_e s - cons_r s) = unat (cons_w s - cons_r s) + unat (cons_e s - cons_w s) \<and>
     unat (cons_e s - cons_r s) \<le> INPUT_BUF_SIZE \<and> newline \<notin> set (snd (cons_lines s))"

lemma cons_consts: "INPUT_BUF_SIZE dvd 2 ^ LENGTH(32)" "0 < INPUT_BUF_SIZE" "INPUT_BUF_SIZE < 2 ^ LENGTH(32)"
  by (simp_all add: INPUT_BUF_SIZE_def)

lemma ring_split:
  fixes r w e :: "'l::len word"
  assumes "unat (e - r) = unat (w - r) + unat (e - w)"
  shows "ring N buf r e = ring N buf r w @ ring N buf w e"
proof -
  have w: "r + of_nat (unat (w - r) + k) = w + of_nat k" for k
    by (simp add: add.commute)
  have up: "[0..<m + n] = [0..<m] @ map (\<lambda>k. m + k) [0..<n]" for m n :: nat
    by (rule nth_equalityI) (auto simp: nth_append)
  show ?thesis unfolding ring_def assms up by (simp add: comp_def w)
qed

lemma ring_butlast:
  fixes r e :: "'l::len word"
  assumes "e \<noteq> r"
  shows "ring N buf r (e - 1) = butlast (ring N buf r e)" "last (ring N buf r e) = buf ! ring_index N (e - 1)"
proof -
  have "unat (e - 1 - r) = unat (e - r) - 1" using unat_minus_one [of "e - r"] assms by (simp add: algebra_simps)
  moreover have "0 < unat (e - r)" using assms by (simp add: unat_gt_0)
  ultimately obtain n where n: "unat (e - r) = Suc n" "unat (e - 1 - r) = n" by (metis diff_Suc_1 gr0_implies_Suc)
  then show "ring N buf r (e - 1) = butlast (ring N buf r e)" by (simp add: ring_def)
  have "r + of_nat n = e - 1" unfolding n(2) [symmetric] by simp
  then show "last (ring N buf r e) = buf ! ring_index N (e - 1)" using n by (simp add: ring_def)
qed

section \<open>The steps of the handler\<close>

lemma cons_emit [simp]:
  "cons_buf (emit cs s) = cons_buf s" "cons_r (emit cs s) = cons_r s" "cons_w (emit cs s) = cons_w s" "cons_e (emit cs s) = cons_e s"
  by (simp_all add: emit_def)

lemma cons_lines_emit [simp]: "cons_lines (emit cs s) = cons_lines s" "cons_inv (emit cs s) = cons_inv s"
  by (simp_all add: cons_lines_def cons_inv_def)

lemma cons_wakeup [simp]:
  "cons_buf (wakeup c s) = cons_buf s" "cons_r (wakeup c s) = cons_r s" "cons_w (wakeup c s) = cons_w s" "cons_e (wakeup c s) = cons_e s"
  by (simp_all add: wakeup_def)

lemma can_print_cons [simp]: "can_print (s\<lparr>cons_e := e\<rparr>) = can_print s"
  by (simp add: can_print_def uart_idle_def)

lemma erase_edit:
  assumes inv: "cons_inv s" and io: "can_print s" and ne: "cons_e s \<noteq> cons_w s"
  shows "returns (erase s) (\<lambda>_ t. cons_inv t \<and> can_print t \<and> cons_lines t = (fst (cons_lines s), butlast (snd (cons_lines s))) \<and>
    cons_w t = cons_w s \<and> cons_e t = cons_e s - 1 \<and> cons_buf t = cons_buf s)"
proof -
  let ?t = "s\<lparr>cons_e := cons_e s - 1\<rparr>"
  have l: "cons_lines ?t = (fst (cons_lines s), butlast (snd (cons_lines s)))"
    using ring_butlast(1) [OF ne] by (simp add: cons_lines_def)
  have "unat (cons_e s - 1 - cons_w s) = unat (cons_e s - cons_w s) - 1"
    using unat_minus_one [of "cons_e s - cons_w s"] ne by (simp add: algebra_simps)
  moreover have "cons_e s \<noteq> cons_r s" using inv ne by (auto simp: cons_inv_def unat_gt_0 unat_eq_0)
  then have "unat (cons_e s - 1 - cons_r s) = unat (cons_e s - cons_r s) - 1"
    using unat_minus_one [of "cons_e s - cons_r s"] by (simp add: algebra_simps)
  moreover have "0 < unat (cons_e s - cons_w s)" using ne by (simp add: unat_gt_0)
  ultimately have "cons_inv ?t"
    using inv l by (auto simp: cons_inv_def dest: in_set_butlastD)
  with l io show ?thesis by (simp add: erase_def consputc_emit)
qed

lemma kill_line_edit:
  assumes inv: "cons_inv s" and io: "can_print s"
  shows "returns (kill_line s) (\<lambda>_ t. cons_inv t \<and> can_print t \<and> cons_lines t = (fst (cons_lines s), []))"
  unfolding kill_line_def
proof (rule loop_returns [where \<mu> = "\<lambda>_ t. unat (cons_e t - cons_w t)" and
      I = "\<lambda>_ t. cons_inv t \<and> can_print t \<and> fst (cons_lines t) = fst (cons_lines s)"], goal_cases)
  case 1
  then show ?case using assms by simp
next
  case 2
  then show ?case by simp
next
  case (3 l t)
  then have inv: "cons_inv t" and io: "can_print t" and f: "fst (cons_lines t) = fst (cons_lines s)" by auto
  show ?case
  proof (cases "cons_e t = cons_w t")
    case True
    then show ?thesis using inv io f by (cases "cons_lines t") (simp add: cons_lines_def)
  next
    case False
    have "last (snd (cons_lines t)) = cons_buf t ! ring_index INPUT_BUF_SIZE (cons_e t - 1)"
      using ring_butlast(2) [OF False] by (simp add: cons_lines_def)
    moreover have "snd (cons_lines t) \<noteq> []" using False by (auto simp: cons_lines_def ring_Nil_iff)
    ultimately have "cons_buf t ! ring_index INPUT_BUF_SIZE (cons_e t - 1) \<noteq> newline"
      using inv by (metis cons_inv_def last_in_set)
    moreover have "unat (cons_e t - 1 - cons_w t) < unat (cons_e t - cons_w t)"
      using unat_minus_one [of "cons_e t - cons_w t"] False by (simp add: algebra_simps unat_gt_0)
    ultimately show ?thesis using False f by (auto intro!: returns_mono [OF erase_edit [OF inv io False]])
  qed
qed

lemma put_input_edit:
  assumes inv: "cons_inv s" and room: "unat (cons_e s - cons_r s) < INPUT_BUF_SIZE"
  shows "cons_inv (put_input c s) \<and> cons_lines (put_input c s) = accept c (cons_lines s)"
proof -
  let ?b = "(cons_buf s)[ring_index INPUT_BUF_SIZE (cons_e s) := c]" and ?e = "cons_e s + 1"
  let ?N = INPUT_BUF_SIZE
  have len: "length (cons_buf s) = ?N" and sum: "unat (cons_e s - cons_r s) = unat (cons_w s - cons_r s) + unat (cons_e s - cons_w s)"
    and nl: "newline \<notin> set (ring ?N (cons_buf s) (cons_w s) (cons_e s))"
    using inv by (simp_all add: cons_inv_def cons_lines_def)
  have roomw: "unat (cons_e s - cons_w s) < ?N" using room sum by simp
  have pen: "ring ?N ?b (cons_w s) ?e = ring ?N (cons_buf s) (cons_w s) (cons_e s) @ [c]"
    by (rule ring_push [OF cons_consts roomw len])
  have all: "ring ?N ?b (cons_r s) ?e = ring ?N (cons_buf s) (cons_r s) (cons_e s) @ [c]"
    by (rule ring_push [OF cons_consts room len])
  have up: "unat (?e - cons_r s) = Suc (unat (cons_e s - cons_r s))" "unat (?e - cons_w s) = Suc (unat (cons_e s - cons_w s))"
    by (rule unat_push [OF room cons_consts(3)], rule unat_push [OF roomw cons_consts(3)])
  have sum': "unat (?e - cons_r s) = unat (cons_w s - cons_r s) + unat (?e - cons_w s)" using sum up by simp
  have com: "ring ?N ?b (cons_r s) (cons_w s) = ring ?N (cons_buf s) (cons_r s) (cons_w s)"
    using all ring_split [OF sum', of ?N ?b] ring_split [OF sum, of ?N "cons_buf s"] pen by simp
  have full: "?e - cons_r s = of_nat ?N \<longleftrightarrow> unat (cons_w s - cons_r s) + Suc (unat (cons_e s - cons_w s)) = ?N"
    using sum' up cons_consts(3) by (simp add: word_unat_eq_iff unat_of_nat)
  show ?thesis
    using pen com all full len sum' up room nl ring_split [OF sum', of ?N ?b]
    by (auto simp: put_input_def cons_inv_def cons_lines_def accept_def Let_def)
qed

section \<open>Control-P\<close>

lemma procdump_line:
  assumes "can_print s"
  shows "\<exists>cs. printf (str ''%d %s %s'') [VNum a, VStr (Some t), VStr (Some u)] s = Ret () (emit cs s)"
proof -
  have "\<exists>cs. text_of (str ''%d %s %s'') [VNum a, VStr (Some t), VStr (Some u)] = Some cs"
    using int_fits [of a]
    by (simp add: text_of.simps str_def byte_at_def conversion_def conv_text_def int_text_def Let_def)
  then show ?thesis using printf_emit [OF assms] by fastforce
qed

lemma printf_newline: "can_print s \<Longrightarrow> printf [newline] [] s = Ret () (emit [newline] s)"
  by (simp add: printf_emit text_of.simps newline_def)

lemma dump_one_emit: "can_print s \<Longrightarrow> \<exists>cs. dump_one i s = Ret () (emit cs s)"
proof (cases "p_state (procs s ! i) = UNUSED")
  case True
  then show ?thesis by (auto simp: dump_one_def intro: exI [of _ "[]"])
next
  case False
  assume io: "can_print s"
  from procdump_line [OF io] obtain cs where
    "printf (str ''%d %s %s'') [VNum (ucast (p_pid (procs s ! i))), VStr (Some (state_name (p_state (procs s ! i)))),
       VStr (Some (p_name (procs s ! i)))] s = Ret () (emit cs s)" by blast
  with False io show ?thesis by (auto simp: dump_one_def Let_def printf_newline)
qed

lemma each_dump_emit: "can_print s \<Longrightarrow> \<exists>cs. each dump_one is s = Ret () (emit cs s)"
proof (induction "is" arbitrary: s)
  case Nil
  then show ?case by (auto intro: exI [of _ "[]"])
next
  case (Cons i "is")
  from dump_one_emit [OF Cons.prems] obtain cs where cs: "dump_one i s = Ret () (emit cs s)" by blast
  from Cons.IH [of "emit cs s"] Cons.prems obtain ds where "each dump_one is (emit cs s) = Ret () (emit ds (emit cs s))"
    by auto
  with cs show ?case by auto
qed

lemma procdump_emit:
  assumes io: "can_print s"
  shows "\<exists>cs. procdump s = Ret () (emit cs s)"
proof -
  have eq: "procdump s = bnd (printf [newline] [] s) (\<lambda>_ s. each dump_one [0..<length (procs s)] s)"
    unfolding procdump_def ..
  obtain cs where "each dump_one [0..<length (procs (emit [newline] s))] (emit [newline] s) = Ret () (emit cs (emit [newline] s))"
    using each_dump_emit [of "emit [newline] s"] io by auto
  then show ?thesis unfolding eq using io by (auto simp: printf_newline)
qed

text \<open>
  C18. The console's interrupt handler refines the abstract line editor. Under the invariant on the
  buffer's three counters, and with a device that accepts the echo, the handler returns for every
  character, keeps the invariant, and changes the committed and the pending characters as \<open>edit\<close> says:
  a character is appended to the line being typed, backspace and delete remove the last character of
  that line only, control-U the whole of it, an end of line or a full buffer commits it, and a full
  buffer takes nothing more.
\<close>

theorem consoleintr_edits:
  assumes inv: "cons_inv s" and io: "uart_idle s" "\<not> panicked s"
  shows "returns (consoleintr c s) (\<lambda>_ t. cons_inv t \<and> cons_lines t = edit c (cons_lines s))"
proof -
  have pr: "can_print s" using io by (simp add: can_print_def)
  have len: "length (fst (cons_lines s)) + length (snd (cons_lines s)) = unat (cons_e s - cons_r s)"
    using inv by (simp add: cons_inv_def cons_lines_def)
  have room: "cons_e s - cons_r s < of_nat INPUT_BUF_SIZE \<longleftrightarrow> unat (cons_e s - cons_r s) < INPUT_BUF_SIZE"
    using cons_consts(3) by (simp add: word_less_nat_alt unat_of_nat)
  consider "c = CTRL_P" | "c = CTRL_U" | "c = CTRL_H \<or> c = DEL" | "c \<notin> {CTRL_P, CTRL_U, CTRL_H, DEL}" by blast
  then show ?thesis
  proof cases
    case 1
    then show ?thesis using procdump_emit [OF pr] inv by (auto simp: consoleintr_def edit_def)
  next
    case 2
    then show ?thesis using kill_line_edit [OF inv pr]
      by (auto simp: consoleintr_def edit_def params elim: returns_mono)
  next
    case 3
    show ?thesis
    proof (cases "cons_e s = cons_w s")
      case True
      then have "snd (cons_lines s) = []" by (simp add: cons_lines_def)
      with 3 True inv show ?thesis by (cases "cons_lines s") (auto simp: consoleintr_def edit_def params)
    next
      case False
      with 3 show ?thesis using erase_edit [OF inv pr False]
        by (auto simp: consoleintr_def edit_def params elim: returns_mono)
    qed
  next
    case 4
    show ?thesis
    proof (cases "c \<noteq> 0 \<and> unat (cons_e s - cons_r s) < INPUT_BUF_SIZE")
      case True
      let ?c = "if c = carriage_return then newline else c"
      have "cons_inv (emit [?c] s)" "unat (cons_e (emit [?c] s) - cons_r (emit [?c] s)) < INPUT_BUF_SIZE"
        using inv True by simp_all
      from put_input_edit [OF this] show ?thesis
        using 4 True pr room len by (simp add: consoleintr_def edit_def consputc_byte Let_def)
    next
      case False
      then show ?thesis using 4 inv room len by (auto simp: consoleintr_def edit_def)
    qed
  qed
qed


definition demo_cstate :: cstate where
  "demo_cstate = ustate.extend demo_idle (cstate.fields (replicate INPUT_BUF_SIZE 0) 0 0 0 [])"

theorem consoleintr_edits_witness:
  "returns (consoleintr 97 demo_cstate) (\<lambda>_ t. cons_lines t = ([], [97]))"
proof -
  have "cons_inv demo_cstate" "uart_idle demo_cstate" "\<not> panicked demo_cstate" "cons_lines demo_cstate = ([], [])"
    by (simp_all add: demo_cstate_def cstate.defs demo_idle_def demo_ustate_defs cons_inv_def cons_lines_def
        INPUT_BUF_SIZE_def uart_idle_def LSR_TX_IDLE_def)
  from returns_mono [OF consoleintr_edits [OF this(1-3), of 97]] show ?thesis
    by (simp add: \<open>cons_lines demo_cstate = ([], [])\<close> edit_def accept_def params)
qed

end
