(* ===== verification/Layout.thy ===== *)
theory Layout
  imports Fs
begin

text \<open>
  Properties of the file system's data: inodes on disk, the bit map of blocks, path names, and the
  table of inodes in memory.
\<close>

section \<open>Inodes on disk\<close>

lemma get16_put32 [simp]:
  "i + 4 \<le> length bs \<Longrightarrow> j + 2 \<le> i \<or> i + 4 \<le> j \<Longrightarrow> get16 j (put32 i w bs) = get16 j bs"
  using splice_other [of i "le32 w" bs j 2] by (simp add: get16_def put32_def)

lemma get32_put16 [simp]:
  "i + 2 \<le> length bs \<Longrightarrow> j + 4 \<le> i \<or> i + 2 \<le> j \<Longrightarrow> get32 j (put16 i w bs) = get32 j bs"
  using splice_other [of i "le16 w" bs j 4] by (simp add: get32_def put16_def)

definition put_addrs :: "nat \<Rightarrow> u32 list \<Rightarrow> nat \<Rightarrow> u8 list \<Rightarrow> u8 list" where
  "put_addrs off as n d = fold (\<lambda>i. put32 (off + 4 * i) (as ! i)) [0..<n] d"

lemma put_addrs_Suc: "put_addrs off as (Suc n) d = put32 (off + 4 * n) (as ! n) (put_addrs off as n d)"
  by (simp add: put_addrs_def)

lemma put_addrs_ok:
  assumes "off + 4 * n \<le> length d"
  shows "length (put_addrs off as n d) = length d \<and>
    (\<forall>i < n. get32 (off + 4 * i) (put_addrs off as n d) = as ! i) \<and>
    (\<forall>j. j + 4 \<le> off \<or> off + 4 * n \<le> j \<longrightarrow> get32 j (put_addrs off as n d) = get32 j d) \<and>
    (\<forall>j. j + 2 \<le> off \<or> off + 4 * n \<le> j \<longrightarrow> get16 j (put_addrs off as n d) = get16 j d)"
  using assms
proof (induction n)
  case 0
  then show ?case by (simp add: put_addrs_def)
next
  case (Suc n)
  then have IH: "length (put_addrs off as n d) = length d" "\<And>i. i < n \<Longrightarrow> get32 (off + 4 * i) (put_addrs off as n d) = as ! i"
    "\<And>j. j + 4 \<le> off \<or> off + 4 * n \<le> j \<Longrightarrow> get32 j (put_addrs off as n d) = get32 j d"
    "\<And>j. j + 2 \<le> off \<or> off + 4 * n \<le> j \<Longrightarrow> get16 j (put_addrs off as n d) = get16 j d" by auto
  have room: "off + 4 * n + 4 \<le> length (put_addrs off as n d)" using Suc.prems IH(1) by simp
  show ?case unfolding put_addrs_Suc using room IH Suc.prems by (auto simp: less_Suc_eq)
qed

lemma put_dinode_addrs:
  "put_dinode off di d = put_addrs (off + 12) (d_addrs di) (Suc NDIRECT)
     (put32 (off + 8) (d_size di) (put16 (off + 6) (d_nlink di) (put16 (off + 4) (d_minor di)
       (put16 (off + 2) (d_major di) (put16 off (d_type di) d)))))"
  by (simp add: put_dinode_def put_addrs_def)




section \<open>The bit map\<close>

lemma bit_mask_bit: "bit (bit_mask k) n \<longleftrightarrow> n = k mod 8"
proof -
  have "k mod 8 < 8" by simp
  then show ?thesis by (auto simp: bit_mask_def bit_simps)
qed

lemma in_use_bit: "in_use d k \<longleftrightarrow> bit (d ! (k div 8)) (k mod 8)"
proof -
  have "(x AND bit_mask k \<noteq> 0) \<longleftrightarrow> bit x (k mod 8)" for x :: u8
    by (auto simp: bit_eq_iff [of "x AND bit_mask k" 0] bit_and_iff bit_mask_bit)
  then show ?thesis by (simp add: in_use_def)
qed

lemma same_bit: "j div 8 = k div 8 \<Longrightarrow> j mod 8 = k mod 8 \<Longrightarrow> j = k" for j k :: nat
  by (metis div_mult_mod_eq)

lemma mark_used_bit:
  assumes "length d = BSIZE" "k < BPB" "j < BPB"
  shows "in_use (mark_used k d) j \<longleftrightarrow> j = k \<or> in_use d j"
proof -
  have "k div 8 < length d" using assms by (simp add: params)
  then show ?thesis using same_bit [of j k]
    by (cases "j div 8 = k div 8") (auto simp: in_use_bit mark_used_def bit_or_iff bit_mask_bit)
qed

lemma mark_free_bit:
  assumes "length d = BSIZE" "k < BPB" "j < BPB"
  shows "in_use (mark_free k d) j \<longleftrightarrow> j \<noteq> k \<and> in_use d j"
proof -
  have k: "k div 8 < length d" using assms by (simp add: params)
  have "j mod 8 < 8" by simp
  with k show ?thesis using same_bit [of j k]
    by (cases "j div 8 = k div 8") (auto simp: in_use_bit mark_free_def bit_and_iff bit_not_iff bit_mask_bit)
qed

lemma mark_free_used: "length d = BSIZE \<Longrightarrow> k < BPB \<Longrightarrow> \<not> in_use d k \<Longrightarrow> mark_free k (mark_used k d) = d"
proof -
  assume len: "length d = BSIZE" "k < BPB" and free: "\<not> in_use d k"
  then have k: "k div 8 < length d" by (simp add: params)
  have "((d ! (k div 8)) OR bit_mask k) AND NOT (bit_mask k) = d ! (k div 8)"
    using free by (auto intro!: bit_word_eqI simp: in_use_bit bit_simps bit_mask_bit)
  with k show ?thesis by (simp add: mark_free_def mark_used_def)
qed

lemma find_takeWhile:
  "find P (takeWhile Q [0..<n]) = Some i \<Longrightarrow> i < n \<and> P i \<and> Q i \<and> (\<forall>j < i. Q j \<and> \<not> P j)"
proof -
  assume "find P (takeWhile Q [0..<n]) = Some i"
  then obtain k where k: "k < length (takeWhile Q [0..<n])" "P (takeWhile Q [0..<n] ! k)"
    "i = takeWhile Q [0..<n] ! k" "\<And>j. j < k \<Longrightarrow> \<not> P (takeWhile Q [0..<n] ! j)"
    by (auto simp: find_Some_iff)
  have n: "takeWhile Q [0..<n] ! j = j" "j < n" if "j < length (takeWhile Q [0..<n])" for j
  proof -
    have "length (takeWhile Q [0..<n]) \<le> n" using length_takeWhile_le [of Q "[0..<n]"] by simp
    with that show "j < n" by simp
    with that show "takeWhile Q [0..<n] ! j = j" by (simp add: takeWhile_nth)
  qed
  have q: "Q j" if "j < length (takeWhile Q [0..<n])" for j
    using nth_mem [OF that] n(1) [OF that] set_takeWhileD by metis
  show ?thesis using k n q by (metis order.strict_trans)
qed



section \<open>Path names\<close>

text \<open>The elements of a path: the non-empty pieces between slashes.\<close>

primrec pieces :: "u8 list \<Rightarrow> u8 list list" where
  "pieces [] = [[]]"
| "pieces (c # cs) = (if c = slash then [] # pieces cs else (c # hd (pieces cs)) # tl (pieces cs))"

definition elements :: "u8 list \<Rightarrow> u8 list list" where
  "elements path = filter (\<lambda>e. e \<noteq> []) (pieces path)"

lemma pieces_not_Nil [simp]: "pieces p \<noteq> []"
  by (cases p) auto

lemma elements_slash: "elements (slash # cs) = elements cs"
  by (simp add: elements_def)

lemma elements_skip: "elements (dropWhile (\<lambda>c. c = slash) p) = elements p"
  by (induction p) (auto simp: elements_slash)

lemma pieces_first: "pieces p = takeWhile (\<lambda>c. c \<noteq> slash) p #
    (case dropWhile (\<lambda>c. c \<noteq> slash) p of [] \<Rightarrow> [] | c # cs \<Rightarrow> pieces cs)"
  by (induction p) auto

lemma elements_first:
  assumes "p \<noteq> []" "hd p \<noteq> slash"
  shows "elements p = takeWhile (\<lambda>c. c \<noteq> slash) p # elements (dropWhile (\<lambda>c. c \<noteq> slash) p)"
proof -
  have "takeWhile (\<lambda>c. c \<noteq> slash) p \<noteq> []" using assms by (cases p) auto
  moreover have "elements (c # cs) = elements cs" if "dropWhile (\<lambda>c. c \<noteq> slash) p = c # cs" for c cs
  proof -
    have "\<not> hd (dropWhile (\<lambda>c. c \<noteq> slash) p) \<noteq> slash" by (rule hd_dropWhile) (simp add: that)
    then show ?thesis using that elements_slash by simp
  qed
  moreover define d where "d = dropWhile (\<lambda>c. c \<noteq> slash) p"
  moreover have "pieces p = takeWhile (\<lambda>c. c \<noteq> slash) p # (case d of [] \<Rightarrow> [] | c # cs \<Rightarrow> pieces cs)"
    unfolding d_def by (rule pieces_first)
  ultimately show ?thesis
    unfolding d_def [symmetric] by (cases d) (simp_all add: elements_def)
qed

text \<open>
  C25. \<open>skipelem\<close> takes a path apart. It fails exactly on a path without elements; otherwise the name
  buffer starts with the first \<open>DIRSIZ\<close> bytes of the first element, terminated if the element is
  shorter, and what remains is a strictly shorter path with the other elements and no leading slash.
\<close>

theorem skipelem_elements:
  assumes "length name = DIRSIZ"
  shows "case skipelem path name of
      None \<Rightarrow> elements path = []
    | Some (rest, name') \<Rightarrow> \<exists>e. elements path = e # elements rest \<and> length rest < length path \<and>
        (rest \<noteq> [] \<longrightarrow> hd rest \<noteq> slash) \<and> length name' = DIRSIZ \<and>
        take (min DIRSIZ (length e)) name' = take DIRSIZ e \<and> (length e < DIRSIZ \<longrightarrow> name' ! length e = 0)"
proof (cases "dropWhile (\<lambda>c. c = slash) path = []")
  case True
  have "elements path = elements []" unfolding True [symmetric] by (rule elements_skip [symmetric])
  moreover have "skipelem path name = None" unfolding skipelem_def True by simp
  ultimately show ?thesis by (simp add: elements_def)
next
  case False
  let ?p = "dropWhile (\<lambda>c. c = slash) path" and ?e = "takeWhile (\<lambda>c. c \<noteq> slash) (dropWhile (\<lambda>c. c = slash) path)"
  let ?d = "dropWhile (\<lambda>c. c \<noteq> slash) ?p"
  have h: "hd ?p \<noteq> slash" by (rule hd_dropWhile [OF False])
  have el: "elements path = ?e # elements (dropWhile (\<lambda>c. c = slash) ?d)"
    using elements_first [OF False h] elements_skip by simp
  have "?e \<noteq> []" using False h by (cases ?p) auto
  moreover have "length ?e + length ?d = length ?p" by (metis length_append takeWhile_dropWhile_id)
  moreover have "length ?p \<le> length path" "length (dropWhile (\<lambda>c. c = slash) ?d) \<le> length ?d"
    by (simp_all add: length_dropWhile_le)
  ultimately have short: "length (dropWhile (\<lambda>c. c = slash) ?d) < length path"
    by (cases ?e) auto
  have rest: "dropWhile (\<lambda>c. c = slash) ?d \<noteq> [] \<longrightarrow> hd (dropWhile (\<lambda>c. c = slash) ?d) \<noteq> slash"
    using hd_dropWhile by blast
  show ?thesis
  proof (cases "DIRSIZ \<le> length ?e")
    case True
    with False el short rest assms show ?thesis by (simp add: skipelem_def splice_def Let_def)
  next
    case less: False
    with False el short rest assms show ?thesis
      by (simp add: skipelem_def splice_def Let_def nth_append)
  qed
qed

theorem skipelem_elements_witness:
  "\<exists>e. elements [97, 47, 98] = e # elements [98] \<and> take (min DIRSIZ (length e)) ([97, 0] @ replicate 12 5) = take DIRSIZ e"
proof -
  have "skipelem [97, 47, 98] (replicate 14 5) = Some ([98], [97, 0] @ replicate 12 5)"
    by (simp add: skipelem_def slash_def splice_def DIRSIZ_def Let_def)
  then show ?thesis using skipelem_elements [of "replicate 14 5" "[97, 47, 98]"] by (auto simp: DIRSIZ_def)
qed


section \<open>The table of inodes\<close>

text \<open>No inode has two entries in use.\<close>

definition itable_inv :: "'a fstate_scheme \<Rightarrow> bool" where
  "itable_inv s \<longleftrightarrow> (\<forall>i < length (itable s). \<forall>j < length (itable s). i \<noteq> j \<longrightarrow>
     0 <s i_ref (itable s ! i) \<longrightarrow> 0 <s i_ref (itable s ! j) \<longrightarrow>
     (i_dev (itable s ! i), i_inum (itable s ! i)) \<noteq> (i_dev (itable s ! j), i_inum (itable s ! j)))"

definition entry_of :: "u32 \<Rightarrow> u32 \<Rightarrow> inode \<Rightarrow> bool" where
  "entry_of dev inum ip \<longleftrightarrow> 0 <s i_ref ip \<and> i_dev ip = dev \<and> i_inum ip = inum"

text \<open>
  C22. \<open>iget\<close> keeps one entry per inode. If the inode is in the table its entry is shared and only its
  reference count changes; otherwise a free entry is taken for it, with one reference and nothing read
  from disk yet; no other entry changes, and the table still has at most one entry in use for each
  inode. It panics only when every entry is referenced.
\<close>

theorem iget_unique:
  assumes inv: "itable_inv s"
  shows "case iget dev inum s of
      Ret ip t \<Rightarrow> itable_inv t \<and> ip < length (itable s) \<and> length (itable t) = length (itable s) \<and>
        i_dev (itable t ! ip) = dev \<and> i_inum (itable t ! ip) = inum \<and> (\<forall>j. j \<noteq> ip \<longrightarrow> itable t ! j = itable s ! j) \<and>
        (if \<exists>x \<in> set (itable s). entry_of dev inum x
         then entry_of dev inum (itable s ! ip) \<and> itable t ! ip = (itable s ! ip)\<lparr>i_ref := i_ref (itable s ! ip) + 1\<rparr>
         else i_ref (itable s ! ip) = 0 \<and> i_ref (itable t ! ip) = 1 \<and> \<not> i_valid (itable t ! ip))
    | Panic m \<Rightarrow> \<forall>x \<in> set (itable s). i_ref x \<noteq> 0
    | _ \<Rightarrow> False"
proof (cases "first_slot (entry_of dev inum) (itable s)")
  case (Some ip)
  then have ip: "ip < length (itable s)" "entry_of dev inum (itable s ! ip)" by (auto simp: first_slot_Some)
  then have ex: "\<exists>x \<in> set (itable s). entry_of dev inum x" using nth_mem by blast
  let ?t = "upd_inode ip (\<lambda>x. x\<lparr>i_ref := i_ref x + 1\<rparr>) s"
  have "iget dev inum s = Ret ip ?t" using Some by (simp add: iget_def entry_of_def [abs_def])
  moreover have "itable_inv ?t"
    using inv ip unfolding itable_inv_def entry_of_def by (auto simp: upd_inode_def nth_list_update)
  ultimately show ?thesis using ip ex by (auto simp: upd_inode_def nth_list_update entry_of_def)
next
  case None
  then have no: "\<not> (\<exists>x \<in> set (itable s). entry_of dev inum x)" by (simp add: first_slot_None)
  show ?thesis
  proof (cases "first_slot (\<lambda>ip. i_ref ip = 0) (itable s)")
    case (Some ip)
    then have ip: "ip < length (itable s)" "i_ref (itable s ! ip) = 0" by (auto simp: first_slot_Some)
    let ?t = "upd_inode ip (\<lambda>x. x\<lparr>i_dev := dev, i_inum := inum, i_ref := 1, i_valid := False\<rparr>) s"
    have "iget dev inum s = Ret ip ?t" using None Some by (simp add: iget_def entry_of_def [abs_def])
    moreover have "itable_inv ?t"
    proof -
      have other: "\<not> entry_of dev inum (itable s ! j)" if "j < length (itable s)" for j using no that by simp
      then show ?thesis using inv ip unfolding itable_inv_def entry_of_def
        by (auto simp: upd_inode_def nth_list_update)
    qed
    ultimately show ?thesis using ip no by (auto simp: upd_inode_def nth_list_update)
  next
    case full: None
    then have "iget dev inum s = Panic ''iget: no inodes''" using None by (simp add: iget_def entry_of_def [abs_def])
    with full show ?thesis by (simp add: first_slot_None)
  qed
qed

theorem iget_unique_witness:
  "case iget 1 5 demo_fstate of Ret ip t \<Rightarrow> itable_inv t \<and> i_inum (itable t ! ip) = 5 | _ \<Rightarrow> False"
proof -
  have "itable_inv demo_fstate" by (simp add: itable_inv_def demo_fstate_defs less_Suc_eq)
  from iget_unique [OF this, of 1 5] show ?thesis
    by (auto split: run.splits simp: demo_fstate_defs)
qed

end
