(* ===== verification/Diskdriver.thy ===== *)
theory Diskdriver
  imports Virtio Pipefifo
begin

text \<open>
  The virtio driver does what the buffer cache relies on: a request, the device's work, the completion
  interrupt and the end of the request together have the effect \<open>disk_transfer\<close> on buffers and disk.
  The device is a parameter; what the driver relies on is \<open>serves\<close>.
\<close>

section \<open>The device\<close>

text \<open>A well-formed request chain at head \<open>i0\<close>, as section 5.2 of the virtio specification has it.\<close>

definition chain_at :: "nat \<Rightarrow> nat \<Rightarrow> bool \<Rightarrow> u64 \<Rightarrow> 'a vstate_scheme \<Rightarrow> bool" where
  "chain_at i0 b write sector s \<longleftrightarrow>
     (let d0 = vd_desc s ! i0; d1 = vd_desc s ! unat (vq_next d0); d2 = vd_desc s ! unat (vq_next d1)
      in vq_addr d0 = OpsAddr i0 \<and> vq_flags d0 = VRING_DESC_F_NEXT \<and>
         vd_ops s ! i0 = \<lparr>req_type = (if write then VIRTIO_BLK_T_OUT else VIRTIO_BLK_T_IN), req_reserved = 0, req_sector = sector\<rparr> \<and>
         vq_addr d1 = DataAddr b \<and> vq_len d1 = of_nat BSIZE \<and>
         vq_flags d1 = (if write then 0 else VRING_DESC_F_WRITE) OR VRING_DESC_F_NEXT \<and>
         vq_addr d2 = StatusAddr i0 \<and> vq_len d2 = 1 \<and> vq_flags d2 = VRING_DESC_F_WRITE)"

text \<open>What the device does with it: the transfer, the status byte, and an entry in the used ring.\<close>

definition completed :: "nat \<Rightarrow> nat \<Rightarrow> bool \<Rightarrow> u64 \<Rightarrow> 'a vstate_scheme \<Rightarrow> 'a vstate_scheme" where
  "completed i0 b write sector s =
     (let s = (if write
               then s\<lparr>disk := (disk s)(sector := b_data (bufs s ! b)), dwrites := dwrites s @ [(sector, b_data (bufs s ! b))]\<rparr>
               else upd_buf b (\<lambda>x. x\<lparr>b_data := disk s sector\<rparr>) s)
      in s\<lparr>info_status := (info_status s)[i0 := 0],
           vused_ring := (vused_ring s)[ring_index NUM (vused_idx s) := of_nat i0], vused_idx := vused_idx s + 1\<rparr>)"

definition serves :: "('a vstate_scheme \<Rightarrow> 'a vstate_scheme) \<Rightarrow> bool" where
  "serves dev \<longleftrightarrow> (\<forall>s i0 b write sector.
     avail_ring s ! ring_index NUM (avail_idx s - 1) = of_nat i0 \<longrightarrow> i0 < NUM \<longrightarrow> chain_at i0 b write sector s \<longrightarrow>
     dev s = completed i0 b write sector s)"

section \<open>Descriptors\<close>

definition vdisk_inv :: "'a vstate_scheme \<Rightarrow> bool" where
  "vdisk_inv s \<longleftrightarrow> length (vd_desc s) = 256 \<and> length (vd_free s) = NUM \<and> length (avail_ring s) = NUM \<and>
     length (vused_ring s) = NUM \<and> length (info_b s) = NUM \<and> length (info_status s) = NUM \<and> length (vd_ops s) = NUM"

definition nfree :: "'a vstate_scheme \<Rightarrow> nat" where
  "nfree s = length (filter (\<lambda>f. f) (vd_free s))"

lemma filter_update_False:
  "i < length xs \<Longrightarrow> xs ! i \<Longrightarrow> length (filter (\<lambda>f. f) (xs[i := False])) = length (filter (\<lambda>f. f) xs) - 1"
proof (induction xs arbitrary: i)
  case (Cons x xs)
  show ?case
  proof (cases i)
    case (Suc j)
    with Cons have "0 < length (filter (\<lambda>f. f) xs)" using nth_mem [of j xs] by (auto simp: filter_empty_conv)
    with Suc Cons show ?thesis by auto
  qed (use Cons in simp)
qed simp

lemma alloc_desc_ok:
  assumes "0 < nfree s" "length (vd_free s) = NUM"
  obtains i where "i < NUM" "vd_free s ! i" "alloc_desc s = (Some i, s\<lparr>vd_free := (vd_free s)[i := False]\<rparr>)"
    "nfree (s\<lparr>vd_free := (vd_free s)[i := False]\<rparr>) = nfree s - 1"
proof -
  from assms(1) have "\<exists>f \<in> set (vd_free s). f" by (auto simp: nfree_def filter_empty_conv)
  then have "first_slot (\<lambda>f. f) (vd_free s) \<noteq> None" by (auto simp: first_slot_None)
  then obtain i where i: "first_slot (\<lambda>f. f) (vd_free s) = Some i" by blast
  then have "i < length (vd_free s)" "vd_free s ! i" by (auto simp: first_slot_Some)
  with i assms(2) show thesis by (intro that [of i]) (simp_all add: alloc_desc_def nfree_def filter_update_False)
qed

lemma alloc3_desc_ok:
  assumes "3 \<le> nfree s" "length (vd_free s) = NUM"
  obtains i0 i1 i2 where "i0 < NUM" "i1 < NUM" "i2 < NUM" "distinct [i0, i1, i2]" "vd_free s ! i0" "vd_free s ! i1" "vd_free s ! i2"
    "alloc3_desc s = Ret (Some [i0, i1, i2]) (s\<lparr>vd_free := (vd_free s)[i0 := False, i1 := False, i2 := False]\<rparr>)"
proof -
  obtain i0 where 0: "i0 < NUM" "vd_free s ! i0" "alloc_desc s = (Some i0, s\<lparr>vd_free := (vd_free s)[i0 := False]\<rparr>)"
    "nfree (s\<lparr>vd_free := (vd_free s)[i0 := False]\<rparr>) = nfree s - 1"
    using alloc_desc_ok [of s] assms by auto
  define t where "t = s\<lparr>vd_free := (vd_free s)[i0 := False]\<rparr>"
  have t: "0 < nfree t" "length (vd_free t) = NUM" using 0(4) assms by (simp_all add: t_def)
  obtain i1 where 1: "i1 < NUM" "vd_free t ! i1" "alloc_desc t = (Some i1, t\<lparr>vd_free := (vd_free t)[i1 := False]\<rparr>)"
    "nfree (t\<lparr>vd_free := (vd_free t)[i1 := False]\<rparr>) = nfree t - 1"
    using alloc_desc_ok [OF t] .
  define u where "u = t\<lparr>vd_free := (vd_free t)[i1 := False]\<rparr>"
  have u: "0 < nfree u" "length (vd_free u) = NUM" using 0(4) 1(4) t assms by (simp_all add: t_def u_def)
  obtain i2 where 2: "i2 < NUM" "vd_free u ! i2" "alloc_desc u = (Some i2, u\<lparr>vd_free := (vd_free u)[i2 := False]\<rparr>)"
    using alloc_desc_ok [OF u] by metis
  have d: "i0 \<noteq> i1" "i0 \<noteq> i2" "i1 \<noteq> i2" using 0(1) 1(1,2) 2(1,2) assms(2) by (auto simp: t_def u_def nth_list_update split: if_splits)
  have "alloc3_desc s = Ret (Some [i0, i1, i2]) (s\<lparr>vd_free := (vd_free s)[i0 := False, i1 := False, i2 := False]\<rparr>)"
    using 0(3) 1(3) 2(3) by (simp add: alloc3_desc_def numeral_3_eq_3 t_def u_def)
  moreover have "vd_free s ! i1" "vd_free s ! i2" using 1(2) 2(2) d by (auto simp: t_def u_def)
  ultimately show thesis using that [of i0 i1 i2] 0 1 2 d by auto
qed

section \<open>A request from start to end\<close>

definition posted :: "nat \<Rightarrow> bool \<Rightarrow> nat \<Rightarrow> nat \<Rightarrow> nat \<Rightarrow> 'a vstate_scheme \<Rightarrow> 'a vstate_scheme" where
  "posted b write i0 i1 i2 s =
     (let s = format_desc b write i0 i1 i2 (s\<lparr>vd_free := (vd_free s)[i0 := False, i1 := False, i2 := False]\<rparr>);
          s = upd_buf b (\<lambda>x. x\<lparr>b_disk := True\<rparr>) s
      in s\<lparr>info_b := (info_b s)[i0 := Some b], avail_ring := (avail_ring s)[ring_index NUM (avail_idx s) := of_nat i0],
           avail_idx := avail_idx s + 1, vd_regs := vd_regs s @ [(VIRTIO_MMIO_QUEUE_NOTIFY, 0)]\<rparr>)"

lemma virtio_request_posted:
  assumes "alloc3_desc s = Ret (Some [i0, i1, i2]) (s\<lparr>vd_free := (vd_free s)[i0 := False, i1 := False, i2 := False]\<rparr>)"
  shows "virtio_request b write s = Ret i0 (posted b write i0 i1 i2 s)"
  using assms by (simp add: virtio_request_def posted_def vwrite_def Let_def upd_buf_def format_desc_def)

lemma unat_small16: "i < NUM \<Longrightarrow> unat (of_nat i :: u16) = i"
  by (simp add: NUM_def unat_of_nat take_bit_nat_eq_self)

lemma unat_small32: "i < NUM \<Longrightarrow> unat (of_nat i :: u32) = i"
  by (simp add: NUM_def unat_of_nat take_bit_nat_eq_self)

lemma ring_index_less: "0 < n \<Longrightarrow> ring_index n i < n"
  by (simp add: ring_index_def)

lemma posted_fields:
  assumes "vdisk_inv s" "i0 < NUM" "i1 < NUM" "i2 < NUM" "distinct [i0, i1, i2]"
  shows "chain_at i0 b write (sector_of (b_blockno (bufs s ! b))) (posted b write i0 i1 i2 s)"
    and "avail_ring (posted b write i0 i1 i2 s) ! ring_index NUM (avail_idx (posted b write i0 i1 i2 s) - 1) = of_nat i0"
    and "vdisk_inv (posted b write i0 i1 i2 s)"
proof -
  have n: "NUM < 256" "0 < NUM" by (simp_all add: NUM_def)
  show "chain_at i0 b write (sector_of (b_blockno (bufs s ! b))) (posted b write i0 i1 i2 s)"
    using assms n by (simp add: chain_at_def posted_def Let_def format_desc_def upd_buf_def vdisk_inv_def unat_small16)
  show "avail_ring (posted b write i0 i1 i2 s) ! ring_index NUM (avail_idx (posted b write i0 i1 i2 s) - 1) = of_nat i0"
    using assms n ring_index_less [of NUM "avail_idx s"] by (simp add: posted_def Let_def format_desc_def upd_buf_def vdisk_inv_def)
  show "vdisk_inv (posted b write i0 i1 i2 s)"
    using assms by (simp add: posted_def Let_def format_desc_def upd_buf_def vdisk_inv_def)
qed

text \<open>One completion is one round of the interrupt handler.\<close>

lemma virtio_disk_intr_one:
  assumes "vused_idx s = used_idx s + 1" "vused_ring s ! ring_index NUM (used_idx s) = of_nat i0" "i0 < NUM"
    "vdisk_inv s" "info_status s ! i0 = 0" "info_b s ! i0 = Some b"
  shows "\<exists>ps regs tm. virtio_disk_intr s =
      Ret () ((upd_buf b (\<lambda>x. x\<lparr>b_disk := False\<rparr>) s)\<lparr>procs := ps, used_idx := vused_idx s, vd_time := tm, vd_regs := regs\<rparr>)"
proof -
  have n: "used_idx s \<noteq> used_idx s + 1" by simp
  have l: "i0 < length (info_status s)" using assms(3,4) by (simp add: vdisk_inv_def)
  let ?v = "upd_buf b (\<lambda>x. x\<lparr>b_disk := False\<rparr>) s"
  have "\<exists>t. virtio_disk_intr s = Ret () t \<and>
      t = ?v\<lparr>procs := procs t, used_idx := vused_idx s, vd_time := vd_time t, vd_regs := vd_regs t\<rparr>"
    using assms l n
    by (simp add: virtio_disk_intr_def vread_def vwrite_def loop_unfold Let_def unat_small32 index_def wakeup_def upd_buf_def)
  then show ?thesis by metis
qed

lemma free_chain_three:
  assumes "vdisk_inv s" "i0 < NUM" "i1 < NUM" "i2 < NUM" "distinct [i0, i1, i2]"
    "\<not> vd_free s ! i0" "\<not> vd_free s ! i1" "\<not> vd_free s ! i2"
    "vq_flags (vd_desc s ! i0) AND VRING_DESC_F_NEXT \<noteq> 0" "vq_next (vd_desc s ! i0) = of_nat i1"
    "vq_flags (vd_desc s ! i1) AND VRING_DESC_F_NEXT \<noteq> 0" "vq_next (vd_desc s ! i1) = of_nat i2"
    "vq_flags (vd_desc s ! i2) AND VRING_DESC_F_NEXT = 0"
  shows "\<exists>ps. free_chain i0 s = Ret () (s\<lparr>procs := ps, vd_desc := (vd_desc s)[i0 := null_desc, i1 := null_desc, i2 := null_desc],
      vd_free := (vd_free s)[i0 := True, i1 := True, i2 := True]\<rparr>)"
proof -
  have n: "Suc NUM = 9" by (simp add: NUM_def)
  have l: "i0 < length (vd_desc s)" "i1 < length (vd_desc s)" "i2 < length (vd_desc s)" using assms(1-4) by (simp_all add: vdisk_inv_def NUM_def)
  have "\<exists>t. free_chain i0 s = Ret () t \<and> t = s\<lparr>procs := procs t,
      vd_desc := (vd_desc s)[i0 := null_desc, i1 := null_desc, i2 := null_desc], vd_free := (vd_free s)[i0 := True, i1 := True, i2 := True]\<rparr>"
    unfolding free_chain_def n using assms l by (simp add: loop_unfold index_def free_desc_def wakeup_def unat_small16)
  then show ?thesis by metis
qed


lemma completed_fields:
  assumes "serves dev" "vdisk_inv s" "i0 < NUM" "i1 < NUM" "i2 < NUM" "distinct [i0, i1, i2]"
    and p: "p = posted b write i0 i1 i2 s"
  shows "dev p = completed i0 b write (sector_of (b_blockno (bufs s ! b))) p"
  using assms posted_fields [OF assms(2-6)] unfolding serves_def by blast

definition virtio_round_trip ::
  "('a vstate_scheme \<Rightarrow> 'a vstate_scheme) \<Rightarrow> nat \<Rightarrow> bool \<Rightarrow> 'a vstate_scheme \<Rightarrow> (unit, 'a vstate_scheme) run" where
  "virtio_round_trip dev b write s =
     bnd (virtio_request b write s) (\<lambda>i0 s.
     bnd (virtio_disk_intr (dev s)) (\<lambda>_ s.
     bnd (virtio_wait b s) (\<lambda>_ s.
     virtio_end i0 s)))"

text \<open>The request is posted, the device works, the interrupt comes: the waiting process goes on.\<close>

lemma virtio_served:
  assumes dev: "serves dev" and inv: "vdisk_inv s" and idle: "used_idx s = vused_idx s"
    and b: "b < length (bufs s)" "\<not> b_disk (bufs s ! b)"
    and i: "i0 < NUM" "i1 < NUM" "i2 < NUM" "distinct [i0, i1, i2]" and p: "p = posted b write i0 i1 i2 s"
  shows "\<exists>d. virtio_disk_intr (dev p) = Ret () d \<and> virtio_wait b d = Ret () d \<and>
     bufs d = bufs (disk_transfer b write s) \<and> disk d = disk (disk_transfer b write s) \<and>
     dwrites d = dwrites (disk_transfer b write s) \<and> vd_desc d = vd_desc p \<and> vd_free d = vd_free p \<and>
     used_idx d = vused_idx d \<and> vdisk_inv d"
proof -
  define c where "c = completed i0 b write (sector_of (b_blockno (bufs s ! b))) p"
  have "dev p = c" unfolding c_def by (rule completed_fields [OF dev inv i p])
  have ri: "ring_index NUM (vused_idx s) < NUM" by (rule ring_index_less) (simp add: NUM_def)
  note defs = c_def completed_def p posted_def format_desc_def upd_buf_def Let_def
  have pc: "vused_idx c = used_idx c + 1" "vused_ring c ! ring_index NUM (used_idx c) = of_nat i0" "vdisk_inv c"
    "info_status c ! i0 = 0" "info_b c ! i0 = Some b"
    using inv idle i ri by (simp_all add: defs vdisk_inv_def)
  from virtio_disk_intr_one [OF pc(1,2) i(1) pc(3-5)] obtain ps regs tm where
    intr: "virtio_disk_intr c = Ret () ((upd_buf b (\<lambda>x. x\<lparr>b_disk := False\<rparr>) c)\<lparr>procs := ps, used_idx := vused_idx c, vd_time := tm, vd_regs := regs\<rparr>)"
    by blast
  define d where "d = (upd_buf b (\<lambda>x. x\<lparr>b_disk := False\<rparr>) c)\<lparr>procs := ps, used_idx := vused_idx c, vd_time := tm, vd_regs := regs\<rparr>"
  have lb: "length (bufs c) = length (bufs s)" by (simp add: defs)
  have eq: "(bufs s ! b)\<lparr>b_disk := False\<rparr> = bufs s ! b" "\<And>x. (bufs s ! b)\<lparr>b_data := x, b_disk := False\<rparr> = (bufs s ! b)\<lparr>b_data := x\<rparr>"
    using b(2) by (simp_all add: buf.equality)
  have "bufs d = bufs (disk_transfer b write s)" "disk d = disk (disk_transfer b write s)"
    "dwrites d = dwrites (disk_transfer b write s)" "vd_desc d = vd_desc p" "vd_free d = vd_free p"
    "used_idx d = vused_idx d" "vdisk_inv d" "virtio_wait b d = Ret () d"
    using b(1) lb pc(3) by (auto simp: d_def defs disk_transfer_def eq vdisk_inv_def virtio_wait_def)
  with intr \<open>dev p = c\<close> show ?thesis unfolding d_def by blast
qed

text \<open>Then the chain goes back to the free descriptors.\<close>

lemma virtio_end_frees:
  assumes inv: "vdisk_inv s" "vdisk_inv d" and i: "i0 < NUM" "i1 < NUM" "i2 < NUM" "distinct [i0, i1, i2]"
    and fr: "vd_free s ! i0" "vd_free s ! i1" "vd_free s ! i2"
    and d: "vd_desc d = vd_desc (posted b write i0 i1 i2 s)" "vd_free d = vd_free (posted b write i0 i1 i2 s)"
  shows "\<exists>t. virtio_end i0 d = Ret () t \<and> bufs t = bufs d \<and> disk t = disk d \<and> dwrites t = dwrites d \<and>
     vd_free t = vd_free s \<and> used_idx t = used_idx d \<and> vused_idx t = vused_idx d \<and> vdisk_inv t"
proof -
  define e where "e = d\<lparr>info_b := (info_b d)[i0 := None]\<rparr>"
  have dd: "vd_desc e = vd_desc (posted b write i0 i1 i2 s)" "vd_free e = vd_free (posted b write i0 i1 i2 s)" using d by (simp_all add: e_def)
  have len: "i0 < length (vd_desc s)" "i1 < length (vd_desc s)" "i2 < length (vd_desc s)"
    "i0 < length (vd_free s)" "i1 < length (vd_free s)" "i2 < length (vd_free s)" using inv(1) i by (simp_all add: vdisk_inv_def NUM_def)
  have ie: "vdisk_inv e" using inv(2) by (simp add: e_def vdisk_inv_def)
  have de: "\<not> vd_free e ! i0" "\<not> vd_free e ! i1" "\<not> vd_free e ! i2"
    "vq_flags (vd_desc e ! i0) AND VRING_DESC_F_NEXT \<noteq> 0" "vq_next (vd_desc e ! i0) = of_nat i1"
    "vq_flags (vd_desc e ! i1) AND VRING_DESC_F_NEXT \<noteq> 0" "vq_next (vd_desc e ! i1) = of_nat i2"
    "vq_flags (vd_desc e ! i2) AND VRING_DESC_F_NEXT = 0"
    using i fr len unfolding dd
    by (auto simp: posted_def format_desc_def upd_buf_def Let_def nth_list_update VRING_DESC_F_NEXT_def VRING_DESC_F_WRITE_def)
  have rest: "(vd_free e)[i0 := True, i1 := True, i2 := True] = vd_free s"
    unfolding dd using fr len by (intro nth_equalityI) (simp_all add: posted_def format_desc_def upd_buf_def Let_def nth_list_update, metis)
  from free_chain_three [OF ie i de] obtain qs where
    "virtio_end i0 d = Ret () (e\<lparr>procs := qs, vd_desc := (vd_desc e)[i0 := null_desc, i1 := null_desc, i2 := null_desc], vd_free := vd_free s\<rparr>)"
    unfolding virtio_end_def e_def [symmetric] rest by blast
  with ie inv(1) show ?thesis by (simp add: e_def vdisk_inv_def)
qed

text \<open>
  C7. With a device that serves its queue, a request made when three descriptors are free and no
  completion is pending returns, and has exactly the effect \<open>disk_transfer\<close> on the buffers and the
  disk, which is what the model of the buffer cache takes the driver to do; all descriptors it took
  are free again and no completion is pending.
\<close>

theorem virtio_transfers:
  assumes dev: "serves dev" and inv: "vdisk_inv s" and free: "3 \<le> nfree s" and idle: "used_idx s = vused_idx s"
    and b: "b < length (bufs s)" "\<not> b_disk (bufs s ! b)"
  shows "\<exists>t. virtio_round_trip dev b write s = Ret () t \<and> bufs t = bufs (disk_transfer b write s) \<and>
     disk t = disk (disk_transfer b write s) \<and> dwrites t = dwrites (disk_transfer b write s) \<and>
     vd_free t = vd_free s \<and> used_idx t = vused_idx t \<and> vdisk_inv t"
proof -
  have "length (vd_free s) = NUM" using inv by (simp add: vdisk_inv_def)
  from alloc3_desc_ok [OF free this] obtain i0 i1 i2 where i: "i0 < NUM" "i1 < NUM" "i2 < NUM" "distinct [i0, i1, i2]"
    and fr: "vd_free s ! i0" "vd_free s ! i1" "vd_free s ! i2"
    and al: "alloc3_desc s = Ret (Some [i0, i1, i2]) (s\<lparr>vd_free := (vd_free s)[i0 := False, i1 := False, i2 := False]\<rparr>)" .
  from virtio_served [OF dev inv idle b i refl] obtain d where d:
    "virtio_disk_intr (dev (posted b write i0 i1 i2 s)) = Ret () d" "virtio_wait b d = Ret () d"
    "bufs d = bufs (disk_transfer b write s)" "disk d = disk (disk_transfer b write s)" "dwrites d = dwrites (disk_transfer b write s)"
    "vd_desc d = vd_desc (posted b write i0 i1 i2 s)" "vd_free d = vd_free (posted b write i0 i1 i2 s)"
    "used_idx d = vused_idx d" "vdisk_inv d" by blast
  from virtio_end_frees [OF inv d(9) i fr d(6,7)] obtain t where "virtio_end i0 d = Ret () t" "bufs t = bufs d" "disk t = disk d"
    "dwrites t = dwrites d" "vd_free t = vd_free s" "used_idx t = used_idx d" "vused_idx t = vused_idx d" "vdisk_inv t" by blast
  with d show ?thesis by (simp add: virtio_round_trip_def virtio_request_posted [OF al])
qed

text \<open>A device that reads the chain and serves it, on a machine right after \<open>virtio_disk_init\<close>.\<close>

definition demo_device :: "vstate \<Rightarrow> vstate" where
  "demo_device s =
     (let i0 = unat (avail_ring s ! ring_index NUM (avail_idx s - 1));
          r = vd_ops s ! i0
      in case vq_addr (vd_desc s ! unat (vq_next (vd_desc s ! i0))) of
           DataAddr b \<Rightarrow> completed i0 b (req_type r = VIRTIO_BLK_T_OUT) (req_sector r) s
         | _ \<Rightarrow> s)"

lemma demo_device_serves: "serves demo_device"
  unfolding serves_def
  by (auto simp: demo_device_def chain_at_def Let_def unat_small16 VIRTIO_BLK_T_OUT_def VIRTIO_BLK_T_IN_def)

definition demo_vstate :: vstate where
  "demo_vstate = kstate.extend (demo_kstate\<lparr>bufs := replicate NBUF \<lparr>b_valid = False, b_disk = False, b_dev = 0,
       b_blockno = 0, b_lock = initsleeplock, b_refcnt = 0, b_prev = 0, b_next = 0, b_data = replicate BSIZE 0\<rparr>\<rparr>) (vstate.fields (replicate 256 null_desc) 0 (replicate NUM 0) 0 (replicate NUM 0)
     (replicate NUM True) 0 (replicate NUM None) (replicate NUM 0) (replicate NUM \<lparr>req_type = 0, req_reserved = 0, req_sector = 0\<rparr>)
     0x80001000 0x80002000 0x80003000 (\<lambda>_ _. 0) 0 [])"

theorem virtio_transfers_witness:
  "\<exists>t. virtio_round_trip demo_device 3 True demo_vstate = Ret () t \<and> bufs t = bufs (disk_transfer 3 True demo_vstate) \<and>
     disk t = disk (disk_transfer 3 True demo_vstate) \<and> dwrites t = dwrites (disk_transfer 3 True demo_vstate) \<and>
     vd_free t = vd_free demo_vstate \<and> used_idx t = vused_idx t \<and> vdisk_inv t"
  by (rule virtio_transfers [OF demo_device_serves])
    (simp_all add: vdisk_inv_def nfree_def demo_vstate_def vstate.defs demo_kstate_defs NUM_def NBUF_def MAXOPBLOCKS_def)

end
