(* ===== verification/Callspec.thy ===== *)
theory Callspec
  imports Syscall Pipefifo
begin

text \<open>
  What the system calls promise at their edges: unknown numbers, and the indices of the metrics calls.
\<close>

section \<open>Unknown system calls\<close>

lemma syscalls_numbers: "map fst syscalls = map word_of_nat [1..<31]"
  by (simp add: syscalls_def params upt_rec)

lemma number_range: "(num :: u32) \<in> word_of_nat ` {1..<31} \<longleftrightarrow> \<not> (num = 0 \<or> 30 < num)"
proof -
  have "num \<in> word_of_nat ` {1..<31} \<longleftrightarrow> unat num \<in> {1..<31}"
  proof
    assume "num \<in> word_of_nat ` {1..<31}"
    then obtain k where "k \<in> {1..<31 :: nat}" "num = word_of_nat k" by blast
    then show "unat num \<in> {1..<31}" by (simp add: unat_of_nat take_bit_nat_eq_self)
  next
    assume "unat num \<in> {1..<31}"
    then show "num \<in> word_of_nat ` {1..<31}" by (intro image_eqI [of _ _ "unat num"]) simp_all
  qed
  also have "\<dots> \<longleftrightarrow> \<not> (num = 0 \<or> 30 < num)"
    by (auto simp: word_less_nat_alt unat_gt_0 Suc_le_eq)
  finally show ?thesis .
qed

lemma syscalls_dom:
  "map_of (syscalls :: (u32 \<times> ('a kstate_scheme \<Rightarrow> (u64, 'a kstate_scheme) run)) list) num = None \<longleftrightarrow> num = 0 \<or> 30 < num"
proof -
  let ?t = "syscalls :: (u32 \<times> ('a kstate_scheme \<Rightarrow> (u64, 'a kstate_scheme) run)) list"
  have "fst ` set ?t = word_of_nat ` {1..<31}"
    using syscalls_numbers [where 'a = 'a] by (metis list.set_map set_upt)
  then show ?thesis using number_range [of num] by (simp add: map_of_eq_None_iff)
qed

lemma text_char: "c \<noteq> 37 \<Longrightarrow> text_of (c # rest) ap = map_option (Cons c) (text_of rest ap)"
  by (subst text_of.simps) simp

lemma text_int:
  "text_of (37 # 100 # rest) (VNum a # ap) = map_option ((@) (rev (int_buf (as_int a) 10 True))) (text_of rest ap)"
  using int_fits [of a] by (subst text_of.simps) (simp add: byte_at_def conversion_def conv_text_def int_text_def)

lemma text_str: "text_of (37 # 115 # rest) (VStr (Some t) # ap) = map_option ((@) t) (text_of rest ap)"
  by (subst text_of.simps) (simp add: byte_at_def conversion_def conv_text_def)

lemma unknown_text:
  "text_of (str ''%d %s: unknown sys call %d'' @ [newline]) [VNum a, VStr (Some t), VNum b] =
     Some (rev (int_buf (as_int a) 10 True) @ [32] @ t @ str '': unknown sys call '' @ rev (int_buf (as_int b) 10 True) @ [newline])"
  by (simp add: str_def text_char text_int text_str newline_def text_of.simps [of "[]"])


text \<open>
  C33. A system call with a number outside of the table is an error and nothing else: a message with the process
  and the number goes to the console, register a0 becomes -1, and the rest of the state stays.
\<close>

theorem syscall_unknown:
  assumes "uart_idle s" "\<not> panicked s" "myproc s = Some p"
    and num: "num = (ucast (get_tf s p (tf_a 7)) :: u32)" "num = 0 \<or> 30 < num"
  shows "syscall s =
    (let t = rev (int_buf (as_int (ucast (p_pid (procs s ! p)))) 10 True) @ [32] @ p_name (procs s ! p) @
             str '': unknown sys call '' @ rev (int_buf (as_int (ucast num)) 10 True) @ [newline]
     in Ret () (set_tf p (tf_a 0) (- 1) (s\<lparr>uart_time := uart_time s + length t, uart_regs := uart_regs s @ map (Pair THR) t\<rparr>)))"
proof -
  have "map_of (syscalls :: (u32 \<times> ('a kstate_scheme \<Rightarrow> (u64, 'a kstate_scheme) run)) list) num = None"
    using num(2) by (simp add: syscalls_dom)
  then show ?thesis
    using assms(1-3) unfolding num(1)
    by (simp add: syscall_def with_proc_def Let_def printf_emit can_print_def unknown_text emit_def)
qed

section \<open>The indices of the metrics calls\<close>

lemma sint_nonneg: "0 \<le> sint (k :: u32) \<Longrightarrow> sint k = int (unat k)"
proof -
  define j where "j = sint k"
  have k: "k = word_of_int j" by (simp add: j_def)
  assume "0 \<le> sint k"
  then have "0 \<le> j" "j < 2 ^ 31" using sint_less [of k] by (simp_all add: j_def)
  then have "uint k = j" unfolding k by (simp add: uint_word_of_int)
  then show ?thesis by (simp add: j_def)
qed

lemma at_int_Undef: "at_int xs k (\<lambda>i. Ret (f i) (g i)) = Undef \<longleftrightarrow> \<not> (0 \<le> sint k \<and> sint k < int (length xs))"
proof (cases "0 \<le> sint k")
  case True
  then have "sint k < int (length xs) \<longleftrightarrow> unat k < length xs" by (simp only: sint_nonneg of_nat_less_iff)
  with True show ?thesis by (simp add: at_int_def word_sless_alt)
qed (simp add: at_int_def word_sless_alt)




theorem syscall_unknown_witness:
  "\<exists>t. syscall (demo_user\<lparr>uart_dev := \<lambda>_ _. LSR_TX_IDLE, panicked := False,
      phys := store64 (phys demo_user) (p_trapframe (procs demo_user ! 1) + tf_a 7) 31\<rparr>) = Ret () t"
proof -
  let ?s = "demo_user\<lparr>uart_dev := \<lambda>_ _. LSR_TX_IDLE, panicked := False,
      phys := store64 (phys demo_user) (p_trapframe (procs demo_user ! 1) + tf_a 7) 31\<rparr>"
  have m: "myproc ?s = Some 1" by (simp add: demo_kstate_defs myproc_def)
  have "get_tf ?s 1 (tf_a 7) = 31" by (simp add: get_tf_def load64_store64_same)
  then have k: "(31 :: u32) = ucast (get_tf ?s 1 (tf_a 7))" by simp
  have i: "uart_idle ?s" "\<not> panicked ?s" by (simp_all add: uart_idle_def LSR_TX_IDLE_def)
  from syscall_unknown [OF i m k] show ?thesis by (simp add: Let_def)
qed

end
