(* ===== verification/Randgen.thy ===== *)
theory Randgen
  imports Prelude
begin

text \<open>
  The random numbers of the experiment programs (user/graphs.c, user/rows.c, user/run_experiment.c
  and user/grind.c carry the same routine). All intermediate values fit in a \<open>long\<close>, so they are integers here.
\<close>

definition do_rand :: "u64 \<Rightarrow> int \<times> u64" where
  "do_rand ctx =
     (let x = uint (ctx mod 0x7ffffffe) + 1;
          hi = x div 127773;
          lo = x mod 127773;
          x = 16807 * lo - 2836 * hi;
          x = (if x < 0 then x + 0x7fffffff else x);
          x = x - 1
      in (x, word_of_int x))"

text \<open>The multiplicative generator: \<open>16807 x mod (2^31 - 1)\<close>, shifted by one.\<close>

definition minimal_standard :: "int \<Rightarrow> int" where
  "minimal_standard x = 16807 * (x + 1) mod 0x7fffffff - 1"

lemma coprime_modulus: "coprime (0x7fffffff :: int) 16807"
  by (simp add: coprime_iff_gcd_eq_1 gcd_code_int gcd_red_int)

lemma schrage:
  assumes "0 < x" "x < (0x7fffffff :: int)"
  defines "y \<equiv> 16807 * (x mod 127773) - 2836 * (x div 127773)"
  shows "(if y < 0 then y + 0x7fffffff else y) = 16807 * x mod 0x7fffffff"
    and "0 < 16807 * x mod 0x7fffffff"
proof -
  define q r where "q = x div 127773" and "r = x mod 127773"
  have x: "x = 127773 * q + r" by (simp add: q_def r_def)
  have r: "0 \<le> r" "r < 127773" by (simp_all add: r_def)
  have q: "0 \<le> q" "q \<le> 16807" using assms(1,2) unfolding q_def by auto
  have yr: "y = 16807 * r - 2836 * q" by (simp add: y_def q_def r_def)
  have y: "y = 16807 * x + (- q) * 0x7fffffff" using yr x by simp
  have "\<not> 0x7fffffff dvd 16807 * x"
    using assms(1,2) zdvd_not_zless coprime_modulus by (metis coprime_dvd_mult_right_iff)
  then show pos: "0 < 16807 * x mod 0x7fffffff" by (simp add: dvd_eq_mod_eq_0 less_le)
  have m: "16807 * x mod 0x7fffffff = y mod 0x7fffffff" unfolding y by (simp only: mod_mult_self1)
  show "(if y < 0 then y + 0x7fffffff else y) = 16807 * x mod 0x7fffffff"
  proof (cases "y < 0")
    case True
    moreover have "- 0x7fffffff < y" using yr r q by linarith
    ultimately have "(y + 0x7fffffff) mod 0x7fffffff = y + 0x7fffffff" by (intro mod_pos_pos_trivial) auto
    with True show ?thesis by (simp add: m)
  next
    case False
    then show ?thesis using yr r q by (simp add: m mod_pos_pos_trivial)
  qed
qed


lemma do_rand_step:
  assumes "uint c < 0x7ffffffe"
  shows "fst (do_rand c) = minimal_standard (uint c)" "0 \<le> fst (do_rand c)" "fst (do_rand c) < 0x7ffffffe"
    "uint (snd (do_rand c)) = fst (do_rand c)"
proof -
  have "uint (c mod 0x7ffffffe) = uint c" using assms by (simp add: uint_mod)
  moreover have "16807 * (uint c + 1) mod 0x7fffffff < (0x7fffffff :: int)" by simp
  moreover note schrage [of "uint c + 1"] assms
  ultimately show "fst (do_rand c) = minimal_standard (uint c)" "0 \<le> fst (do_rand c)" "fst (do_rand c) < 0x7ffffffe"
    "uint (snd (do_rand c)) = fst (do_rand c)"
    by (simp_all add: do_rand_def minimal_standard_def Let_def word_of_int_inverse)
qed

lemma minimal_standard_inj:
  assumes "0 \<le> x" "x < 0x7ffffffe" "0 \<le> y" "y < 0x7ffffffe" "minimal_standard x = minimal_standard y"
  shows "x = y"
proof -
  have "0x7fffffff dvd 16807 * (x - y)" using assms(5) by (simp add: minimal_standard_def mod_eq_dvd_iff algebra_simps)
  then have "0x7fffffff dvd x - y" using coprime_modulus by (metis coprime_dvd_mult_right_iff)
  then have "x - y = 0" using assms(1-4) dvd_imp_le_int [of "x - y" "0x7fffffff"] by fastforce
  then show ?thesis by simp
qed



text \<open>The state starts at 7 in graphs.c and run_experiment.c and at 13 in rows.c.\<close>

definition rand :: "u64 \<Rightarrow> int \<times> u64" where
  "rand rand_next = do_rand rand_next"

lemma rand_bounds:
  assumes "uint r < 0x7ffffffe"
  shows "0 \<le> fst (rand r)" "fst (rand r) < 0x7ffffffe" "uint (snd (rand r)) < 0x7ffffffe"
  using do_rand_step [OF assms] by (simp_all add: rand_def)

end
