(* ===== verification/Graphs.thy ===== *)
theory Graphs
  imports Randgen
begin

text \<open>
  The CPU-bound program of the experiments (user/graphs.c): random graphs as adjacency matrices and the
  search for shortest paths from a vertex. Arrays are lists, and an access outside of them is \<open>Undef\<close>.
\<close>

definition INF_dist :: int where "INF_dist = 100000"
definition MAX_VERT :: nat where "MAX_VERT = 200"

section \<open>Random edges\<close>

text \<open>
  The loop may go on for ever (a full matrix has no free edge), so it has a bound \<open>k\<close> on its rounds.
  Both conditions of the \<open>while\<close> are those of the source.
\<close>

definition random_pair :: "nat \<Rightarrow> u64 \<Rightarrow> (nat \<times> nat) \<times> u64" where
  "random_pair n r =
     (let (a, r) = rand r; (b, r) = rand r
      in ((nat (a mod int n), nat (b mod int n)), r))"

definition generate_random_edge :: "nat \<Rightarrow> int list list \<Rightarrow> nat \<Rightarrow> u64 \<Rightarrow> (nat \<times> nat, u64) run" where
  "generate_random_edge k matrix n r =
     loop k (\<lambda>_ r.
       let ((vert1, vert2), r) = random_pair n r
       in if vert1 = vert2 then Ret (Inl ()) r
          else index matrix vert1 (\<lambda>row. index row vert2 (\<lambda>e.
            if e \<noteq> 0 then Ret (Inl ()) r else Ret (Inr (vert1, vert2)) r))) () r"

definition set_edge :: "nat \<times> nat \<Rightarrow> int list list \<Rightarrow> int list list" where
  "set_edge e matrix = matrix[fst e := (matrix ! fst e)[snd e := 1]]"

text \<open>The zero matrix and then \<open>num_edges\<close> different edges.\<close>

fun random_edges :: "nat \<Rightarrow> nat \<Rightarrow> nat \<Rightarrow> int list list \<Rightarrow> u64 \<Rightarrow> (int list list, u64) run" where
  "random_edges k n 0 matrix r = Ret matrix r"
| "random_edges k n (Suc e) matrix r =
     bnd (generate_random_edge k matrix n r) (\<lambda>uv r. random_edges k n e (set_edge uv matrix) r)"

definition random_graph :: "nat \<Rightarrow> nat \<Rightarrow> nat \<Rightarrow> u64 \<Rightarrow> (int list list, u64) run" where
  "random_graph k n num_edges r = random_edges k n num_edges (replicate n (replicate n 0)) r"

text \<open>Two different vertices.\<close>

definition random_ends :: "nat \<Rightarrow> nat \<Rightarrow> u64 \<Rightarrow> (nat \<times> nat, u64) run" where
  "random_ends k n r =
     loop k (\<lambda>_ r. let ((u, v), r) = random_pair n r in if u = v then Ret (Inl ()) r else Ret (Inr (u, v)) r) () r"

section \<open>Shortest paths\<close>

record bfs =
  distancia :: "int list"
  visitado :: "int list"
  fila :: "int list"
  esq :: nat
  dir :: nat

text \<open>The array \<open>fila\<close> comes from \<open>malloc\<close>: its contents before the search are the argument \<open>junk\<close>.\<close>

definition bfs_init :: "nat \<Rightarrow> int list \<Rightarrow> bfs" where
  "bfs_init u junk = \<lparr>distancia = (replicate MAX_VERT INF_dist)[u := 0], visitado = replicate MAX_VERT 0, fila = junk[0 := int u], esq = 0, dir = 0\<rparr>"

definition bfs_edge :: "int list list \<Rightarrow> nat \<Rightarrow> nat \<Rightarrow> bfs \<Rightarrow> (unit, bfs) run" where
  "bfs_edge matrix atual j s =
     index matrix atual (\<lambda>row. index row j (\<lambda>e.
       if e = 0 then Ret () s
       else index (visitado s) j (\<lambda>v.
         if v \<noteq> 0 then Ret () s
         else index (distancia s) atual (\<lambda>d. index (fila s) (Suc (dir s)) (\<lambda>_.
           Ret () (s\<lparr>visitado := (visitado s)[j := 1], distancia := (distancia s)[j := d + 1],
                     dir := Suc (dir s), fila := (fila s)[Suc (dir s) := int j]\<rparr>))))))"

definition bfs_round :: "int list list \<Rightarrow> nat \<Rightarrow> bfs \<Rightarrow> (unit, bfs) run" where
  "bfs_round matrix num_vertices s =
     index (fila s) (esq s) (\<lambda>atual.
       bnd (each (bfs_edge matrix (nat atual)) [0..<num_vertices] s) (\<lambda>_ s.
       Ret () (s\<lparr>esq := Suc (esq s)\<rparr>)))"

text \<open>Every vertex enters the queue at most once more, so \<open>2 * MAX_VERT\<close> rounds are enough.\<close>

definition shortest_paths :: "int list list \<Rightarrow> nat \<Rightarrow> nat \<Rightarrow> int list \<Rightarrow> (unit, bfs) run" where
  "shortest_paths matrix num_vertices u junk =
     loop (2 * MAX_VERT) (\<lambda>_ s.
       if esq s \<le> dir s then bnd (bfs_round matrix num_vertices s) (\<lambda>_ s. Ret (Inl ()) s)
       else Ret (Inr ()) s) () (bfs_init u junk)"

section \<open>The search is right\<close>

definition edge :: "int list list \<Rightarrow> nat \<Rightarrow> nat \<Rightarrow> bool" where
  "edge matrix a b \<longleftrightarrow> matrix ! a ! b \<noteq> 0"

text \<open>\<open>hops m n k u v\<close>: there is a walk of \<open>k\<close> edges from \<open>u\<close> to \<open>v\<close> among the vertices below \<open>n\<close>.\<close>

primrec hops :: "int list list \<Rightarrow> nat \<Rightarrow> nat \<Rightarrow> nat \<Rightarrow> nat \<Rightarrow> bool" where
  "hops m n 0 u v \<longleftrightarrow> u = v"
| "hops m n (Suc k) u v \<longleftrightarrow> (\<exists>w<n. hops m n k u w \<and> edge m w v)"

definition graph :: "int list list \<Rightarrow> nat \<Rightarrow> bool" where
  "graph m n \<longleftrightarrow> length m = n \<and> (\<forall>i<n. length (m ! i) = n \<and> m ! i ! i = 0)"

definition lev :: "bfs \<Rightarrow> nat \<Rightarrow> int" where
  "lev s i = (if i = 0 then 0 else distancia s ! nat (fila s ! i))"

text \<open>The queue holds \<open>u\<close> and then the visited vertices, each once, in the order of their distances.\<close>

definition bfs_queue :: "nat \<Rightarrow> nat \<Rightarrow> bfs \<Rightarrow> bool" where
  "bfs_queue n u s \<longleftrightarrow> length (distancia s) = MAX_VERT \<and> length (visitado s) = MAX_VERT \<and> length (fila s) = 2 * MAX_VERT \<and>
     fila s ! 0 = int u \<and>
     (\<forall>i. 0 < i \<longrightarrow> i \<le> dir s \<longrightarrow> (\<exists>v<n. fila s ! i = int v \<and> visitado s ! v \<noteq> 0)) \<and>
     inj_on ((!) (fila s)) {1..dir s} \<and>
     (\<forall>v<n. visitado s ! v \<noteq> 0 \<longrightarrow> (\<exists>i. 0 < i \<and> i \<le> dir s \<and> fila s ! i = int v))"

definition bfs_dist :: "int list list \<Rightarrow> nat \<Rightarrow> nat \<Rightarrow> bfs \<Rightarrow> bool" where
  "bfs_dist m n u s \<longleftrightarrow> (\<forall>v<n.
     if visitado s ! v = 0 then distancia s ! v = (if v = u then 0 else INF_dist)
     else 0 < distancia s ! v \<and> hops m n (nat (distancia s ! v)) u v)"

definition bfs_done :: "int list list \<Rightarrow> nat \<Rightarrow> bfs \<Rightarrow> nat \<Rightarrow> nat \<Rightarrow> bool" where
  "bfs_done m n s i j \<longleftrightarrow> (\<forall>v<j. v < n \<longrightarrow> edge m (nat (fila s ! i)) v \<longrightarrow> visitado s ! v \<noteq> 0 \<and> distancia s ! v \<le> lev s i + 1)"

definition bfs_inv :: "int list list \<Rightarrow> nat \<Rightarrow> nat \<Rightarrow> bfs \<Rightarrow> bool" where
  "bfs_inv m n u s \<longleftrightarrow> bfs_queue n u s \<and> bfs_dist m n u s \<and> esq s \<le> Suc (dir s) \<and>
     (\<forall>i i'. i \<le> i' \<longrightarrow> i' \<le> dir s \<longrightarrow> lev s i \<le> lev s i') \<and>
     (esq s \<le> dir s \<longrightarrow> lev s (dir s) \<le> lev s (esq s) + 1) \<and>
     (\<forall>i<esq s. bfs_done m n s i n) \<and> (esq s = 0 \<longrightarrow> visitado s ! u = 0)"

lemma bfs_queue_at:
  assumes "bfs_queue n u s" "0 < i" "i \<le> dir s"
  obtains v where "v < n" "fila s ! i = int v" "visitado s ! v \<noteq> 0"
  using assms unfolding bfs_queue_def by metis

lemma bfs_queue_pos:
  assumes "bfs_queue n u s" "v < n" "visitado s ! v \<noteq> 0"
  obtains i where "0 < i" "i \<le> dir s" "fila s ! i = int v"
  using assms unfolding bfs_queue_def by metis

lemma bfs_queue_bound:
  assumes "bfs_queue n u s"
  shows "dir s \<le> n" and "v < n \<Longrightarrow> visitado s ! v = 0 \<Longrightarrow> dir s < n"
proof -
  let ?f = "(!) (fila s)"
  have sub: "?f ` {1..dir s} \<subseteq> int ` {v. v < n \<and> visitado s ! v \<noteq> 0}"
  proof (rule image_subsetI)
    fix i assume "i \<in> {1..dir s}"
    then obtain v where "v < n" "fila s ! i = int v" "visitado s ! v \<noteq> 0" using bfs_queue_at [OF assms, of i] by auto
    then show "?f i \<in> int ` {v. v < n \<and> visitado s ! v \<noteq> 0}" by simp
  qed
  have inj: "inj_on ?f {1..dir s}" using assms by (simp add: bfs_queue_def)
  have "dir s = card (?f ` {1..dir s})" using inj by (simp add: card_image)
  also have "\<dots> \<le> card (int ` {v. v < n \<and> visitado s ! v \<noteq> 0})" by (rule card_mono [OF _ sub]) simp
  also have "\<dots> = card {v. v < n \<and> visitado s ! v \<noteq> 0}" by (simp add: card_image)
  finally have c: "dir s \<le> card {v. v < n \<and> visitado s ! v \<noteq> 0}" .
  also have "\<dots> \<le> card {v. v < n}" by (rule card_mono) auto
  finally show "dir s \<le> n" by simp
  assume "v < n" "visitado s ! v = 0"
  then have "{v. v < n \<and> visitado s ! v \<noteq> 0} \<subset> {v. v < n}" by auto
  then have "card {v. v < n \<and> visitado s ! v \<noteq> 0} < card {v. v < n}" by (rule psubset_card_mono [rotated]) simp
  with c show "dir s < n" by simp
qed


definition bfs_push :: "nat \<Rightarrow> int \<Rightarrow> bfs \<Rightarrow> bfs" where
  "bfs_push j d s = s\<lparr>visitado := (visitado s)[j := 1], distancia := (distancia s)[j := d + 1],
     dir := Suc (dir s), fila := (fila s)[Suc (dir s) := int j]\<rparr>"

lemma bfs_push_fields:
  assumes q: "bfs_queue n u s" and n: "n \<le> MAX_VERT" and j: "j < n" "visitado s ! j = 0"
  shows "dir (bfs_push j d s) = Suc (dir s)" "esq (bfs_push j d s) = esq s"
    and "i \<le> dir s \<Longrightarrow> fila (bfs_push j d s) ! i = fila s ! i" "fila (bfs_push j d s) ! Suc (dir s) = int j"
    and "visitado (bfs_push j d s) ! v = (if v = j then 1 else visitado s ! v)"
    and "distancia (bfs_push j d s) ! v = (if v = j then d + 1 else distancia s ! v)"
    and "i \<le> dir s \<Longrightarrow> lev (bfs_push j d s) i = lev s i" "lev (bfs_push j d s) (Suc (dir s)) = d + 1"
    and "Suc (dir s) < 2 * MAX_VERT"
proof -
  have len: "length (distancia s) = MAX_VERT" "length (visitado s) = MAX_VERT" "length (fila s) = 2 * MAX_VERT"
    using q by (simp_all add: bfs_queue_def)
  show b: "Suc (dir s) < 2 * MAX_VERT" using bfs_queue_bound(2) [OF q j] n j(1) by linarith
  show "dir (bfs_push j d s) = Suc (dir s)" "esq (bfs_push j d s) = esq s" by (simp_all add: bfs_push_def)
  show f: "fila (bfs_push j d s) ! i = fila s ! i" if "i \<le> dir s" for i using that by (simp add: bfs_push_def)
  show "fila (bfs_push j d s) ! Suc (dir s) = int j" using b len by (simp add: bfs_push_def)
  show "visitado (bfs_push j d s) ! v = (if v = j then 1 else visitado s ! v)" using len j n by (auto simp: bfs_push_def)
  show dv: "distancia (bfs_push j d s) ! v = (if v = j then d + 1 else distancia s ! v)" for v using len j n by (auto simp: bfs_push_def)
  show "lev (bfs_push j d s) (Suc (dir s)) = d + 1" using b len j n by (simp add: bfs_push_def lev_def)
  show "lev (bfs_push j d s) i = lev s i" if "i \<le> dir s"
  proof (cases "i = 0")
    case False
    with that obtain v where "v < n" "fila s ! i = int v" "visitado s ! v \<noteq> 0" using bfs_queue_at [OF q, of i] by auto
    with j(2) False f [OF that] show ?thesis by (auto simp: lev_def dv)
  qed (simp add: lev_def)
qed

lemma bfs_push_queue:
  assumes q: "bfs_queue n u s" and n: "n \<le> MAX_VERT" and j: "j < n" "visitado s ! j = 0"
  shows "bfs_queue n u (bfs_push j d s)"
proof -
  note f = bfs_push_fields(1-8) [OF q n j, where d = d]
  have fresh: "fila s ! i \<noteq> int j" if "0 < i" "i \<le> dir s" for i
    using bfs_queue_at [OF q that] j(2) by (metis of_nat_eq_iff)
  have "inj_on ((!) (fila (bfs_push j d s))) {1..Suc (dir s)}"
  proof (rule inj_onI)
    fix a b assume ab: "a \<in> {1..Suc (dir s)}" "b \<in> {1..Suc (dir s)}" "fila (bfs_push j d s) ! a = fila (bfs_push j d s) ! b"
    have inj: "inj_on ((!) (fila s)) {1..dir s}" using q by (simp add: bfs_queue_def)
    show "a = b"
    proof (cases "a \<le> dir s"; cases "b \<le> dir s")
      assume "a \<le> dir s" "b \<le> dir s"
      with ab f(3) inj show ?thesis by (auto dest: inj_onD)
    next
      assume "a \<le> dir s" "\<not> b \<le> dir s"
      with ab f(3) [of a] f(4) fresh [of a] show ?thesis by (auto simp: le_Suc_eq)
    next
      assume "\<not> a \<le> dir s" "b \<le> dir s"
      with ab f(3) [of b] f(4) fresh [of b] show ?thesis by (auto simp: le_Suc_eq)
    next
      assume "\<not> a \<le> dir s" "\<not> b \<le> dir s"
      with ab show ?thesis by auto
    qed
  qed
  moreover have "\<exists>v<n. fila (bfs_push j d s) ! i = int v \<and> visitado (bfs_push j d s) ! v \<noteq> 0" if "0 < i" "i \<le> Suc (dir s)" for i
  proof (cases "i = Suc (dir s)")
    case True
    then show ?thesis using j(1) f(4,5) by auto
  next
    case False
    with that have "i \<le> dir s" by simp
    with that obtain v where "v < n" "fila s ! i = int v" "visitado s ! v \<noteq> 0" using bfs_queue_at [OF q, of i] by auto
    with f(3) [OF \<open>i \<le> dir s\<close>] f(5) show ?thesis by auto
  qed
  moreover have "\<exists>i. 0 < i \<and> i \<le> Suc (dir s) \<and> fila (bfs_push j d s) ! i = int v" if v: "v < n" "visitado (bfs_push j d s) ! v \<noteq> 0" for v
  proof (cases "v = j")
    case False
    with v f(5) [of v] obtain i where "0 < i" "i \<le> dir s" "fila s ! i = int v" using bfs_queue_pos [OF q v(1)] by auto
    with f(3) [of i] show ?thesis by (intro exI [of _ i]) simp
  qed (use f(4) in auto)
  moreover have "fila (bfs_push j d s) ! 0 = int u" using q f(3) [of 0] by (simp add: bfs_queue_def)
  moreover have "length (distancia (bfs_push j d s)) = MAX_VERT" "length (visitado (bfs_push j d s)) = MAX_VERT"
    "length (fila (bfs_push j d s)) = 2 * MAX_VERT" using q by (simp_all add: bfs_queue_def bfs_push_def)
  ultimately show ?thesis unfolding bfs_queue_def f(1) by blast
qed


text \<open>Inside a round: the out-neighbours below \<open>j\<close> of the vertex at position \<open>e\<close> have been visited.\<close>

definition bfs_in :: "int list list \<Rightarrow> nat \<Rightarrow> nat \<Rightarrow> nat \<Rightarrow> nat \<Rightarrow> nat \<Rightarrow> bfs \<Rightarrow> bool" where
  "bfs_in m n u e a j s \<longleftrightarrow> bfs_queue n u s \<and> bfs_dist m n u s \<and> esq s = e \<and> e \<le> dir s \<and> fila s ! e = int a \<and> a < n \<and>
     distancia s ! a = lev s e \<and> 0 \<le> lev s e \<and> hops m n (nat (lev s e)) u a \<and>
     (\<forall>i i'. i \<le> i' \<longrightarrow> i' \<le> dir s \<longrightarrow> lev s i \<le> lev s i') \<and> lev s (dir s) \<le> lev s e + 1 \<and>
     (\<forall>i<e. bfs_done m n s i n) \<and> bfs_done m n s e j"

lemma bfs_push_done:
  assumes q: "bfs_queue n u s" and n: "n \<le> MAX_VERT" and j: "j < n" "visitado s ! j = 0" and "bfs_done m n s i k" "i \<le> dir s"
  shows "bfs_done m n (bfs_push j d s) i k"
  using assms(5,6) j(2) bfs_push_fields(3,7) [OF q n j \<open>i \<le> dir s\<close>, where d = d] bfs_push_fields(5,6) [OF q n j, where d = d]
  by (auto simp: bfs_done_def)

lemma bfs_push_dist:
  assumes q: "bfs_queue n u s" and n: "n \<le> MAX_VERT" and j: "j < n" "visitado s ! j = 0" and dist: "bfs_dist m n u s"
    and d: "0 \<le> d" "hops m n (Suc (nat d)) u j"
  shows "bfs_dist m n u (bfs_push j d s)"
proof -
  have "nat (d + 1) = Suc (nat d)" using d(1) by simp
  with d dist show ?thesis
    unfolding bfs_dist_def by (simp add: bfs_push_fields(5,6) [OF q n j] del: hops.simps)
qed

lemma bfs_edge_step:
  assumes m: "graph m n" and n: "n \<le> MAX_VERT" and j: "j < n" and I: "bfs_in m n u e a j s"
  shows "returns (bfs_edge m a j s) (\<lambda>_ t. bfs_in m n u e a (Suc j) t)"
proof -
  have len: "a < length m" "j < length (m ! a)" using m I j by (auto simp: graph_def bfs_in_def)
  have q: "bfs_queue n u s" "bfs_dist m n u s" "e \<le> dir s" "a < n" "esq s = e" "fila s ! e = int a" "distancia s ! a = lev s e"
    "0 \<le> lev s e" "hops m n (nat (lev s e)) u a" "lev s (dir s) \<le> lev s e + 1" "bfs_done m n s e j"
    using I by (simp_all add: bfs_in_def)
  have lens: "length (distancia s) = MAX_VERT" "length (visitado s) = MAX_VERT" "length (fila s) = 2 * MAX_VERT"
    using q(1) by (simp_all add: bfs_queue_def)
  have lv: "lev s i \<le> lev s e + 1" if "i \<le> dir s" for i
    using I q(10) that unfolding bfs_in_def by (meson order_refl order_trans)
  consider "m ! a ! j = 0" | "m ! a ! j \<noteq> 0" "visitado s ! j \<noteq> 0" | "m ! a ! j \<noteq> 0" "visitado s ! j = 0" by blast
  then show ?thesis
  proof cases
    case 1
    then have "bfs_done m n s e (Suc j)" using q(6,11) by (auto simp: bfs_done_def edge_def less_Suc_eq)
    with 1 len I show ?thesis by (simp add: bfs_edge_def bfs_in_def)
  next
    case 2
    then obtain i where "0 < i" "i \<le> dir s" "fila s ! i = int j" using bfs_queue_pos [OF q(1) j] by blast
    with lv [of i] have "distancia s ! j \<le> lev s e + 1" by (simp add: lev_def)
    with 2 have "bfs_done m n s e (Suc j)" using q(11) by (auto simp: bfs_done_def less_Suc_eq)
    with 2 len lens I j n show ?thesis by (simp add: bfs_edge_def bfs_in_def)
  next
    case 3
    define t where "t = bfs_push j (lev s e) s"
    note f = bfs_push_fields(1-8) [OF q(1) n j 3(2), where d = "lev s e", folded t_def]
    have aj: "a \<noteq> j" using 3(1) m q(4) by (auto simp: graph_def)
    have "hops m n (Suc (nat (lev s e))) u j" using q(4,9) 3(1) by (auto simp: edge_def)
    then have "bfs_dist m n u t" unfolding t_def by (rule bfs_push_dist [OF q(1) n j 3(2) q(2,8)])
    moreover have "bfs_queue n u t" unfolding t_def by (rule bfs_push_queue [OF q(1) n j 3(2)])
    moreover have "lev t i \<le> lev t i'" if "i \<le> i'" "i' \<le> Suc (dir s)" for i i'
    proof (cases "i' \<le> dir s")
      case True
      then show ?thesis using that I f(7) by (simp add: bfs_in_def)
    next
      case False
      then have "i' = Suc (dir s)" using that by simp
      then show ?thesis using that f(7,8) lv by (cases "i = i'") auto
    qed
    moreover have "bfs_done m n t i n" if "i < e" for i
      using I that q(3) unfolding t_def by (intro bfs_push_done [OF q(1) n j 3(2)]) (auto simp: bfs_in_def)
    moreover have "bfs_done m n t e (Suc j)"
      using bfs_push_done [OF q(1) n j 3(2) q(11,3), where d = "lev s e", folded t_def] f(3,7) [OF q(3)] f(5,6) [of j]
      by (auto simp: bfs_done_def less_Suc_eq)
    ultimately have "bfs_in m n u e a (Suc j) t"
      using q f(1,2,8) f(3,7) [OF q(3)] f(6) [of a] aj by (simp add: bfs_in_def)
    moreover have "bfs_edge m a j s = Ret () t"
      using 3 len lens j n q(4,7) bfs_push_fields(9) [OF q(1) n j 3(2)] by (simp add: bfs_edge_def t_def bfs_push_def)
    ultimately show ?thesis by simp
  qed
qed


lemma bfs_esq [simp]:
  "lev (t\<lparr>esq := x\<rparr>) = lev t" "bfs_queue n u (t\<lparr>esq := x\<rparr>) = bfs_queue n u t" "bfs_dist m n u (t\<lparr>esq := x\<rparr>) = bfs_dist m n u t"
  "bfs_done m n (t\<lparr>esq := x\<rparr>) = bfs_done m n t"
  by (simp_all add: fun_eq_iff lev_def bfs_queue_def bfs_dist_def bfs_done_def)

lemma bfs_round_step:
  assumes m: "graph m n" and n: "n \<le> MAX_VERT" and u: "u < n" and I: "bfs_inv m n u s" and e: "esq s \<le> dir s"
  shows "returns (bfs_round m n s) (\<lambda>_ t. bfs_inv m n u t \<and> esq t = Suc (esq s))"
proof -
  have q: "bfs_queue n u s" "bfs_dist m n u s" "\<And>i i'. i \<le> i' \<Longrightarrow> i' \<le> dir s \<Longrightarrow> lev s i \<le> lev s i'"
    "lev s (dir s) \<le> lev s (esq s) + 1" "\<And>i. i < esq s \<Longrightarrow> bfs_done m n s i n" "esq s = 0 \<Longrightarrow> visitado s ! u = 0"
    using I e by (simp_all add: bfs_inv_def)
  have "\<exists>a<n. fila s ! esq s = int a \<and> distancia s ! a = lev s (esq s) \<and> 0 \<le> lev s (esq s) \<and> hops m n (nat (lev s (esq s))) u a"
  proof (cases "esq s = 0")
    case True
    then have "fila s ! esq s = int u" "distancia s ! u = 0" using q(1,2,6) u by (auto simp: bfs_queue_def bfs_dist_def)
    with True u show ?thesis by (intro exI [of _ u]) (simp add: lev_def)
  next
    case False
    then obtain a where a: "a < n" "fila s ! esq s = int a" "visitado s ! a \<noteq> 0" using bfs_queue_at [OF q(1), of "esq s"] e by auto
    with q(2) have "0 < distancia s ! a" "hops m n (nat (distancia s ! a)) u a" unfolding bfs_dist_def by auto
    with a False show ?thesis by (intro exI [of _ a]) (simp add: lev_def)
  qed
  then obtain a where a: "a < n" "fila s ! esq s = int a" "distancia s ! a = lev s (esq s)" "0 \<le> lev s (esq s)"
    "hops m n (nat (lev s (esq s))) u a" by blast
  have "bfs_in m n u (esq s) a 0 s" using q a e by (auto simp: bfs_in_def bfs_done_def)
  then have r: "returns (each (bfs_edge m a) [0..<n] s) (\<lambda>_ t. bfs_in m n u (esq s) a n t)"
    by (rule each_upt) (rule bfs_edge_step [OF m n])
  have fin: "bfs_inv m n u (t\<lparr>esq := Suc (esq t)\<rparr>)" if "bfs_in m n u (esq s) a n t" for t
  proof -
    have "lev t (dir t) \<le> lev t (Suc (esq t)) + 1" if "Suc (esq t) \<le> dir t"
    proof -
      have "lev t (esq t) \<le> lev t (Suc (esq t))" using \<open>bfs_in m n u (esq s) a n t\<close> that by (simp add: bfs_in_def)
      then show ?thesis using \<open>bfs_in m n u (esq s) a n t\<close> by (simp add: bfs_in_def)
    qed
    with that show ?thesis
      by (auto simp: bfs_inv_def bfs_in_def less_Suc_eq)
  qed
  have "esq s < length (fila s)" using e bfs_queue_bound(1) [OF q(1)] n q(1) u by (simp add: bfs_queue_def)
  then show ?thesis unfolding bfs_round_def using a(2) fin by (auto simp: bfs_in_def intro!: returns_mono [OF r])
qed

lemma bfs_init_inv:
  assumes "u < n" "n \<le> MAX_VERT" "length junk = 2 * MAX_VERT"
  shows "bfs_inv m n u (bfs_init u junk)"
  using assms by (auto simp: bfs_inv_def bfs_init_def bfs_queue_def bfs_dist_def lev_def nth_list_update)

lemma bfs_end:
  assumes I: "bfs_inv m n u s" and e: "\<not> esq s \<le> dir s" and v: "v < n" and w: "hops m n (Suc k) u v"
  shows "visitado s ! v \<noteq> 0 \<and> distancia s ! v \<le> int (Suc k)"
  using v w
proof (induction k arbitrary: v)
  case 0
  then have "edge m u v" by simp
  moreover have "bfs_done m n s 0 n" "fila s ! 0 = int u" using I e by (auto simp: bfs_inv_def bfs_queue_def)
  ultimately show ?case using 0 by (auto simp: bfs_done_def lev_def)
next
  case (Suc k)
  then obtain w where w: "w < n" "hops m n (Suc k) u w" "edge m w v" by auto
  from Suc.IH [OF w(1,2)] have vw: "visitado s ! w \<noteq> 0" "distancia s ! w \<le> int (Suc k)" by auto
  have "bfs_queue n u s" using I by (simp add: bfs_inv_def)
  then obtain i where i: "0 < i" "i \<le> dir s" "fila s ! i = int w" using bfs_queue_pos w(1) vw(1) by blast
  then have "bfs_done m n s i n" using I e by (auto simp: bfs_inv_def)
  with Suc.prems(1) w(3) i vw(2) show ?case by (auto simp: bfs_done_def lev_def)
qed

lemma shortest_paths_returns:
  assumes m: "graph m n" and n: "n \<le> MAX_VERT" and u: "u < n" and junk: "length junk = 2 * MAX_VERT"
  shows "returns (shortest_paths m n u junk) (\<lambda>_ t. \<not> esq t \<le> dir t \<and> bfs_inv m n u t)"
  unfolding shortest_paths_def
proof (rule loop_returns [where I = "\<lambda>_ s. bfs_inv m n u s" and \<mu> = "\<lambda>_ s. Suc n - esq s"])
  show "bfs_inv m n u (bfs_init u junk)" by (rule bfs_init_inv [OF u n junk])
  show "Suc n - esq (bfs_init u junk) < 2 * MAX_VERT" using n u by (simp add: bfs_init_def MAX_VERT_def)
  fix l :: unit and s
  assume I: "bfs_inv m n u s"
  have "dir s \<le> n" using I bfs_queue_bound(1) [of n u s] by (simp add: bfs_inv_def)
  then show "returns (if esq s \<le> dir s then bnd (bfs_round m n s) (\<lambda>_ s. Ret (Inl ()) s) else Ret (Inr ()) s)
     (\<lambda>r t. case r of Inl l' \<Rightarrow> bfs_inv m n u t \<and> Suc n - esq t < Suc n - esq s | Inr x \<Rightarrow> \<not> esq t \<le> dir t \<and> bfs_inv m n u t)"
    using I by (auto intro!: returns_mono [OF bfs_round_step [OF m n u I]])
qed

text \<open>
  C29. The search of graphs.c ends, never leaves its arrays, and leaves in \<open>distancia\<close> the length
  of a shortest walk from \<open>u\<close> to every other vertex, or \<open>INF\<close> where there is none. The source itself is
  not marked as visited at the start: when it lies on a cycle it enters the queue again, and its entry is not 0.
\<close>

theorem shortest_paths_correct:
  assumes m: "graph m n" and n: "n \<le> MAX_VERT" and u: "u < n" and junk: "length junk = 2 * MAX_VERT"
  shows "returns (shortest_paths m n u junk) (\<lambda>_ t. (\<forall>v<n. v \<noteq> u \<longrightarrow>
     (if \<exists>k. hops m n k u v
      then distancia t ! v = int (LEAST k. hops m n k u v)
      else distancia t ! v = INF_dist)) \<and>
     ((\<exists>k. hops m n (Suc k) u u) \<longrightarrow> 0 < distancia t ! u))"
proof -
  have source: "0 < distancia t ! u" if I: "bfs_inv m n u t" and e: "\<not> esq t \<le> dir t" and w: "hops m n (Suc k) u u" for t k
    using bfs_end [OF I e u w] I u by (auto simp: bfs_inv_def bfs_dist_def simp del: hops.simps)
  have res: "if \<exists>k. hops m n k u v then distancia t ! v = int (LEAST k. hops m n k u v) else distancia t ! v = INF_dist"
    if I: "bfs_inv m n u t" and e: "\<not> esq t \<le> dir t" and v: "v < n" "v \<noteq> u" for t v
  proof -
    have least: "visitado t ! v \<noteq> 0 \<and> distancia t ! v \<le> int k" if "hops m n k u v" for k
      using that v bfs_end [OF I e v(1)] by (cases k) auto
    have d: "if visitado t ! v = 0 then distancia t ! v = INF_dist else 0 < distancia t ! v \<and> hops m n (nat (distancia t ! v)) u v"
      using I v by (auto simp: bfs_inv_def bfs_dist_def)
    show ?thesis
    proof (cases "visitado t ! v = 0")
      case False
      with d have "(LEAST k. hops m n k u v) = nat (distancia t ! v)" by (intro Least_equality) (auto dest: least)
      with d False show ?thesis by auto
    qed (use d least in auto)
  qed
  show ?thesis by (rule returns_mono [OF shortest_paths_returns [OF m n u junk]]) (use res source in blast)
qed

theorem shortest_paths_correct_witness:
  "returns (shortest_paths [[0, 1, 0], [0, 0, 1], [1, 0, 0]] 3 0 (replicate 400 7)) (\<lambda>_ t. \<forall>v<3. v \<noteq> 0 \<longrightarrow>
     (if \<exists>k. hops [[0, 1, 0], [0, 0, 1], [1, 0, 0]] 3 k 0 v
      then distancia t ! v = int (LEAST k. hops [[0, 1, 0], [0, 0, 1], [1, 0, 0]] 3 k 0 v)
      else distancia t ! v = INF_dist))"
  by (rule returns_mono [OF shortest_paths_correct]) (auto simp: graph_def MAX_VERT_def less_Suc_eq numeral_3_eq_3)

section \<open>One iteration of the program\<close>

text \<open>\<open>k\<close> bounds the draws for one edge, \<open>junk\<close> is what \<open>malloc\<close> returned for the queue.\<close>

definition graph_iteration :: "nat \<Rightarrow> int list \<Rightarrow> u64 \<Rightarrow> (bfs, u64) run" where
  "graph_iteration k junk r =
     (let (a, r) = rand r; num_vertices = nat (a mod 101) + 100;
          (b, r) = rand r; num_edges = nat (b mod 351) + 50
      in bnd (random_graph k num_vertices num_edges r) (\<lambda>matrix r.
         bnd (random_ends k num_vertices r) (\<lambda>(u, v) r.
           case shortest_paths matrix num_vertices u junk of
             Ret _ t \<Rightarrow> Ret t r
           | _ \<Rightarrow> Undef)))"

lemma random_pair_less:
  assumes "0 < n" "random_pair n r = ((a, b), r')"
  shows "a < n \<and> b < n"
  using assms by (auto simp: random_pair_def nat_less_iff split: prod.splits)

lemma generate_random_edge_ok:
  assumes "graph m n" "0 < n"
  shows "\<exists>uv r'. generate_random_edge k m n r = Ret uv r' \<and> fst uv < n \<and> snd uv < n \<and> fst uv \<noteq> snd uv \<or> generate_random_edge k m n r = Diverge"
proof (induction k arbitrary: r)
  case (Suc k)
  obtain a b r' where p: "random_pair n r = ((a, b), r')" by (metis prod.collapse)
  with random_pair_less [OF assms(2)] assms(1) have "a < length m" "b < length (m ! a)" "a < n" "b < n" by (auto simp: graph_def)
  with Suc [of r'] p show ?case unfolding generate_random_edge_def by (cases "a = b") auto
qed (simp add: generate_random_edge_def)

lemma set_edge_graph:
  assumes "graph m n" "u < n" "v < n" "u \<noteq> v"
  shows "graph (set_edge (u, v) m) n"
  using assms by (auto simp: graph_def set_edge_def nth_list_update)

lemma random_edges_ok:
  assumes "graph m n" "0 < n"
  shows "\<exists>m' r'. random_edges k n e m r = Ret m' r' \<and> graph m' n \<or> random_edges k n e m r = Diverge"
  using assms(1)
proof (induction e arbitrary: m r)
  case (Suc e)
  from generate_random_edge_ok [OF Suc.prems assms(2), of k r] show ?case
  proof (elim exE disjE conjE)
    fix uv r' assume "generate_random_edge k m n r = Ret uv r'" "fst uv < n" "snd uv < n" "fst uv \<noteq> snd uv"
    with Suc.IH [of "set_edge uv m" r'] set_edge_graph [OF Suc.prems, of "fst uv" "snd uv"] show ?thesis by simp
  qed simp
qed simp

lemma random_ends_ok:
  assumes "0 < n"
  shows "\<exists>uv r'. random_ends k n r = Ret uv r' \<and> fst uv < n \<or> random_ends k n r = Diverge"
proof (induction k arbitrary: r)
  case (Suc k)
  obtain a b r' where p: "random_pair n r = ((a, b), r')" by (metis prod.collapse)
  with random_pair_less [OF assms(1)] Suc [of r'] show ?case unfolding random_ends_def by (cases "a = b") auto
qed (simp add: random_ends_def)

text \<open>An iteration stays within its arrays: its only way not to end is a draw of edges that goes on for ever.\<close>

lemma graph_iteration_safe:
  assumes "length junk = 2 * MAX_VERT"
  shows "\<exists>t r'. graph_iteration k junk r = Ret t r' \<or> graph_iteration k junk r = Diverge"
proof -
  obtain a r1 where a: "rand r = (a, r1)" by fastforce
  obtain b r2 where b: "rand r1 = (b, r2)" by fastforce
  define n e where "n = nat (a mod 101) + 100" and "e = nat (b mod 351) + 50"
  have n: "0 < n" "n \<le> MAX_VERT" by (simp_all add: n_def MAX_VERT_def nat_le_iff)
  have "graph (replicate n (replicate n 0)) n" by (simp add: graph_def)
  from random_edges_ok [OF this n(1), of k e r2] show ?thesis
  proof (elim exE disjE conjE)
    fix m r3 assume m: "random_edges k n e (replicate n (replicate n 0)) r2 = Ret m r3" "graph m n"
    from random_ends_ok [OF n(1), of k r3] show ?thesis
    proof (elim exE disjE conjE)
      fix uv r4 assume uv: "random_ends k n r3 = Ret uv r4" "fst uv < n"
      obtain t where "shortest_paths m n (fst uv) junk = Ret () t"
        using shortest_paths_returns [OF m(2) n(2) uv(2) assms] by (auto elim: returnsE)
      with a b m uv show ?thesis
        by (auto simp: graph_iteration_def random_graph_def Let_def n_def [symmetric] e_def [symmetric] split: prod.splits)
    next
      assume "random_ends k n r3 = Diverge"
      with a b m show ?thesis by (simp add: graph_iteration_def random_graph_def Let_def n_def [symmetric] e_def [symmetric])
    qed
  next
    assume "random_edges k n e (replicate n (replicate n 0)) r2 = Diverge"
    with a b show ?thesis by (simp add: graph_iteration_def random_graph_def Let_def n_def [symmetric] e_def [symmetric])
  qed
qed

end
