(* ===== verification/Experiment.thy ===== *)
theory Experiment
  imports Randgen "HOL-Library.Multiset"
begin

text \<open>
  The experiment itself (user/run_experiment.c): the plan of a round, the parameters the children get, and
  the metrics of the round. The system calls that start the children and read the kernel's counters
  are outside: what they return are arguments. \<open>int\<close> and \<open>long long\<close> are integers with the checks
  of their range written out: \<open>None\<close> is what C leaves undefined (overflow, a division by zero, an access
  outside of an array).
\<close>

section \<open>C arithmetic\<close>

definition chk32 :: "int \<Rightarrow> int option" where
  "chk32 x = (if - (2 ^ 31) \<le> x \<and> x < 2 ^ 31 then Some x else None)"

definition chk64 :: "int \<Rightarrow> int option" where
  "chk64 x = (if - (2 ^ 63) \<le> x \<and> x < 2 ^ 63 then Some x else None)"

text \<open>Division rounds towards zero.\<close>

definition cdiv :: "int \<Rightarrow> int \<Rightarrow> int option" where
  "cdiv a b = (if b = 0 then None else Some (sgn a * sgn b * (\<bar>a\<bar> div \<bar>b\<bar>)))"

text \<open>A \<open>long long\<close> stored in an \<open>int\<close>.\<close>

definition cint :: "int \<Rightarrow> int" where
  "cint x = sint (word_of_int x :: 32 word)"

definition sum32 :: "int list \<Rightarrow> int option" where
  "sum32 xs = fold (\<lambda>x acc. Option.bind acc (\<lambda>a. chk32 (a + x))) xs (Some 0)"

section \<open>The plan of a round\<close>

definition choose_X :: "u64 \<Rightarrow> nat \<times> u64" where
  "choose_X r = (let (x, r) = rand r in (nat (x mod 9) + 6, r))"

definition index_str :: "nat \<Rightarrow> u8 list" where
  "index_str i =
     (if i < 10 then [48, of_nat i + 48, 0]
      else [49, (of_nat i - 10) + 48, 0])"

text \<open>How graphs.c and rows.c read it back from \<open>argv[1]\<close>.\<close>

definition arg_index :: "u8 list \<Rightarrow> int" where
  "arg_index s = (uint (s ! 0) - 48) * 10 + (uint (s ! 1) - 48)"

datatype program = Graphs | Rows

definition launch :: "nat \<Rightarrow> nat \<Rightarrow> program" where
  "launch X j = (if j \<le> X then Graphs else Rows)"

definition round_plan :: "nat \<Rightarrow> (program \<times> u8 list) list" where
  "round_plan X = map (\<lambda>j. (launch X j, index_str (j - 1))) [1..<21]"

section \<open>Throughput\<close>

definition order_step :: "nat \<Rightarrow> nat \<Rightarrow> int list \<Rightarrow> int list" where
  "order_step j k terminos =
     (if terminos ! k < terminos ! j
      then let temp = terminos ! k;
               terminos = terminos[j := terminos ! k]
           in terminos[k := temp]
      else terminos)"

definition order_from :: "nat \<Rightarrow> nat \<Rightarrow> int list \<Rightarrow> int list" where
  "order_from n j terminos = fold (order_step j) [Suc j..<n] terminos"

definition order_terminos :: "int list \<Rightarrow> int list" where
  "order_terminos terminos = fold (order_from 20) [0..<20] terminos"

text \<open>
  \<open>vazoes\<close>: the number of processes that ended in each second. A clock of 32 bits allows less
  than \<open>2^31\<close> seconds, and each round takes a process or a second, so \<open>2^32\<close> rounds are enough.
\<close>

definition count_vazoes :: "int list \<Rightarrow> (nat, int list) run" where
  "count_vazoes terminos =
     loop (2 ^ 32) (\<lambda>(i, segundo) vazoes.
       if i < 20
       then index terminos i (\<lambda>t.
         if t \<le> 10 * int segundo
         then index vazoes segundo (\<lambda>v. Ret (Inl (Suc i, segundo)) (vazoes[segundo := v + 1]))
         else Ret (Inl (i, Suc segundo)) vazoes)
       else Ret (Inr segundo) vazoes) (0, 0) (replicate 300 0)"

text \<open>The smallest and the largest of \<open>vazoes[0..lim]\<close>, from the start values of the source.\<close>

definition min_max :: "int list \<Rightarrow> nat \<Rightarrow> int \<times> int" where
  "min_max vazoes lim =
     fold (\<lambda>j (mn, mx). (if vazoes ! j < mn then vazoes ! j else mn, if mx < vazoes ! j then vazoes ! j else mx))
       [0..<Suc lim] (10000, - 10)"

definition normal_vazao :: "int list \<Rightarrow> nat \<Rightarrow> int option" where
  "normal_vazao vazoes lim =
     (let (vazao_min, vazao_max) = min_max vazoes lim
      in Option.bind (cdiv (20 * 100000) (int lim)) (\<lambda>vazao_media.
         let vazao_max = vazao_max * 100000;
             vazao_min = vazao_min * 100000;
             nominador = vazao_media - vazao_min;
             denominador = vazao_max - vazao_min
         in Option.bind (cdiv (nominador * 100000) denominador) (\<lambda>q. Some (cint (100000 - q)))))"

section \<open>Efficiency and overhead\<close>

text \<open>The array has room for the \<open>Y\<close> programs that use the disk; an entry that is not filled is not initialised.\<close>

definition collect_eficiencias :: "nat \<Rightarrow> int list \<Rightarrow> int list option" where
  "collect_eficiencias Y read_values =
     (let eficiencias = filter (\<lambda>e. 0 \<le> e) read_values
      in if length eficiencias = Y then Some eficiencias else None)"

definition inverse_sum :: "int list \<Rightarrow> int option" where
  "inverse_sum xs = Option.bind (sum32 xs) (\<lambda>soma. cdiv 100000 soma)"

section \<open>Fairness\<close>

definition justica_sums :: "int list \<Rightarrow> (int \<times> int) option" where
  "justica_sums justicas =
     fold (\<lambda>x acc. Option.bind acc (\<lambda>(s, q). Option.bind (chk64 (s + x)) (\<lambda>s.
       Option.bind (chk32 (x * x)) (\<lambda>xx. Option.bind (chk64 (q + xx)) (\<lambda>q. Some (s, q))))))
     justicas (Some (0, 0))"

definition normal_justica :: "int list \<Rightarrow> int option" where
  "normal_justica justicas =
     Option.bind (justica_sums justicas) (\<lambda>(s, q).
       Option.bind (chk64 (s * s)) (\<lambda>nominador2.
       Option.bind (chk64 (20 * q)) (\<lambda>denominador2.
       Option.bind (chk64 (nominador2 * 100000)) (\<lambda>x.
       Option.bind (cdiv x denominador2) (\<lambda>r. Some (cint r))))))"

section \<open>The round's figures\<close>

record figures =
  vazao_norm :: int
  eficiencia_fim :: int
  overhead_fim :: int
  justica_fim :: int
  desempenho :: int

definition round_figures :: "nat \<Rightarrow> int list \<Rightarrow> int list \<Rightarrow> int list \<Rightarrow> int list \<Rightarrow> figures option" where
  "round_figures Y terminos eficiencias overheads justicas =
     (case count_vazoes (order_terminos terminos) of
        Ret lim vazoes \<Rightarrow>
          Option.bind (normal_vazao vazoes lim) (\<lambda>v.
          Option.bind (collect_eficiencias Y eficiencias) (\<lambda>es.
          Option.bind (inverse_sum es) (\<lambda>e.
          Option.bind (inverse_sum overheads) (\<lambda>h.
          Option.bind (normal_justica justicas) (\<lambda>f.
          Option.bind (chk32 (h + e + v + f)) (\<lambda>d.
          Some \<lparr>vazao_norm = v, eficiencia_fim = e, overhead_fim = h, justica_fim = f, desempenho = drop_bit 2 d\<rparr>))))))
      | _ \<Rightarrow> None)"

section \<open>The plan and the parameters\<close>


section \<open>Ordering the times\<close>

lemma order_step_min: "j \<noteq> k \<Longrightarrow> j < length t \<Longrightarrow> k < length t \<Longrightarrow> order_step j k t = t[j := min (t ! j) (t ! k)]"
  by (simp add: order_step_def Let_def min_def list_update_same_conv)

lemma order_from_min:
  assumes "j < length t"
  shows "order_from (length t) j t = t[j := Min (set (drop j t))]"
proof -
  have "fold (order_step j) [Suc j..<m] t = t[j := Min (set (take (m - j) (drop j t)))]" if "Suc j \<le> m" "m \<le> length t" for m
    using that
  proof (induction m)
    case (Suc m)
    show ?case
    proof (cases "Suc j \<le> m")
      case True
      let ?v = "Min (set (take (m - j) (drop j t)))"
      have ne: "take (m - j) (drop j t) \<noteq> []" using True Suc.prems by auto
      have "fold (order_step j) [Suc j..<Suc m] t = order_step j m (t[j := ?v])" using Suc True by simp
      also have "\<dots> = t[j := min ?v (t ! m)]" using True Suc.prems by (subst order_step_min) auto
      also have "min ?v (t ! m) = Min (set (take (Suc m - j) (drop j t)))"
        using True Suc.prems ne by (simp add: Suc_diff_le take_Suc_conv_app_nth min.commute)
      finally show ?thesis .
    next
      case False
      with Suc.prems have "m = j" by simp
      with Suc.prems show ?thesis by (simp add: take_Suc_conv_app_nth)
    qed
  qed simp
  from this [of "length t"] assms show ?thesis by (simp add: order_from_def)
qed

lemma order_suffix_min:
  "fold (order_from (length t)) [0..<m] t = map (\<lambda>j. Min (set (drop j t))) [0..<m] @ drop m t" if "m \<le> length t"
  using that
proof (induction m)
  case (Suc m)
  let ?p = "map (\<lambda>j. Min (set (drop j t))) [0..<m]"
  have "fold (order_from (length t)) [0..<Suc m] t = order_from (length t) m (?p @ drop m t)" using Suc by simp
  also have "\<dots> = (?p @ drop m t)[m := Min (set (drop m t))]"
    using Suc.prems order_from_min [of m "?p @ drop m t"] by simp
  also have "\<dots> = ?p @ Min (set (drop m t)) # drop (Suc m) t"
    using Suc.prems by (simp add: list_update_append Cons_nth_drop_Suc [symmetric])
  finally show ?case by simp
qed simp

text \<open>
  C36. What the ordering of the times of run_experiment.c does: entry \<open>j\<close> becomes the smallest of
  the entries from \<open>j\<close> on. The result is in order, but it holds the measured times only if they were in
  order already: the exchange stores the smaller value in both places.
\<close>

theorem order_terminos_suffix_minima:
  assumes "length t = 20"
  shows "order_terminos t = map (\<lambda>j. Min (set (drop j t))) [0..<20] \<and> sorted (order_terminos t) \<and>
     (mset (order_terminos t) = mset t \<longleftrightarrow> sorted t)"
proof -
  let ?r = "order_terminos t"
  have r: "?r = map (\<lambda>j. Min (set (drop j t))) [0..<20]"
    using order_suffix_min [of 20 t] assms by (simp add: order_terminos_def)
  have s: "sorted ?r"
  proof (unfold sorted_iff_nth_mono, intro allI impI)
    fix i j assume "i \<le> j" "j < length ?r"
    then show "?r ! i \<le> ?r ! j" using assms set_drop_subset_set_drop [of i j t] unfolding r by (auto intro!: Min_le)
  qed
  have le: "?r ! i \<le> t ! i" if "i < 20" for i
    using that assms unfolding r by (simp add: Min_le_iff Cons_nth_drop_Suc [symmetric])
  have "?r = t" if "sorted t"
  proof (rule nth_equalityI)
    fix i assume "i < length ?r"
    then have i: "i < 20" by (simp add: r)
    have "t ! i \<le> x" if "x \<in> set (drop i t)" for x
      using that i assms \<open>sorted t\<close> by (auto simp: in_set_conv_nth sorted_iff_nth_mono)
    then have "t ! i \<le> ?r ! i" using i assms unfolding r by simp
    with le [OF i] show "?r ! i = t ! i" by simp
  qed (simp add: r assms)
  moreover have "sorted t" if "mset ?r = mset t"
  proof -
    have "sum_list ?r = sum_list t" using that by (metis sum_mset_sum_list)
    then have e: "(\<Sum>i<20. t ! i - ?r ! i) = 0" using assms by (simp add: sum_list_sum_nth sum_subtractf r atLeast0LessThan)
    have "t ! i = ?r ! i" if "i < 20" for i
      using e le that by (subst (asm) sum_nonneg_eq_0_iff) auto
    then have "t = ?r" using assms by (intro nth_equalityI) (simp_all add: r)
    with s show ?thesis by simp
  qed
  ultimately show ?thesis using r s by metis
qed

theorem order_terminos_suffix_minima_witness:
  "mset (order_terminos ([30, 10, 20] @ replicate 17 40)) \<noteq> mset ([30, 10, 20] @ replicate 17 40)"
proof -
  have l: "length ([30, 10, 20] @ replicate 17 (40 :: int)) = 20" by simp
  have "\<not> sorted ([30, 10, 20] @ replicate 17 (40 :: int))" by simp
  with order_terminos_suffix_minima [OF l] show ?thesis by blast
qed


section \<open>The figures\<close>

text \<open>
  The counts of a round in which every process needed between one tick and 299 seconds: the first
  second is empty, the counts add up to 20, and the last second is within the array.
\<close>

definition vazoes_ok :: "nat \<times> nat \<Rightarrow> int list \<Rightarrow> bool" where
  "vazoes_ok l v \<longleftrightarrow> (case l of (i, sec) \<Rightarrow> length v = 300 \<and> i \<le> 20 \<and> sec < 300 \<and> (\<forall>x\<in>set v. 0 \<le> x) \<and>
     v ! 0 = 0 \<and> (\<forall>k<300. sec < k \<longrightarrow> v ! k = 0) \<and> (\<Sum>k<300. v ! k) = int i \<and> (0 < i \<longrightarrow> 0 < sec))"

lemma sum_update:
  assumes "i < n" "length v = n"
  shows "(\<Sum>k<n. v[i := v ! i + 1] ! k) = (\<Sum>k<n. v ! k) + (1 :: int)"
proof -
  have "(\<Sum>k<n. v[i := v ! i + 1] ! k) = (\<Sum>k<n. v ! k + (if k = i then 1 else 0))"
    using assms by (intro sum.cong) (auto simp: nth_list_update)
  also have "\<dots> = (\<Sum>k<n. v ! k) + 1" using assms by (simp add: sum.distrib)
  finally show ?thesis .
qed

lemma count_vazoes_ok:
  assumes "length t = 20" "\<And>x. x \<in> set t \<Longrightarrow> 0 < x \<and> x \<le> 2990"
  shows "returns (count_vazoes t) (\<lambda>lim v. vazoes_ok (20, lim) v)"
  unfolding count_vazoes_def
proof (rule loop_returns [where I = vazoes_ok and \<mu> = "\<lambda>l _. (20 - fst l) + (300 - snd l)"])
  show "vazoes_ok (0, 0) (replicate 300 0)" by (auto simp: vazoes_ok_def)
  show "(20 - fst (0 :: nat, 0 :: nat)) + (300 - snd (0 :: nat, 0 :: nat)) < (2 ^ 32 :: nat)" by simp
  fix l v
  assume I: "vazoes_ok l v"
  obtain i sec where l: "l = (i, sec)" by (cases l)
  have v: "length v = 300" "sec < 300" "i \<le> 20" "(\<Sum>k<300. v ! k) = int i" using I by (simp_all add: vazoes_ok_def l)
  have pos: "0 < t ! i" "t ! i \<le> 2990" if "i < 20" using assms that by simp_all
  have "vazoes_ok (Suc i, sec) (v[sec := v ! sec + 1])" if "i < 20" "t ! i \<le> 10 * int sec"
  proof -
    have "0 < sec" using pos that by (cases sec) auto
    moreover have "0 \<le> x" if "x \<in> set (v[sec := v ! sec + 1])" for x
      using that I v set_update_subset_insert [of v sec "v ! sec + 1"] by (auto simp: vazoes_ok_def l)
    moreover have "(\<Sum>k<300. v[sec := v ! sec + 1] ! k) = int (Suc i)"
      using sum_update [of sec 300 v] v by simp
    ultimately show ?thesis using I that by (auto simp: vazoes_ok_def l)
  qed
  moreover have "vazoes_ok (i, Suc sec) v \<and> sec < 299" if "i < 20" "\<not> t ! i \<le> 10 * int sec"
    using I that pos by (auto simp: vazoes_ok_def l)
  moreover have "i = 20" if "\<not> i < 20" using v that by simp
  ultimately show "returns ((\<lambda>(i, segundo) vazoes.
       if i < 20
       then index t i (\<lambda>t.
         if t \<le> 10 * int segundo
         then index vazoes segundo (\<lambda>v. Ret (Inl (Suc i, segundo)) (vazoes[segundo := v + 1]))
         else Ret (Inl (i, Suc segundo)) vazoes)
       else Ret (Inr segundo) vazoes) l v)
     (\<lambda>r u. case r of Inl l' \<Rightarrow> vazoes_ok l' u \<and>
          (20 - fst l') + (300 - snd l') < (20 - fst l) + (300 - snd l)
        | Inr x \<Rightarrow> vazoes_ok (20, x) u)"
    using assms(1) v(1,2) I by (auto simp: l)
qed

lemma min_max_bounds:
  fixes v :: "int list"
  assumes "fold (\<lambda>j (mn, mx). (if v ! j < mn then v ! j else mn, if mx < v ! j then v ! j else mx)) [0..<k] (10000, - 10) = (mn, mx)"
  shows "(\<forall>j<k. mn \<le> v ! j \<and> v ! j \<le> mx) \<and> (mn = 10000 \<or> (\<exists>j<k. mn = v ! j)) \<and> (mx = - 10 \<or> (\<exists>j<k. mx = v ! j))"
  using assms
proof (induction k arbitrary: mn mx)
  case (Suc k)
  obtain a b where ab: "fold (\<lambda>j (mn, mx). (if v ! j < mn then v ! j else mn, if mx < v ! j then v ! j else mx)) [0..<k] (10000, - 10) = (a, b)"
    by fastforce
  with Suc.prems have m: "mn = (if v ! k < a then v ! k else a)" "mx = (if b < v ! k then v ! k else b)" by auto
  from Suc.IH [OF ab] show ?case unfolding m by (auto simp: less_Suc_eq)
qed simp

lemma cint_small: "0 \<le> x \<Longrightarrow> x < 2 ^ 31 \<Longrightarrow> cint x = x"
  by (simp add: cint_def sint_sbintrunc' signed_take_bit_int_eq_self)

lemma cdiv_nonneg: "0 \<le> a \<Longrightarrow> 0 < b \<Longrightarrow> cdiv a b = Some (a div b)"
  by (auto simp: cdiv_def sgn_if)

lemma normal_vazao_bounds:
  assumes "vazoes_ok (20, lim) v"
  shows "\<exists>x. normal_vazao v lim = Some x \<and> 0 \<le> x \<and> x \<le> 100000"
proof -
  have v: "length v = 300" "lim < 300" "0 < lim" "\<forall>x\<in>set v. 0 \<le> x" "v ! 0 = 0" "\<forall>k<300. lim < k \<longrightarrow> v ! k = 0" "(\<Sum>k<300. v ! k) = 20"
    using assms by (auto simp: vazoes_ok_def)
  obtain mn mx where mm: "min_max v lim = (mn, mx)" by fastforce
  have b: "\<forall>j<Suc lim. mn \<le> v ! j \<and> v ! j \<le> mx" "mn = 10000 \<or> (\<exists>j<Suc lim. mn = v ! j)"
    using min_max_bounds [OF mm [unfolded min_max_def]] by blast+
  have nn: "0 \<le> v ! j" if "j < 300" for j using v(1,4) that by simp
  have "mn \<le> 0" using b(1) v(5) by auto
  moreover have "0 \<le> mn" using b(2) nn v(2) by auto
  ultimately have mn: "mn = 0" by simp
  have "20 = (\<Sum>k\<in>{1..lim}. v ! k)"
    unfolding v(7) [symmetric] using v(2,5,6) by (intro sum.mono_neutral_right) (auto simp: not_le Suc_le_eq)
  also have "\<dots> \<le> (\<Sum>k\<in>{1..lim}. mx)" using b(1) by (intro sum_mono) auto
  finally have mx: "20 \<le> int lim * mx" by simp
  have mx0: "0 < mx"
  proof (rule ccontr)
    assume "\<not> 0 < mx"
    then have "int lim * mx \<le> 0" by (intro mult_nonneg_nonpos) simp_all
    with mx show False by simp
  qed
  let ?m = "2000000 div int lim"
  have "?m \<le> mx * 100000"
  proof -
    have "int lim * ?m \<le> 2000000" using mult_div_mod_eq [of "int lim" 2000000] pos_mod_sign [of "int lim" 2000000] v(3) by linarith
    also have "\<dots> \<le> int lim * (mx * 100000)" using mx by (simp add: mult.commute)
    finally show ?thesis using v(3) by simp
  qed
  moreover have m0: "0 \<le> ?m" using v(3) by (simp add: pos_imp_zdiv_nonneg_iff)
  moreover have "?m * 100000 div (mx * 100000) \<le> (mx * 100000) * 100000 div (mx * 100000)"
    using calculation mx0 by (intro zdiv_mono1) simp_all
  moreover have "(mx * 100000) * 100000 div (mx * 100000) = 100000" using mx0 by (intro nonzero_mult_div_cancel_left) simp
  ultimately have q: "0 \<le> ?m * 100000 div (mx * 100000)" "?m * 100000 div (mx * 100000) \<le> 100000"
    using mx0 by (simp_all add: pos_imp_zdiv_nonneg_iff)
  then show ?thesis
    using v(3) mx0 m0 by (simp add: normal_vazao_def mm mn Let_def cdiv_nonneg cint_small)
qed


lemma sum32_ok:
  assumes "\<And>x. x \<in> set xs \<Longrightarrow> 0 \<le> x" "sum_list xs < 2 ^ 31"
  shows "sum32 xs = Some (sum_list xs)"
proof -
  have "fold (\<lambda>x acc. Option.bind acc (\<lambda>a. chk32 (a + x))) xs (Some a) = Some (a + sum_list xs)"
    if "0 \<le> a" "a + sum_list xs < 2 ^ 31" "\<And>x. x \<in> set xs \<Longrightarrow> 0 \<le> x" for a xs
    using that
  proof (induction xs arbitrary: a)
    case (Cons x xs)
    have "0 \<le> sum_list xs" using Cons.prems(3) by (intro sum_list_nonneg) simp
    moreover have "0 \<le> x" using Cons.prems(3) by simp
    ultimately have "chk32 (a + x) = Some (a + x)" using Cons.prems(1,2) by (simp add: chk32_def)
    then show ?case using Cons \<open>0 \<le> x\<close> by (simp add: add.assoc)
  qed simp
  from this [of 0 xs] assms show ?thesis by (simp add: sum32_def)
qed

lemma inverse_sum_bounds:
  assumes "\<And>x. x \<in> set xs \<Longrightarrow> 0 \<le> x" "sum_list xs < 2 ^ 31"
  shows "sum_list xs = 0 \<Longrightarrow> inverse_sum xs = None"
    and "sum_list xs \<noteq> 0 \<Longrightarrow> \<exists>e. inverse_sum xs = Some e \<and> 0 \<le> e \<and> e \<le> 100000"
proof -
  have s: "sum32 xs = Some (sum_list xs)" by (rule sum32_ok [OF assms])
  show "inverse_sum xs = None" if "sum_list xs = 0" using s that by (simp add: inverse_sum_def cdiv_def)
  assume "sum_list xs \<noteq> 0"
  moreover have "0 \<le> sum_list xs" by (rule sum_list_nonneg) (rule assms(1))
  ultimately have p: "0 < sum_list xs" by simp
  then have "0 \<le> 100000 div sum_list xs" "100000 div sum_list xs \<le> 100000"
    using zdiv_mono2 [of 100000 1 "sum_list xs"] by (simp_all add: pos_imp_zdiv_nonneg_iff)
  with s p show "\<exists>e. inverse_sum xs = Some e \<and> 0 \<le> e \<and> e \<le> 100000" by (simp add: inverse_sum_def cdiv_nonneg)
qed

text \<open>The sum of squares bounds the square of the sum.\<close>

lemma two_products: "2 * a * sum_list xs \<le> int (length xs) * (a * a) + sum_list (map (\<lambda>x. x * x) xs)" for a :: int
proof (induction xs)
  case (Cons x xs)
  have "0 \<le> (a - x) * (a - x)" by simp
  then have "2 * a * x \<le> a * a + x * x" by (simp add: algebra_simps)
  with Cons show ?case by (simp add: algebra_simps)
qed simp

lemma square_sum: "sum_list xs * sum_list xs \<le> int (length xs) * sum_list (map (\<lambda>x. x * x) xs)" for xs :: "int list"
proof (induction xs)
  case (Cons a xs)
  then show ?case using two_products [of a xs] by (simp add: algebra_simps)
qed simp

lemma chk_ok: "0 \<le> x \<Longrightarrow> x < 2 ^ 31 \<Longrightarrow> chk32 x = Some x" "0 \<le> y \<Longrightarrow> y < 2 ^ 63 \<Longrightarrow> chk64 y = Some y"
  by (simp_all add: chk32_def chk64_def)

lemma justica_sums_ok:
  assumes "\<And>x. x \<in> set xs \<Longrightarrow> 0 \<le> x \<and> x \<le> 46340" "length xs = 20"
  shows "justica_sums xs = Some (sum_list xs, sum_list (map (\<lambda>x. x * x) xs))"
proof -
  let ?f = "\<lambda>x acc. Option.bind acc (\<lambda>(s, q). Option.bind (chk64 (s + x)) (\<lambda>s.
       Option.bind (chk32 (x * x)) (\<lambda>xx. Option.bind (chk64 (q + xx)) (\<lambda>q. Some (s, q)))))"
  have "fold ?f xs (Some (s, q)) = Some (s + sum_list xs, q + sum_list (map (\<lambda>x. x * x) xs))"
    if "0 \<le> s" "s + 46340 * int (length xs) < 2 ^ 62" "0 \<le> q" "q + 2147395600 * int (length xs) < 2 ^ 62"
      "\<And>x. x \<in> set xs \<Longrightarrow> 0 \<le> x \<and> x \<le> 46340" for s q xs
    using that
  proof (induction xs arbitrary: s q)
    case (Cons x xs)
    have x: "0 \<le> x" "x \<le> 46340" using Cons.prems(5) by auto
    have "x * x \<le> 46340 * 46340" using x by (intro mult_mono) auto
    then have xx: "x * x \<le> 2147395600" "0 \<le> x * x" by simp_all
    have "chk64 (s + x) = Some (s + x)" "chk32 (x * x) = Some (x * x)" "chk64 (q + x * x) = Some (q + x * x)"
      using x xx Cons.prems(1-4) by (intro chk_ok; simp)+
    moreover have "fold ?f xs (Some (s + x, q + x * x)) = Some (s + x + sum_list xs, q + x * x + sum_list (map (\<lambda>x. x * x) xs))"
      using x xx Cons.prems(1-4) by (intro Cons.IH Cons.prems(5)) simp_all
    ultimately show ?case by (simp add: add.assoc)
  qed simp
  from this [of 0 xs 0] assms show ?thesis by (simp add: justica_sums_def)
qed


lemma normal_justica_bounds:
  assumes x: "\<And>x. x \<in> set xs \<Longrightarrow> 0 \<le> x \<and> x \<le> 46340" and l: "length xs = 20"
  shows "(\<forall>x\<in>set xs. x = 0) \<Longrightarrow> normal_justica xs = None"
    and "\<not> (\<forall>x\<in>set xs. x = 0) \<Longrightarrow> \<exists>f. normal_justica xs = Some f \<and> 0 \<le> f \<and> f \<le> 100000"
proof -
  let ?s = "sum_list xs" and ?q = "sum_list (map (\<lambda>x. x * x) xs)"
  have sq: "justica_sums xs = Some (?s, ?q)" by (rule justica_sums_ok [OF x l])
  have s: "0 \<le> ?s" "?s \<le> 926800"
    using x sum_list_nonneg [of xs] sum_list_mono [of xs "\<lambda>x. x" "\<lambda>_. 46340"] l by (auto simp: sum_list_triv)
  have xx: "0 \<le> x * x \<and> x * x \<le> 46340 * 46340" if "x \<in> set xs" for x
    using x [OF that] mult_mono [of x 46340 x 46340] by simp
  have q: "0 \<le> ?q" by (rule sum_list_nonneg) auto
  have q': "?q \<le> 42947912000" using xx sum_list_mono [of xs "\<lambda>x. x * x" "\<lambda>_. 46340 * 46340"] l by (auto simp: sum_list_triv)
  have ss: "0 \<le> ?s * ?s" "?s * ?s \<le> 926800 * 926800" using s mult_mono [of ?s 926800 ?s 926800] by simp_all
  have chk: "chk64 (?s * ?s) = Some (?s * ?s)" "chk64 (20 * ?q) = Some (20 * ?q)" "chk64 (?s * ?s * 100000) = Some (?s * ?s * 100000)"
    using q q' ss by (intro chk_ok; simp)+
  show "normal_justica xs = None" if "\<forall>x\<in>set xs. x = 0"
  proof -
    have "?q = 0" using that by (subst sum_list_nonneg_eq_0_iff) auto
    then show ?thesis using sq chk by (simp add: normal_justica_def cdiv_def)
  qed
  assume "\<not> (\<forall>x\<in>set xs. x = 0)"
  then have "?q \<noteq> 0" using xx by (subst sum_list_nonneg_eq_0_iff) auto
  with q have q0: "0 < 20 * ?q" by simp
  have "?s * ?s * 100000 \<le> (20 * ?q) * 100000" using square_sum [of xs] l by simp
  then have "?s * ?s * 100000 div (20 * ?q) \<le> (20 * ?q) * 100000 div (20 * ?q)" using q0 by (intro zdiv_mono1)
  also have "\<dots> = 100000" using q0 by (intro nonzero_mult_div_cancel_left) simp
  finally have "?s * ?s * 100000 div (20 * ?q) \<le> 100000" .
  moreover have "0 \<le> ?s * ?s * 100000 div (20 * ?q)" using q0 ss by (simp add: pos_imp_zdiv_nonneg_iff)
  ultimately show "\<exists>f. normal_justica xs = Some f \<and> 0 \<le> f \<and> f \<le> 100000"
    using sq chk q0 ss by (simp add: normal_justica_def cdiv_nonneg cint_small)
qed



end
