(* ===== verification/Rows.thy ===== *)
theory Rows
  imports Randgen
begin

text \<open>
  The disk-bound program of the experiments (user/rows.c): the name of its file and the lines it writes. Arrays
  are lists; \<open>None\<close> is an access outside of an array.
\<close>

definition bytes_of :: "string \<Rightarrow> u8 list" where
  "bytes_of s = map (\<lambda>c. of_nat (of_char c)) s"

section \<open>The name of the file\<close>

text \<open>The digits of the process number, the last one first.\<close>

fun pid_digits :: "nat \<Rightarrow> u8 list" where
  "pid_digits pid = (of_nat (pid mod 10) + 48) # (if 0 < pid div 10 then pid_digits (pid div 10) else [])"

declare pid_digits.simps [simp del]

text \<open>The loop that reverses them leaves \<open>j\<close> in the middle.\<close>

function reverse_digits :: "nat \<Rightarrow> nat \<Rightarrow> u8 list \<Rightarrow> nat \<times> u8 list" where
  "reverse_digits j i s =
     (if j < i
      then let temp = s ! j; s = s[j := s ! i]; s = s[i := temp]
           in reverse_digits (j + 1) (i - 1) s
      else (j, s))"
  by pat_completeness auto
termination by (relation "measure (\<lambda>(j, i, s). i - j)") auto

declare reverse_digits.simps [simp del]

text \<open>\<open>pid_str\<close> has 10 bytes and \<open>filename\<close> 20, with the final zero.\<close>

definition row_filename :: "nat \<Rightarrow> u8 list option" where
  "row_filename pid =
     (let ds = pid_digits (pid + 1000)
      in if 10 \<le> length ds then None
         else let (j, pid_str) = reverse_digits 0 (length ds - 1) ds;
                  filename = bytes_of ''iobound'' @ drop j pid_str @ bytes_of ''.txt''
              in if 20 \<le> length filename then None else Some filename)"

section \<open>The lines\<close>

definition caracteres :: "u8 list" where
  "caracteres = bytes_of ''abcdefghijklmnopqrstuvwxyzABCDEFGHIJKLMNOPQRSTUVWXYZ0123456789!@#$&*()''"

fun random_chars :: "nat \<Rightarrow> u64 \<Rightarrow> u8 list option \<times> u64" where
  "random_chars 0 r = (Some [], r)"
| "random_chars (Suc k) r =
     (let (x, r) = rand r; c = nat (x mod 70)
      in if c < length caracteres
         then let (cs, r) = random_chars k r in (map_option ((#) (caracteres ! c)) cs, r)
         else (None, r))"

definition random_line :: "u64 \<Rightarrow> u8 list option \<times> u64" where
  "random_line r = (let (cs, r) = random_chars 100 r in (map_option (\<lambda>l. l @ [10]) cs, r))"

section \<open>Which processes share a file\<close>

lemma pid_digits_four:
  assumes "1000 \<le> n" "n < 10000"
  shows "pid_digits n = map (\<lambda>k. of_nat (n div k mod 10) + 48) [1, 10, 100, 1000]"
proof -
  have d: "n div 10 div 10 = n div 100" "n div 100 div 10 = n div 1000" "n div 1000 div 10 = 0"
    using assms by (simp_all add: div_mult2_eq [symmetric])
  have p: "0 < n div 10" "0 < n div 100" "0 < n div 1000" using assms by (simp_all add: div_greater_zero_iff)
  show ?thesis
    by (subst pid_digits.simps, simp only: p if_True, subst pid_digits.simps, simp only: d p if_True,
        subst pid_digits.simps, simp only: d p if_True, subst pid_digits.simps) (simp add: d)
qed

lemma reverse_four: "reverse_digits 0 (Suc (Suc (Suc 0))) [a, b, c, d] = (2, [d, c, b, a])"
  by code_simp

lemma row_filename_four:
  assumes "pid < 9000"
  shows "row_filename pid = Some (bytes_of ''iobound'' @ map (\<lambda>k. of_nat ((pid + 1000) div k mod 10) + 48) [10, 1] @ bytes_of ''.txt'')"
proof -
  have "pid_digits (pid + 1000) = map (\<lambda>k. of_nat ((pid + 1000) div k mod 10) + 48) [1, 10, 100, 1000]"
    using assms by (intro pid_digits_four) simp_all
  then show ?thesis unfolding row_filename_def Let_def by (simp add: reverse_four bytes_of_def)
qed

lemma digit_inj: "(of_nat (a mod 10) :: u8) = of_nat (b mod 10) \<longleftrightarrow> a mod 10 = b mod 10"
proof -
  have "unat (of_nat (x mod 10) :: u8) = x mod 10" for x
    by (simp add: unat_of_nat take_bit_nat_eq_self)
  then show ?thesis by metis
qed



text \<open>Every random line has 101 bytes: the index into \<open>caracteres\<close> is always in range.\<close>

lemma random_chars_some: "\<exists>cs r'. random_chars k r = (Some cs, r') \<and> length cs = k"
proof (induction k arbitrary: r)
  case (Suc k)
  obtain x r' where x: "rand r = (x, r')" by fastforce
  have "nat (x mod 70) < length caracteres" by (simp add: caracteres_def bytes_of_def nat_less_iff)
  with Suc [of r'] x show ?case by (auto simp: Let_def)
qed simp

lemma random_line_some: "\<exists>l r'. random_line r = (Some l, r') \<and> length l = 101"
  using random_chars_some [of 100 r] by (auto simp: random_line_def)

end
