(* ===== verification/Ulib.thy ===== *)
theory Ulib
  imports Prelude
begin

text \<open>
  The user library (user/ulib.c, user/printf.c) on strings. A string is the list of its bytes; it ends at its
  first zero byte or at the end of the list. Text that a routine writes is its result.
\<close>

definition char_at :: "u8 list \<Rightarrow> nat \<Rightarrow> u8" where
  "char_at s i = (if i < length s then s ! i else 0)"

lemma char_at_nonzero: "char_at s 0 \<noteq> 0 \<Longrightarrow> s \<noteq> []"
  by (auto simp: char_at_def)

section \<open>Strings\<close>

text \<open>The position of the first \<open>c\<close>, or \<open>None\<close> for the null pointer.\<close>

fun strchr :: "u8 list \<Rightarrow> u8 \<Rightarrow> nat option" where
  "strchr [] c = None"
| "strchr (x # s) c =
     (if x = 0 then None
      else if x = c then Some 0
      else map_option Suc (strchr s c))"

fun strlen :: "u8 list \<Rightarrow> nat" where
  "strlen [] = 0"
| "strlen (x # s) = (if x = 0 then 0 else Suc (strlen s))"

text \<open>The string that \<open>strcpy\<close> leaves at its destination, without the zero byte.\<close>

fun strcpy :: "u8 list \<Rightarrow> u8 list" where
  "strcpy [] = []"
| "strcpy (x # t) = (if x = 0 then [] else x # strcpy t)"

function strcmp :: "u8 list \<Rightarrow> u8 list \<Rightarrow> int" where
  "strcmp p q =
     (if char_at p 0 \<noteq> 0 \<and> char_at p 0 = char_at q 0
      then strcmp (drop 1 p) (drop 1 q)
      else uint (char_at p 0) - uint (char_at q 0))"
  by pat_completeness auto
termination
  by (relation "measure (\<lambda>(p, q). length p)") (auto dest!: char_at_nonzero)

declare strcmp.simps [simp del]

fun memcmp :: "u8 list \<Rightarrow> u8 list \<Rightarrow> nat \<Rightarrow> int" where
  "memcmp p1 p2 0 = 0"
| "memcmp p1 p2 (Suc n) =
     (if char_at p1 0 \<noteq> char_at p2 0 then uint (char_at p1 0) - uint (char_at p2 0)
      else memcmp (drop 1 p1) (drop 1 p2) n)"

text \<open>The \<open>int\<close> that \<open>atoi\<close> computes, as the machine computes it.\<close>

function atoi_from :: "u32 \<Rightarrow> u8 list \<Rightarrow> u32" where
  "atoi_from n s =
     (if 48 \<le> char_at s 0 \<and> char_at s 0 \<le> 57
      then atoi_from (n * 10 + ucast (char_at s 0) - 48) (drop 1 s)
      else n)"
  by pat_completeness auto
termination
  by (relation "measure (\<lambda>(n, s). length s)") (auto simp: char_at_def split: if_splits)

declare atoi_from.simps [simp del]

definition atoi :: "u8 list \<Rightarrow> u32" where
  "atoi s = atoi_from 0 s"

text \<open>\<open>gets(buf, max)\<close> on the bytes that successive reads of one byte return.\<close>

fun gets_from :: "nat \<Rightarrow> nat \<Rightarrow> u8 list \<Rightarrow> u8 list \<times> u8 list" where
  "gets_from max_n i input =
     (if i + 1 < max_n
      then (case input of
              [] \<Rightarrow> ([], [])
            | c # input \<Rightarrow>
                if c = 10 \<or> c = 13 then ([c], input)
                else let (buf, input) = gets_from max_n (i + 1) input in (c # buf, input))
      else ([], input))"

declare gets_from.simps [simp del]

definition gets :: "nat \<Rightarrow> u8 list \<Rightarrow> u8 list \<times> u8 list" where
  "gets max_n input = gets_from max_n 0 input"

section \<open>Printing numbers\<close>

definition udigits :: "u8 list" where
  "udigits = map (\<lambda>c. of_nat (of_char c)) ''0123456789ABCDEF''"

function udigits_rev :: "nat \<Rightarrow> nat \<Rightarrow> u8 list" where
  "udigits_rev base x = udigits ! (x mod base) # (if x div base = 0 \<or> base < 2 then [] else udigits_rev base (x div base))"
  by pat_completeness auto
termination
  by (relation "measure snd") (auto simp: div_less_dividend div_greater_zero_iff)

declare udigits_rev.simps [simp del]

definition uprintint :: "u32 \<Rightarrow> nat \<Rightarrow> bool \<Rightarrow> u8 list" where
  "uprintint xx base sign =
     (let neg = (sign \<and> xx <s 0);
          x = (if neg then - xx else xx);
          buf = udigits_rev base (unat x) @ (if neg then [45] else [])
      in rev buf)"

definition uprintptr :: "u64 \<Rightarrow> u8 list" where
  "uprintptr x = [48, 120] @ map (\<lambda>i. udigits ! unat (drop_bit 60 (push_bit (4 * i) x))) [0..<16]"

datatype uva = UNum u64 | UStr "u8 list option"

text \<open>One conversion of \<open>vprintf\<close>: the text, the remaining arguments and the characters taken after the first.\<close>

definition vconversion :: "u8 \<Rightarrow> u8 \<Rightarrow> u8 \<Rightarrow> uva list \<Rightarrow> (u8 list \<times> uva list \<times> nat) option" where
  "vconversion c0 c1 c2 ap =
     (let num = (\<lambda>base sign k. case ap of UNum a # ap \<Rightarrow> Some (uprintint (ucast a) base sign, ap, k) | _ \<Rightarrow> None)
      in if c0 = 100 then num 10 True 0
         else if c0 = 108 \<and> c1 = 100 then num 10 True 1
         else if c0 = 108 \<and> c1 = 108 \<and> c2 = 100 then num 10 True 2
         else if c0 = 117 then num 10 False 0
         else if c0 = 108 \<and> c1 = 117 then num 10 False 1
         else if c0 = 108 \<and> c1 = 108 \<and> c2 = 117 then num 10 False 2
         else if c0 = 120 then num 16 False 0
         else if c0 = 108 \<and> c1 = 120 then num 16 False 1
         else if c0 = 108 \<and> c1 = 108 \<and> c2 = 120 then num 16 False 2
         else if c0 = 112 then (case ap of UNum a # ap \<Rightarrow> Some (uprintptr a, ap, 0) | _ \<Rightarrow> None)
         else if c0 = 115 then
           (case ap of UStr None # ap \<Rightarrow> Some (map (\<lambda>c. of_nat (of_char c)) ''(null)'', ap, 0)
            | UStr (Some t) # ap \<Rightarrow> Some (strcpy t, ap, 0) | _ \<Rightarrow> None)
         else if c0 = 37 then Some ([37], ap, 0)
         else Some ([37, c0], ap, 0))"

text \<open>The text of a call of \<open>vprintf\<close>; \<open>None\<close> where an argument is missing or of the wrong kind.\<close>

function vprintf :: "u8 list \<Rightarrow> uva list \<Rightarrow> u8 list option" where
  "vprintf fmt ap =
     (case fmt of
        [] \<Rightarrow> Some []
      | c # rest \<Rightarrow>
          if c = 0 then Some []
          else if c \<noteq> 37 then map_option ((#) c) (vprintf rest ap)
          else if char_at rest 0 = 0 then Some []
          else case vconversion (char_at rest 0) (char_at rest 1) (if char_at rest 1 = 0 then 0 else char_at rest 2) ap of
                 None \<Rightarrow> None
               | Some (t, ap, k) \<Rightarrow> map_option ((@) t) (vprintf (drop (Suc k) rest) ap))"
  by pat_completeness auto
termination
  by (relation "measure (\<lambda>(fmt, _). length fmt)") auto

declare vprintf.simps [simp del]

section \<open>Numbers can be read back\<close>

lemma udigits_nth: "d < 10 \<Longrightarrow> udigits ! d = of_nat d + 48"
proof -
  assume "d < 10"
  then have "d \<in> set [0..<10]" by simp
  then show ?thesis by (auto simp: udigits_def upt_rec)
qed

lemma atoi_digit:
  assumes "d < 10"
  shows "atoi_from n (udigits ! d # s) = atoi_from (n * 10 + of_nat d) s"
proof -
  have u: "unat (of_nat d + 48 :: u8) = d + 48"
    using assms by (simp add: unat_word_ariths unat_of_nat take_bit_nat_eq_self)
  then have "48 \<le> (of_nat d + 48 :: u8) \<and> (of_nat d + 48 :: u8) \<le> 57" using assms by (simp add: word_le_nat_alt)
  moreover have "(ucast (of_nat d + 48 :: u8) :: u32) = of_nat (d + 48)"
    by (rule trans [OF _ arg_cong [OF u, of of_nat]]) simp
  ultimately show ?thesis using assms by (subst atoi_from.simps) (simp add: char_at_def udigits_nth)
qed

lemma atoi_digits: "atoi_from 0 (rev (udigits_rev 10 x) @ rest) = atoi_from (of_nat x) rest"
proof (induction x arbitrary: rest rule: less_induct)
  case (less x)
  have d: "x mod 10 < 10" by simp
  show ?case
  proof (cases "x div 10 = 0")
    case True
    then have "x mod 10 = x" by simp
    with True atoi_digit [OF d, of 0 rest] show ?thesis by (subst udigits_rev.simps) simp
  next
    case False
    then have "x div 10 < x" by simp
    then have "atoi_from 0 (rev (udigits_rev 10 (x div 10)) @ udigits ! (x mod 10) # rest) =
        atoi_from (of_nat (x div 10)) (udigits ! (x mod 10) # rest)" by (rule less.IH)
    also have "\<dots> = atoi_from (of_nat (x div 10 * 10 + x mod 10)) rest" by (simp only: atoi_digit [OF d] of_nat_add of_nat_mult of_nat_numeral)
    finally show ?thesis using False by (subst udigits_rev.simps) simp
  qed
qed

text \<open>
  C40. Round trip: what \<open>printf\<close> of the user library prints for an unsigned number, followed by anything but a digit,
  \<open>atoi\<close> reads back, for every 32-bit number; of a negative number printed with \<open>%d\<close> it reads 0,
  because it does not know the sign.
\<close>

theorem atoi_printint:
  assumes "\<not> (48 \<le> char_at rest 0 \<and> char_at rest 0 \<le> 57)"
  shows "atoi (uprintint x 10 False @ rest) = x \<and> (x <s 0 \<longrightarrow> atoi (uprintint x 10 True @ rest) = 0) \<and>
    (\<not> x <s 0 \<longrightarrow> atoi (uprintint x 10 True @ rest) = x)"
proof -
  have "atoi_from n rest = n" for n using assms by (subst atoi_from.simps) auto
  then have r: "atoi (uprintint x 10 False @ rest) = x"
    by (simp add: atoi_def uprintint_def atoi_digits)
  moreover have "atoi (45 # s) = 0" for s by (simp add: atoi_def atoi_from.simps [of 0 "45 # s"] char_at_def)
  moreover have "uprintint x 10 True = (if x <s 0 then 45 # uprintint (- x) 10 False else uprintint x 10 False)"
    by (simp add: uprintint_def)
  ultimately show ?thesis by simp
qed

theorem atoi_printint_witness: "atoi (uprintint 504 10 False @ [10]) = 504"
  using atoi_printint [of "[10]" 504] by (simp add: char_at_def)

end
