(* ===== verification/Grep.thy ===== *)
theory Grep
  imports Ulib
begin

text \<open>
  The pattern matcher and the line filter of user/grep.c, and the counter of user/wc.c. What the reads of a
  file return is an argument, the list of the chunks; what the program writes is its result.
\<close>

section \<open>Patterns\<close>

function (sequential) matchhere :: "u8 list \<Rightarrow> u8 list \<Rightarrow> bool"
  and matchstar :: "u8 \<Rightarrow> u8 list \<Rightarrow> u8 list \<Rightarrow> bool" where
  "matchhere re text =
     (if char_at re 0 = 0 then True
      else if char_at re 1 = 42 then matchstar (char_at re 0) (drop 2 re) text
      else if char_at re 0 = 36 \<and> char_at re 1 = 0 then char_at text 0 = 0
      else if char_at text 0 \<noteq> 0 \<and> (char_at re 0 = 46 \<or> char_at re 0 = char_at text 0) then matchhere (drop 1 re) (drop 1 text)
      else False)"
| "matchstar c re text =
     (if matchhere re text then True
      else if char_at text 0 \<noteq> 0 \<and> (char_at text 0 = c \<or> c = 46) then matchstar c re (drop 1 text)
      else False)"
  by pat_completeness auto
termination
  by (relation "measures [\<lambda>x. case x of Inl (re, text) \<Rightarrow> length re | Inr (c, re, text) \<Rightarrow> length re,
      \<lambda>x. case x of Inl (re, text) \<Rightarrow> length text | Inr (c, re, text) \<Rightarrow> length text,
      \<lambda>x. case x of Inl _ \<Rightarrow> 0 | Inr _ \<Rightarrow> 1]") (auto dest!: char_at_nonzero)

declare matchhere.simps [simp del] matchstar.simps [simp del]

text \<open>The loop of \<open>match\<close> looks at the text and all its proper ends, the empty one included.\<close>

function match_from :: "u8 list \<Rightarrow> u8 list \<Rightarrow> bool" where
  "match_from re text =
     (if matchhere re text then True
      else if char_at text 0 \<noteq> 0 then match_from re (drop 1 text)
      else False)"
  by pat_completeness auto
termination
  by (relation "measure (\<lambda>(re, text). length text)") (auto dest!: char_at_nonzero)

declare match_from.simps [simp del]

definition match :: "u8 list \<Rightarrow> u8 list \<Rightarrow> bool" where
  "match re text = (if char_at re 0 = 94 then matchhere (drop 1 re) text else match_from re text)"

section \<open>Lines\<close>

text \<open>The inner loop on the bytes of the buffer: the lines it writes, and the rest that stays in the buffer.\<close>

function grep_lines :: "u8 list \<Rightarrow> u8 list \<Rightarrow> u8 list list \<times> u8 list" where
  "grep_lines pattern p =
     (case strchr p 10 of
        None \<Rightarrow> ([], p)
      | Some q \<Rightarrow>
          let (out, rest) = grep_lines pattern (drop (Suc q) p)
          in (if match pattern (take q p) then take (Suc q) p # out else out, rest))"
  by pat_completeness auto
termination
proof (relation "measure (\<lambda>(pattern, p). length p)")
  fix pattern p q
  assume "strchr p 10 = Some q"
  then have "p \<noteq> []" by auto
  then show "((pattern, drop (Suc q) p), pattern, p) \<in> measure (\<lambda>(pattern, p). length p)" by simp
qed simp

declare grep_lines.simps [simp del]

text \<open>A read of no byte, at the end of the file or for a full buffer, ends the loop.\<close>

fun grep :: "u8 list \<Rightarrow> u8 list \<Rightarrow> u8 list list \<Rightarrow> u8 list list" where
  "grep pattern buf [] = []"
| "grep pattern buf (chunk # chunks) =
     (if chunk = [] then []
      else let (out, rest) = grep_lines pattern (buf @ chunk) in out @ grep pattern rest chunks)"

section \<open>What the matcher decides\<close>

text \<open>
  A pattern is a list of items, each a byte or any byte, once or repeated, and a final anchor or not. The language of
  the items is the reference.
\<close>

datatype item = One u8 | Star u8

definition fits :: "u8 \<Rightarrow> u8 \<Rightarrow> bool" where
  "fits c x \<longleftrightarrow> c = 46 \<or> c = x"

fun items :: "u8 list \<Rightarrow> item list \<times> bool" where
  "items [] = ([], False)"
| "items [c] = (if c = 36 then ([], True) else ([One c], False))"
| "items (c # d # re) =
     (if d = 42 then let (is, e) = items re in (Star c # is, e)
      else let (is, e) = items (d # re) in (One c # is, e))"

fun lang :: "item list \<Rightarrow> u8 list set" where
  "lang [] = {[]}"
| "lang (One c # is) = {x # w | x w. fits c x \<and> w \<in> lang is}"
| "lang (Star c # is) = {v @ w | v w. (\<forall>x\<in>set v. fits c x) \<and> w \<in> lang is}"

definition matches_at :: "item list \<times> bool \<Rightarrow> u8 list \<Rightarrow> bool" where
  "matches_at p text \<longleftrightarrow> (\<exists>w rest. text = w @ rest \<and> w \<in> lang (fst p) \<and> (snd p \<longrightarrow> rest = []))"

lemma matches_Nil: "matches_at ([], e) text \<longleftrightarrow> (e \<longrightarrow> text = [])"
  by (auto simp: matches_at_def)

lemma matches_One: "matches_at (One c # is, e) text \<longleftrightarrow> (\<exists>x t. text = x # t \<and> fits c x \<and> matches_at (is, e) t)" (is "_ = ?R")
proof
  assume "matches_at (One c # is, e) text"
  then obtain x w rest where "text = (x # w) @ rest" "fits c x" "w \<in> lang is" "e \<longrightarrow> rest = []"
    unfolding matches_at_def fst_conv snd_conv lang.simps by blast
  then show ?R by (intro exI [of _ x] exI [of _ "w @ rest"]) (auto simp: matches_at_def)
next
  assume ?R
  then obtain x w rest where "text = x # w @ rest" "fits c x" "w \<in> lang is" "e \<longrightarrow> rest = []"
    unfolding matches_at_def fst_conv snd_conv lang.simps by blast
  then show "matches_at (One c # is, e) text"
    unfolding matches_at_def by (intro exI [of _ "x # w"] exI [of _ rest]) auto
qed

lemma matches_Star: "matches_at (Star c # is, e) text \<longleftrightarrow> (\<exists>v t. text = v @ t \<and> (\<forall>x\<in>set v. fits c x) \<and> matches_at (is, e) t)" (is "_ = ?R")
proof
  assume "matches_at (Star c # is, e) text"
  then obtain v w rest where "text = (v @ w) @ rest" "\<forall>x\<in>set v. fits c x" "w \<in> lang is" "e \<longrightarrow> rest = []"
    unfolding matches_at_def fst_conv snd_conv lang.simps by blast
  then show ?R by (intro exI [of _ v] exI [of _ "w @ rest"]) (auto simp: matches_at_def)
next
  assume ?R
  then obtain v w rest where "text = v @ w @ rest" "\<forall>x\<in>set v. fits c x" "w \<in> lang is" "e \<longrightarrow> rest = []"
    unfolding matches_at_def fst_conv snd_conv lang.simps by blast
  then show "matches_at (Star c # is, e) text"
    unfolding matches_at_def by (intro exI [of _ "v @ w"] exI [of _ rest]) auto
qed

lemma char_at_Cons [simp]: "char_at (x # s) 0 = x" "char_at (x # s) (Suc i) = char_at s i" "char_at [] i = 0"
  by (simp_all add: char_at_def)

lemma char_at_0_iff: "0 \<notin> set s \<Longrightarrow> char_at s 0 = 0 \<longleftrightarrow> s = []"
  by (cases s) auto

text \<open>The ways to cut a list in two.\<close>

lemma cut_Cons: "(\<exists>v t. x # xs = v @ t \<and> Q v t) \<longleftrightarrow> Q [] (x # xs) \<or> (\<exists>v t. xs = v @ t \<and> Q (x # v) t)" (is "?L = ?R")
proof
  assume ?L
  then obtain v t where "x # xs = v @ t" "Q v t" by blast
  then show ?R by (cases v) auto
next
  assume ?R
  then show ?L
  proof
    assume "Q [] (x # xs)"
    then show ?thesis by (intro exI [of _ "[]"] exI [of _ "x # xs"]) simp
  next
    assume "\<exists>v t. xs = v @ t \<and> Q (x # v) t"
    then obtain v t where "xs = v @ t" "Q (x # v) t" by blast
    then show ?thesis by (intro exI [of _ "x # v"] exI [of _ t]) simp
  qed
qed

lemma matchstar_iff:
  assumes "0 \<notin> set text" and here: "\<And>t. 0 \<notin> set t \<Longrightarrow> length t \<le> length text \<Longrightarrow> matchhere re t = P t"
  shows "matchstar c re text \<longleftrightarrow> (\<exists>v t. text = v @ t \<and> (\<forall>x\<in>set v. fits c x) \<and> P t)"
  using assms
proof (induction "text")
  case Nil
  then show ?case by (subst matchstar.simps) simp
next
  case (Cons x "text")
  have IH: "matchstar c re text \<longleftrightarrow> (\<exists>v t. text = v @ t \<and> (\<forall>x\<in>set v. fits c x) \<and> P t)"
    using Cons by simp
  have "matchstar c re (x # text) \<longleftrightarrow> P (x # text) \<or> fits c x \<and> matchstar c re text"
    using Cons.prems by (subst matchstar.simps) (auto simp: fits_def)
  also have "\<dots> \<longleftrightarrow> (\<exists>v t. x # text = v @ t \<and> (\<forall>x\<in>set v. fits c x) \<and> P t)"
    unfolding IH cut_Cons by simp blast
  finally show ?case .
qed

lemma matchhere_iff:
  assumes "0 \<notin> set re" "0 \<notin> set text"
  shows "matchhere re text \<longleftrightarrow> matches_at (items re) text"
  using assms
proof (induction re arbitrary: "text" rule: items.induct)
  case 1
  then show ?case by (subst matchhere.simps) (simp add: matches_Nil)
next
  case (2 c)
  then show ?case
    by (cases "text") (auto simp: matchhere.simps [of "[c]"] matchhere.simps [of "[]"] matches_Nil matches_One fits_def)
next
  case (3 c d re)
  obtain qs e where ie: "items re = (qs, e)" by fastforce
  obtain qs' e' where ie': "items (d # re) = (qs', e')" by fastforce
  show ?case
  proof (cases "d = 42")
    case True
    then have "matchhere (c # d # re) text \<longleftrightarrow> matchstar c re text"
      using 3(3) by (subst matchhere.simps) simp
    also have "\<dots> \<longleftrightarrow> matches_at (Star c # qs, e) text"
      unfolding matches_Star using 3 True ie by (intro matchstar_iff) simp_all
    finally show ?thesis using True ie by simp
  next
    case False
    then have "matchhere (c # d # re) text \<longleftrightarrow> (\<exists>x t. text = x # t \<and> fits c x \<and> matchhere (d # re) t)"
      using 3(3,4) by (subst matchhere.simps) (cases "text"; auto simp: fits_def)
    also have "\<dots> \<longleftrightarrow> matches_at (One c # qs', e') text"
      unfolding matches_One using 3(2) [OF False] 3(3,4) ie' by auto
    finally show ?thesis using False ie' by simp
  qed
qed

lemma match_from_iff:
  assumes "0 \<notin> set re" "0 \<notin> set text"
  shows "match_from re text \<longleftrightarrow> (\<exists>a b. text = a @ b \<and> matches_at (items re) b)"
  using assms(2)
proof (induction "text")
  case Nil
  then show ?case using assms(1) by (subst match_from.simps) (simp add: matchhere_iff)
next
  case (Cons x "text")
  then have "match_from re (x # text) \<longleftrightarrow> matches_at (items re) (x # text) \<or> match_from re text"
    using assms(1) by (subst match_from.simps) (auto simp: matchhere_iff)
  also have "\<dots> \<longleftrightarrow> (\<exists>a b. x # text = a @ b \<and> matches_at (items re) b)"
    unfolding cut_Cons using Cons by simp
  finally show ?case .
qed

text \<open>
  C30. The matcher of grep decides the language of its patterns: a pattern that starts with a caret matches a text that has
  a beginning in the language of the rest of the pattern, any other pattern one that contains such a word, and a final dollar
  sign asks that the word ends the text. It ends on every pattern and text.
\<close>

theorem match_language:
  assumes "0 \<notin> set re" "0 \<notin> set text"
  shows "match re text \<longleftrightarrow>
    (if char_at re 0 = 94 then matches_at (items (drop 1 re)) text
     else \<exists>a b. text = a @ b \<and> matches_at (items re) b)"
  using assms matchhere_iff [of "drop 1 re" "text"] match_from_iff [OF assms]
  by (auto simp: match_def dest: in_set_dropD)

theorem match_language_witness: "match [97, 42, 98] [99, 97, 97, 98, 100]"
proof -
  have "match [97, 42, 98] [99, 97, 97, 98, 100] \<longleftrightarrow>
      (\<exists>a b. [99, 97, 97, 98, 100] = a @ b \<and> matches_at (items [97, 42, 98]) b)"
    using match_language [of "[97, 42, 98]" "[99, 97, 97, 98, 100]"] by simp
  moreover have "matches_at (items [97, 42, 98]) [97, 97, 98, 100]"
    by (simp add: matches_Star matches_One matches_Nil fits_def exI [of _ "[97, 97]"])
  ultimately show ?thesis by (metis append_Cons append_Nil)
qed


section \<open>The filter does not depend on how the file is read\<close>

lemma strchr_append: "strchr a c = Some q \<Longrightarrow> strchr (a @ b) c = Some q"
  by (induction a arbitrary: q) (auto split: if_splits)

lemma strchr_less: "strchr a c = Some q \<Longrightarrow> q < length a"
  by (induction a arbitrary: q) (auto split: if_splits)

lemma grep_lines_append:
  "fst (grep_lines pattern (a @ b)) = fst (grep_lines pattern a) @ fst (grep_lines pattern (snd (grep_lines pattern a) @ b))"
proof (induction pattern a rule: grep_lines.induct)
  case (1 pattern p)
  show ?case
  proof (cases "strchr p 10")
    case None
    then show ?thesis by (simp add: grep_lines.simps [of pattern p])
  next
    case (Some q)
    with strchr_less [OF Some] 1 [OF Some] show ?thesis
      by (simp add: grep_lines.simps [of pattern p] grep_lines.simps [of pattern "p @ b"] strchr_append case_prod_beta)
  qed
qed

lemma grep_chunks:
  assumes "[] \<notin> set chunks"
  shows "grep pattern buf chunks = fst (grep_lines pattern (buf @ concat chunks)) \<or> chunks = []"
  using assms
proof (induction chunks arbitrary: buf)
  case (Cons chunk chunks)
  then have ne: "chunk \<noteq> []" by auto
  show ?case
  proof (cases "chunks = []")
    case False
    with Cons have "grep pattern (snd (grep_lines pattern (buf @ chunk))) chunks =
        fst (grep_lines pattern (snd (grep_lines pattern (buf @ chunk)) @ concat chunks))" by auto
    with ne grep_lines_append [of pattern "buf @ chunk" "concat chunks"] show ?thesis
      by (simp add: case_prod_beta)
  qed (simp add: ne case_prod_beta)
qed simp

section \<open>Counting\<close>

text \<open>The counters of \<open>wc\<close>: lines, words, bytes, and whether the last byte was inside of a word.\<close>

definition wc_blanks :: "u8 list" where
  "wc_blanks = [32, 13, 9, 10, 11]"

text \<open>\<open>strchr\<close> on the list of blanks; the zero byte is not among them.\<close>

definition wc_byte :: "u8 \<Rightarrow> nat \<times> nat \<times> nat \<times> bool \<Rightarrow> nat \<times> nat \<times> nat \<times> bool" where
  "wc_byte b st =
     (case st of (l, w, c, inword) \<Rightarrow>
        let c = c + 1;
            l = (if b = 10 then l + 1 else l)
        in if strchr wc_blanks b \<noteq> None then (l, w, c, False)
           else if \<not> inword then (l, w + 1, c, True)
           else (l, w, c, inword))"

definition wc :: "u8 list list \<Rightarrow> nat \<times> nat \<times> nat" where
  "wc chunks = (case fold (fold wc_byte) chunks (0, 0, 0, False) of (l, w, c, _) \<Rightarrow> (l, w, c))"

lemma fold_wc_counts:
  "fold wc_byte bs (l, w, c, i) = (l', w', c', i') \<Longrightarrow> l' = l + length (filter (\<lambda>b. b = 10) bs) \<and> c' = c + length bs \<and> w' \<le> w + length bs"
  by (induction bs arbitrary: l w c i) (auto simp: wc_byte_def Let_def split: if_splits, fastforce+)

lemma wc_counts: "wc chunks = (l, w, c) \<Longrightarrow> l = length (filter (\<lambda>b. b = 10) (concat chunks)) \<and> c = length (concat chunks) \<and> w \<le> c"
proof -
  have "fold (fold wc_byte) chunks st = fold wc_byte (concat chunks) st" for st
    by (induction chunks arbitrary: st) simp_all
  then show "wc chunks = (l, w, c) \<Longrightarrow> ?thesis"
    using fold_wc_counts [of "concat chunks" 0 0 0 False] by (auto simp: wc_def split: prod.splits)
qed

end
