(* ===== verification/Umalloc.thy ===== *)
theory Umalloc
  imports Prelude
begin

text \<open>
  The allocator of the user library (user/umalloc.c). Addresses count headers of 16 bytes. The header at an
  address is the pair of \<open>hptr\<close> and \<open>hsize\<close> there; \<open>mbase\<close> is the address of the static header \<open>base\<close>,
  \<open>freep\<close> is \<open>None\<close> before the first call. What \<open>sbrk\<close> answers is a parameter: \<open>grow e nu\<close> tells
  whether the kernel lets the process grow by \<open>nu\<close> headers when its memory ends at \<open>e\<close>; when it does, the
  new memory starts at that end.
\<close>

section \<open>The allocator\<close>

record mheap =
  hptr :: "nat \<Rightarrow> nat"
  hsize :: "nat \<Rightarrow> nat"
  mbase :: nat
  freep :: "nat option"
  hend :: nat

text \<open>The loops go round the list of free blocks, which lie below \<open>hend\<close>: that many rounds are enough.\<close>

definition find_place :: "nat \<Rightarrow> nat \<Rightarrow> mheap \<Rightarrow> (nat, mheap) run" where
  "find_place bp p s =
     loop (Suc (2 * hend s)) (\<lambda>p s.
       if p < bp \<and> bp < hptr s p then Ret (Inr p) s
       else if hptr s p \<le> p \<and> (p < bp \<or> bp < hptr s p) then Ret (Inr p) s
       else Ret (Inl (hptr s p)) s) p s"

definition link_block :: "nat \<Rightarrow> nat \<Rightarrow> mheap \<Rightarrow> mheap" where
  "link_block bp p s =
     (let n = hptr s p;
          s = (if bp + hsize s bp = n
               then s\<lparr>hsize := (hsize s)(bp := hsize s bp + hsize s n), hptr := (hptr s)(bp := hptr s n)\<rparr>
               else s\<lparr>hptr := (hptr s)(bp := n)\<rparr>);
          s = (if p + hsize s p = bp
               then s\<lparr>hsize := (hsize s)(p := hsize s p + hsize s bp), hptr := (hptr s)(p := hptr s bp)\<rparr>
               else s\<lparr>hptr := (hptr s)(p := bp)\<rparr>)
      in s\<lparr>freep := Some p\<rparr>)"

text \<open>\<open>ap\<close> is the address after the header.\<close>

definition ufree :: "nat \<Rightarrow> mheap \<Rightarrow> (unit, mheap) run" where
  "ufree ap s =
     (let bp = ap - 1
      in case freep s of
           None \<Rightarrow> Undef
         | Some p \<Rightarrow> bnd (find_place bp p s) (\<lambda>p s. Ret () (link_block bp p s)))"

definition morecore :: "(nat \<Rightarrow> nat \<Rightarrow> bool) \<Rightarrow> nat \<Rightarrow> mheap \<Rightarrow> (nat option, mheap) run" where
  "morecore grow nu s =
     (let nu = (if nu < 4096 then 4096 else nu)
      in if \<not> grow (hend s) nu then Ret None s
         else let hp = hend s;
                  s = s\<lparr>hend := hend s + nu, hsize := (hsize s)(hp := nu)\<rparr>
              in bnd (ufree (hp + 1) s) (\<lambda>_ s. Ret (freep s) s))"

definition take_block :: "nat \<Rightarrow> nat \<Rightarrow> nat \<Rightarrow> mheap \<Rightarrow> nat \<times> mheap" where
  "take_block nunits prevp p s =
     (if hsize s p = nunits
      then (p, s\<lparr>hptr := (hptr s)(prevp := hptr s p), freep := Some prevp\<rparr>)
      else let s = s\<lparr>hsize := (hsize s)(p := hsize s p - nunits)\<rparr>;
               q = p + hsize s p
           in (q, s\<lparr>hsize := (hsize s)(q := nunits), freep := Some prevp\<rparr>))"

text \<open>Two times round the list, once before and once after the memory has grown.\<close>

definition malloc_loop :: "(nat \<Rightarrow> nat \<Rightarrow> bool) \<Rightarrow> nat \<Rightarrow> nat \<Rightarrow> mheap \<Rightarrow> (nat option, mheap) run" where
  "malloc_loop grow nunits prevp s =
     loop (4 * (hend s + nunits + 4096)) (\<lambda>(prevp, p) s.
       if nunits \<le> hsize s p
       then let (q, s) = take_block nunits prevp p s in Ret (Inr (Some (q + 1))) s
       else if Some p = freep s
       then bnd (morecore grow nunits s) (\<lambda>r s.
              case r of
                None \<Rightarrow> Ret (Inr None) s
              | Some p \<Rightarrow> Ret (Inl (p, hptr s p)) s)
       else Ret (Inl (p, hptr s p)) s) (prevp, hptr s prevp) s"

definition malloc :: "(nat \<Rightarrow> nat \<Rightarrow> bool) \<Rightarrow> nat \<Rightarrow> mheap \<Rightarrow> (nat option, mheap) run" where
  "malloc grow nbytes s =
     (let nunits = (nbytes + 16 - 1) div 16 + 1
      in case freep s of
           None \<Rightarrow>
             let b = mbase s;
                 s = s\<lparr>hptr := (hptr s)(b := b), freep := Some b, hsize := (hsize s)(b := 0)\<rparr>
             in malloc_loop grow nunits b s
         | Some prevp \<Rightarrow> malloc_loop grow nunits prevp s)"

section \<open>Circular lists as sets\<close>

text \<open>
  The free list is circular and ascending: \<open>follows F x y\<close> tells that \<open>y\<close> is the member of \<open>F\<close>
  after \<open>x\<close>, the smallest one when \<open>x\<close> is the largest.
\<close>

definition follows :: "nat set \<Rightarrow> nat \<Rightarrow> nat \<Rightarrow> bool" where
  "follows F x y \<longleftrightarrow> y \<in> F \<and> (x < y \<and> (\<forall>z\<in>F. z \<le> x \<or> y \<le> z) \<or> y \<le> x \<and> (\<forall>z\<in>F. y \<le> z \<and> z \<le> x))"

lemma followsE:
  assumes "follows F x y"
  obtains (up) "y \<in> F" "x < y" "\<And>z. z \<in> F \<Longrightarrow> z \<le> x \<or> y \<le> z"
    | (wrap) "y \<in> F" "y \<le> x" "\<And>z. z \<in> F \<Longrightarrow> y \<le> z \<and> z \<le> x"
  using assms by (auto simp: follows_def)

lemma follows_up: "y \<in> F \<Longrightarrow> x < y \<Longrightarrow> (\<And>z. z \<in> F \<Longrightarrow> z \<le> x \<or> y \<le> z) \<Longrightarrow> follows F x y"
  by (simp add: follows_def)

lemma follows_wrap: "y \<in> F \<Longrightarrow> y \<le> x \<Longrightarrow> (\<And>z. z \<in> F \<Longrightarrow> y \<le> z \<and> z \<le> x) \<Longrightarrow> follows F x y"
  by (simp add: follows_def)

lemma follows_inj: "x \<in> F \<Longrightarrow> x' \<in> F \<Longrightarrow> follows F x y \<Longrightarrow> follows F x' y \<Longrightarrow> x = x'"
  unfolding follows_def by (metis antisym leD le_cases order.trans)

lemma follows_insert:
  assumes n: "follows F p n" and p: "p \<in> F" "p < bp" and bp: "bp \<notin> F" "\<And>z. z \<in> F \<Longrightarrow> z < bp \<Longrightarrow> z \<le> p"
  shows "follows (insert bp F) p bp" and "follows (insert bp F) bp n"
    and "x \<in> F \<Longrightarrow> x \<noteq> p \<Longrightarrow> follows F x y \<Longrightarrow> follows (insert bp F) x y"
proof -
  have far: "z \<le> p \<or> bp < z" if "z \<in> F" for z using bp that by (metis linorder_neqE_nat)
  show "follows (insert bp F) p bp" using p far by (intro follows_up) (auto dest: far)
  show "follows (insert bp F) bp n"
    using n
  proof (cases rule: followsE)
    case up
    with far [of n] p far show ?thesis by (intro follows_up) (auto dest: far up(3))
  next
    case wrap
    have "n \<le> z \<and> z \<le> bp" if "z \<in> insert bp F" for z using that wrap(2) p(2) wrap(3) [of z] by auto
    with wrap(1) show ?thesis by (intro follows_wrap) auto
  qed
  show "follows (insert bp F) x y" if x: "x \<in> F" "x \<noteq> p" and y: "follows F x y"
    using y
  proof (cases rule: followsE)
    case up
    have "bp \<le> x \<or> y \<le> bp" using far [OF x(1)] x(2) up(3) [OF p(1)] p(2) by linarith
    with up show ?thesis by (intro follows_up) auto
  next
    case wrap
    have "y \<le> bp \<and> bp \<le> x" using far [OF x(1)] x(2) wrap(3) [OF p(1)] p(2) by linarith
    with wrap show ?thesis by (intro follows_wrap) auto
  qed
qed

lemma follows_remove:
  assumes xy: "follows F x y" and yz: "follows F y z" and x: "x \<in> F" "x \<noteq> y"
  shows "follows (F - {y}) x z" and "w \<in> F \<Longrightarrow> w \<noteq> x \<Longrightarrow> w \<noteq> y \<Longrightarrow> follows F w v \<Longrightarrow> follows (F - {y}) w v"
proof -
  show "follows (F - {y}) x z"
    using xy
  proof (cases rule: followsE)
    case xup: up
    show ?thesis
      using yz
    proof (cases rule: followsE)
      case up
      have "v \<le> x \<or> z \<le> v" if "v \<in> F - {y}" for v using xup(3) [of v] up(3) [of v] that by auto
      then show ?thesis using xup up by (intro follows_up) auto
    next
      case wrap
      have "z \<le> x" using wrap(3) [OF x(1)] by simp
      moreover have "v \<le> x" if "v \<in> F - {y}" for v using wrap(3) [of v] xup(3) [of v] that by auto
      ultimately show ?thesis using wrap xup by (intro follows_wrap) auto
    qed
  next
    case xwrap: wrap
    have yx: "y < x" using xwrap(2) x(2) by simp
    show ?thesis
      using yz
    proof (cases rule: followsE)
      case up
      have "z \<le> v \<and> v \<le> x" if "v \<in> F - {y}" for v using up(3) [of v] xwrap(3) [of v] that by auto
      then show ?thesis using up xwrap(3) [OF up(1)] by (intro follows_wrap) auto
    next
      case wrap
      then show ?thesis using wrap(3) [OF x(1)] yx by simp
    qed
  qed
  assume w: "w \<in> F" "w \<noteq> x" "w \<noteq> y" "follows F w v"
  then have "v \<noteq> y" using follows_inj [OF w(1) x(1)] xy by blast
  with w(4) show "follows (F - {y}) w v" unfolding follows_def by auto
qed

section \<open>The heap\<close>

text \<open>\<open>F\<close> are the free blocks, with \<open>base\<close>; \<open>A\<close> are the blocks handed out.\<close>

definition free_list :: "nat set \<Rightarrow> mheap \<Rightarrow> bool" where
  "free_list F s \<longleftrightarrow> finite F \<and> (\<forall>x\<in>F. follows F x (hptr s x)) \<and> mbase s \<in> F \<and> (\<exists>f\<in>F. freep s = Some f)"

definition blocks_ok :: "nat set \<Rightarrow> mheap \<Rightarrow> bool" where
  "blocks_ok B s \<longleftrightarrow> (\<forall>x\<in>B. x \<noteq> mbase s \<longrightarrow> mbase s < x \<and> 0 < hsize s x \<and> x + hsize s x \<le> hend s) \<and>
     (\<forall>x\<in>B. \<forall>y\<in>B. x < y \<longrightarrow> x + hsize s x \<le> y) \<and> hsize s (mbase s) = 0 \<and> mbase s < hend s"

definition heap_inv :: "nat set \<Rightarrow> nat set \<Rightarrow> mheap \<Rightarrow> bool" where
  "heap_inv F A s \<longleftrightarrow> free_list F s \<and> blocks_ok (F \<union> A) s \<and> F \<inter> A = {}"

lemma heap_base: "heap_inv F A s \<Longrightarrow> x \<in> F \<union> A \<Longrightarrow> mbase s \<le> x \<and> x < hend s"
  by (cases "x = mbase s") (auto simp: heap_inv_def blocks_ok_def)

lemma heap_apart: "heap_inv F A s \<Longrightarrow> x \<in> F \<union> A \<Longrightarrow> y \<in> F \<union> A \<Longrightarrow> x < y \<Longrightarrow> x + hsize s x \<le> y"
  unfolding heap_inv_def blocks_ok_def by metis

lemma heap_block: "heap_inv F A s \<Longrightarrow> x \<in> F \<union> A \<Longrightarrow> x \<noteq> mbase s \<Longrightarrow> mbase s < x \<and> 0 < hsize s x \<and> x + hsize s x \<le> hend s"
  unfolding heap_inv_def blocks_ok_def by metis

text \<open>Two steps on the list: a block becomes free, and a free block swallows its neighbour.\<close>

definition insert_block :: "nat \<Rightarrow> nat \<Rightarrow> mheap \<Rightarrow> mheap" where
  "insert_block bp p s = s\<lparr>hptr := (hptr s)(bp := hptr s p, p := bp), freep := Some p\<rparr>"

definition merge_block :: "nat \<Rightarrow> nat \<Rightarrow> mheap \<Rightarrow> mheap" where
  "merge_block x y s = s\<lparr>hsize := (hsize s)(x := hsize s x + hsize s y), hptr := (hptr s)(x := hptr s y)\<rparr>"

lemma insert_block_inv:
  assumes I: "heap_inv F (insert bp A) s" and "bp \<notin> A" and p: "p \<in> F" "p < bp" and z: "\<And>z. z \<in> F \<Longrightarrow> z < bp \<Longrightarrow> z \<le> p"
  shows "heap_inv (insert bp F) A (insert_block bp p s)"
proof -
  have bp: "bp \<notin> F" using I by (auto simp: heap_inv_def)
  have fl: "finite F" "\<And>x. x \<in> F \<Longrightarrow> follows F x (hptr s x)" "mbase s \<in> F" using I by (auto simp: heap_inv_def free_list_def)
  have "follows (insert bp F) x (hptr (insert_block bp p s) x)" if "x \<in> insert bp F" for x
    using that follows_insert [OF fl(2) [OF p(1)] p bp z] fl(2) [of x] p(2)
    by (cases "x = bp"; cases "x = p") (auto simp: insert_block_def)
  then have "free_list (insert bp F) (insert_block bp p s)"
    using fl p by (auto simp: free_list_def insert_block_def)
  moreover have "blocks_ok (insert bp F \<union> A) (insert_block bp p s)"
    using I by (simp add: heap_inv_def blocks_ok_def insert_block_def)
  ultimately show ?thesis using I assms(2) by (auto simp: heap_inv_def)
qed

lemma remove_list:
  assumes fl: "free_list F s" and x: "x \<in> F" "x \<noteq> y" "hptr s x = y" and y: "y \<noteq> mbase s" "\<exists>f\<in>F - {y}. fp = Some f"
  shows "free_list (F - {y}) (s\<lparr>hptr := (hptr s)(x := hptr s y), hsize := sz, freep := fp\<rparr>)"
proof -
  have f: "\<And>x. x \<in> F \<Longrightarrow> follows F x (hptr s x)" using fl by (simp add: free_list_def)
  have yF: "y \<in> F" using f [OF x(1)] x(3) by (auto simp: follows_def)
  note r = follows_remove [OF f [OF x(1), unfolded x(3)] f [OF yF] x(1,2)]
  have "follows (F - {y}) w (((hptr s)(x := hptr s y)) w)" if "w \<in> F - {y}" for w
    using that r f by (cases "w = x") auto
  then show ?thesis using fl y by (auto simp: free_list_def)
qed

lemma merge_block_inv:
  assumes I: "heap_inv F A s" and x: "x \<in> F" "hptr s x = y" "x < y" "x + hsize s x = y" and f: "freep s \<noteq> Some y"
  shows "heap_inv (F - {y}) A (merge_block x y s)"
proof -
  have fl: "free_list F s" and b: "blocks_ok (F \<union> A) s" using I by (auto simp: heap_inv_def)
  have y: "y \<in> F" using fl x(1,2) by (auto simp: free_list_def follows_def)
  have nb: "x \<noteq> mbase s" "y \<noteq> mbase s" using b x y heap_base [OF I, of x] by (auto simp: blocks_ok_def)
  obtain g where g: "freep s = Some g" "g \<in> F - {y}" using fl f by (auto simp: free_list_def)
  have "free_list (F - {y}) (s\<lparr>hptr := (hptr s)(x := hptr s y), hsize := (hsize s)(x := hsize s x + hsize s y), freep := freep s\<rparr>)"
    using x nb g by (intro remove_list [OF fl]) auto
  then have "free_list (F - {y}) (merge_block x y s)" by (simp add: merge_block_def free_list_def)
  moreover have "blocks_ok (F - {y} \<union> A) (merge_block x y s)"
  proof -
    have yb: "y + hsize s y \<le> hend s" "0 < hsize s y" using heap_block [OF I, of y] y nb by auto
    have above: "x + (hsize s x + hsize s y) \<le> w" if w: "w \<in> F - {y} \<union> A" "x < w" for w
    proof -
      have "y \<le> w" using heap_apart [OF I, of x w] w x by auto
      moreover have "w \<noteq> y" using w I y by (auto simp: heap_inv_def)
      ultimately have "y + hsize s y \<le> w" using heap_apart [OF I, of y w] w y by auto
      with x(4) show ?thesis by simp
    qed
    have "mbase s < w \<and> 0 < hsize (merge_block x y s) w \<and> w + hsize (merge_block x y s) w \<le> hend s"
      if "w \<in> F - {y} \<union> A" "w \<noteq> mbase s" for w
      using heap_block [OF I, of w] that x yb by (auto simp: merge_block_def)
    moreover have "w + hsize (merge_block x y s) w \<le> v" if "w \<in> F - {y} \<union> A" "v \<in> F - {y} \<union> A" "w < v" for w v
      using heap_apart [OF I, of w v] that above [of v] by (auto simp: merge_block_def)
    ultimately show ?thesis using b nb by (simp add: blocks_ok_def merge_block_def)
  qed
  ultimately show ?thesis using I by (auto simp: heap_inv_def)
qed

lemma link_block_split:
  assumes "p < bp" "hptr s p \<noteq> bp"
  shows "link_block bp p s =
    (let t = insert_block bp p s;
         t = (if bp + hsize t bp = hptr t bp then merge_block bp (hptr t bp) t else t)
     in if p + hsize t p = bp then merge_block p bp t else t)"
  using assms
  by (auto simp: link_block_def insert_block_def merge_block_def Let_def fun_upd_twist)

lemma link_block_inv:
  assumes I: "heap_inv F (insert bp A) s" and A: "bp \<notin> A" and p: "p \<in> F" "p < bp" and z: "\<And>z. z \<in> F \<Longrightarrow> z < bp \<Longrightarrow> z \<le> p"
  shows "\<exists>F'. heap_inv F' A (link_block bp p s) \<and> (\<exists>y\<in>F'. hsize s bp \<le> hsize (link_block bp p s) y)"
    and "\<forall>a\<in>A. hsize (link_block bp p s) a = hsize s a"
    and "hend (link_block bp p s) = hend s" "freep (link_block bp p s) = Some p" "mbase (link_block bp p s) = mbase s"
proof -
  have "bp \<noteq> mbase s" using p heap_base [OF I, of p] by auto
  then have sz: "0 < hsize s bp" using heap_block [OF I, of bp] by auto
  define t where "t = insert_block bp p s"
  define n where "n = hptr s p"
  have t: "hptr t bp = n" "hptr t p = bp" "hsize t = hsize s" "freep t = Some p" using p(2) by (simp_all add: t_def insert_block_def n_def)
  have It: "heap_inv (insert bp F) A t" unfolding t_def by (rule insert_block_inv [OF I A p z])
  define u where "u = (if bp + hsize t bp = n then merge_block bp n t else t)"
  have nF: "n \<in> F" using I p(1) by (auto simp: heap_inv_def free_list_def follows_def n_def)
  have nb: "hptr s p \<noteq> bp" using I nF by (auto simp: heap_inv_def n_def)
  have pA: "p \<notin> A" "n \<notin> A" using I p(1) nF by (auto simp: heap_inv_def)
  have "\<exists>F'. heap_inv F' A u \<and> bp \<in> F' \<and> p \<in> F'"
  proof (cases "bp + hsize t bp = n")
    case True
    then have "bp < n" using sz t(3) by simp
    with True t It p(2) have "heap_inv (insert bp F - {n}) A u" unfolding u_def by (auto intro!: merge_block_inv)
    with \<open>bp < n\<close> p show ?thesis by (intro exI [of _ "insert bp F - {n}"]) auto
  next
    case False
    with It p show ?thesis unfolding u_def by (intro exI [of _ "insert bp F"]) auto
  qed
  then obtain G where G: "heap_inv G A u" "bp \<in> G" "p \<in> G" by blast
  have u: "hptr u p = bp" "freep u = Some p" "hsize s bp \<le> hsize u bp" using t p(2) by (auto simp: u_def merge_block_def)
  have l: "link_block bp p s = (if p + hsize u p = bp then merge_block p bp u else u)"
    unfolding link_block_split [OF p(2) nb] Let_def t_def [symmetric] u_def [symmetric] t(1) ..
  show "\<exists>F'. heap_inv F' A (link_block bp p s) \<and> (\<exists>y\<in>F'. hsize s bp \<le> hsize (link_block bp p s) y)"
  proof (cases "p + hsize u p = bp")
    case True
    with G u p(2) have "heap_inv (G - {bp}) A (link_block bp p s)" unfolding l by (auto intro!: merge_block_inv)
    moreover have "hsize s bp \<le> hsize (link_block bp p s) p" using True u by (simp add: l merge_block_def)
    ultimately show ?thesis using G p(2) by (intro exI [of _ "G - {bp}"]) auto
  next
    case False
    with G u l show ?thesis by (intro exI [of _ G]) auto
  qed
  show "\<forall>a\<in>A. hsize (link_block bp p s) a = hsize s a"
    using A pA by (auto simp: l u_def t_def merge_block_def insert_block_def)
  show "hend (link_block bp p s) = hend s" "freep (link_block bp p s) = Some p" "mbase (link_block bp p s) = mbase s"
    by (simp_all add: link_block_def Let_def)
qed

section \<open>Finding the place\<close>

text \<open>The way from \<open>p\<close> to \<open>y\<close> along the list, in addresses.\<close>

definition way :: "nat \<Rightarrow> nat \<Rightarrow> nat \<Rightarrow> nat" where
  "way e p y = (if p \<le> y then y - p else (e - p) + Suc y)"

lemma way_step:
  assumes I: "heap_inv F A s" and "p \<in> F" "y \<in> F" "p \<noteq> y"
  shows "way (hend s) (hptr s p) y < way (hend s) p y"
proof -
  have f: "follows F p (hptr s p)" using I assms(2) by (simp add: heap_inv_def free_list_def)
  have e: "p < hend s" "y < hend s" using heap_base [OF I] assms by auto
  show ?thesis
    using f
  proof (cases rule: followsE)
    case up
    with up(3) [OF assms(3)] assms(4) e heap_base [OF I, of "hptr s p"] show ?thesis by (auto simp: way_def)
  next
    case wrap
    with wrap(3) [OF assms(3)] assms(4) e show ?thesis by (auto simp: way_def)
  qed
qed

lemma find_place_ok:
  assumes I: "heap_inv F (insert bp A) s" and p: "p \<in> F"
  shows "\<exists>q\<in>F. find_place bp p s = Ret q s \<and> q < bp \<and> (\<forall>z\<in>F. z < bp \<longrightarrow> z \<le> q)"
proof -
  have bp: "bp \<notin> F" using I by (auto simp: heap_inv_def)
  have fl: "finite F" "\<And>x. x \<in> F \<Longrightarrow> follows F x (hptr s x)" "mbase s \<in> F" using I by (auto simp: heap_inv_def free_list_def)
  have mb: "mbase s < bp" using heap_base [OF I, of bp] bp fl(3) by (metis UnCI insertI1 le_neq_implies_less)
  define y where "y = Max {z\<in>F. z < bp}"
  have "y \<in> {z\<in>F. z < bp}" unfolding y_def using fl mb by (intro Max_in) auto
  then have y: "y \<in> F" "y < bp" "\<And>z. z \<in> F \<Longrightarrow> z < bp \<Longrightarrow> z \<le> y" using fl(1) by (auto simp: y_def)
  define body :: "nat \<Rightarrow> mheap \<Rightarrow> (nat + nat, mheap) run" where "body = (\<lambda>p s. if p < bp \<and> bp < hptr s p then Ret (Inr p) s
       else if hptr s p \<le> p \<and> (p < bp \<or> bp < hptr s p) then Ret (Inr p) s
       else Ret (Inl (hptr s p)) s)"
  have stop: "body q s = (if q = y then Ret (Inr q) s else Ret (Inl (hptr s q)) s)" if q: "q \<in> F" for q
    using fl(2) [OF q]
  proof (cases rule: followsE)
    case up
    have c: "hptr s q \<noteq> bp" "hptr s q < bp \<Longrightarrow> hptr s q \<le> y" "q < bp \<Longrightarrow> q \<le> y" "y \<le> q \<or> hptr s q \<le> y"
      using up(1) bp y(3) q up(3) [OF y(1)] by auto
    have "(q < bp \<and> bp < hptr s q) = (q = y)"
    proof
      assume "q < bp \<and> bp < hptr s q"
      then show "q = y" using c y(2) by linarith
    next
      assume "q = y"
      then show "q < bp \<and> bp < hptr s q" using c y(2) up(2) by linarith
    qed
    with up show ?thesis by (auto simp: body_def)
  next
    case wrap
    have "hptr s q \<le> mbase s" using wrap(3) [OF fl(3)] by simp
    with mb have "\<not> bp < hptr s q" by simp
    moreover have "q < bp \<longleftrightarrow> q = y" using y(2) y(3) [OF q] wrap(3) [OF y(1)] by auto
    ultimately show ?thesis using wrap by (auto simp: body_def)
  qed
  have "loop k body q s = Ret y s" if "q \<in> F" "way (hend s) q y < k" for k q
    using that
  proof (induction k arbitrary: q)
    case (Suc k)
    show ?case
    proof (cases "q = y")
      case False
      have "hptr s q \<in> F" using fl(2) [OF Suc.prems(1)] by (auto simp: follows_def)
      moreover have "way (hend s) (hptr s q) y < k" using way_step [OF I Suc.prems(1) y(1) False] Suc.prems(2) by simp
      ultimately have "loop k body (hptr s q) s = Ret y s" by (rule Suc.IH)
      with False stop [OF Suc.prems(1)] show ?thesis by simp
    qed (use stop [OF Suc.prems(1)] in simp)
  qed simp
  moreover have "way (hend s) p y < Suc (2 * hend s)" using heap_base [OF I, of p] heap_base [OF I, of y] p y(1) by (auto simp: way_def)
  ultimately have "find_place bp p s = Ret y s" unfolding find_place_def body_def [symmetric] using p by blast
  with y show ?thesis by blast
qed


section \<open>Releasing, growing and taking\<close>

lemma ufree_ok:
  assumes I: "heap_inv F (insert bp A) s" and A: "bp \<notin> A"
  shows "\<exists>t F'. ufree (bp + 1) s = Ret () t \<and> heap_inv F' A t \<and> (\<exists>y\<in>F'. hsize s bp \<le> hsize t y) \<and>
     (\<forall>a\<in>A. hsize t a = hsize s a) \<and> hend t = hend s \<and> mbase t = mbase s"
proof -
  obtain f where f: "freep s = Some f" "f \<in> F" using I by (auto simp: heap_inv_def free_list_def)
  from find_place_ok [OF I f(2)] obtain q where q: "q \<in> F" "find_place bp f s = Ret q s" "q < bp" "\<And>z. z \<in> F \<Longrightarrow> z < bp \<Longrightarrow> z \<le> q"
    by blast
  note l = link_block_inv [OF I A q(1,3) q(4)]
  then obtain F' where "heap_inv F' A (link_block bp q s)" "\<exists>y\<in>F'. hsize s bp \<le> hsize (link_block bp q s) y" by blast
  with l f q show ?thesis by (auto simp: ufree_def)
qed

lemma morecore_ok:
  assumes I: "heap_inv F A s"
  shows "morecore grow nu s = Ret None s \<or>
    (\<exists>t F' f. morecore grow nu s = Ret (Some f) t \<and> f \<in> F' \<and> freep t = Some f \<and> heap_inv F' A t \<and> (\<exists>y\<in>F'. nu \<le> hsize t y) \<and>
       (\<forall>a\<in>A. hsize t a = hsize s a) \<and> hend t \<le> hend s + nu + 4096 \<and> mbase t = mbase s)"
proof -
  define n where "n = (if nu < 4096 then 4096 else nu)"
  have n: "0 < n" "nu \<le> n" "n \<le> nu + 4096" by (auto simp: n_def)
  define bp where "bp = hend s"
  define t where "t = s\<lparr>hend := hend s + n, hsize := (hsize s)(bp := n)\<rparr>"
  have lt: "x < bp" "mbase s \<le> x" if "x \<in> F \<union> A" for x using heap_base [OF I that] by (auto simp: bp_def)
  have mb: "mbase s < bp" using I by (auto simp: heap_inv_def blocks_ok_def bp_def)
  have "blocks_ok (F \<union> insert bp A) t"
  proof -
    have "mbase s < x \<and> 0 < hsize t x \<and> x + hsize t x \<le> hend t" if "x \<in> F \<union> insert bp A" "x \<noteq> mbase s" for x
      using heap_block [OF I, of x] that lt [of x] mb n by (auto simp: t_def bp_def)
    moreover have "x + hsize t x \<le> y" if "x \<in> F \<union> insert bp A" "y \<in> F \<union> insert bp A" "x < y" for x y
    proof (cases "y = bp")
      case True
      then show ?thesis using heap_block [OF I, of x] that mb I by (cases "x = mbase s") (auto simp: t_def bp_def heap_inv_def blocks_ok_def)
    next
      case False
      then show ?thesis using heap_apart [OF I, of x y] that lt [of y] by (auto simp: t_def)
    qed
    moreover have "hsize t (mbase s) = 0" using I mb by (simp add: heap_inv_def blocks_ok_def t_def)
    ultimately show ?thesis using mb by (simp add: blocks_ok_def t_def bp_def)
  qed
  moreover have "free_list F t" using I by (simp add: heap_inv_def free_list_def t_def)
  moreover have nA: "bp \<notin> A" "bp \<notin> F" using lt by auto
  ultimately have It: "heap_inv F (insert bp A) t" using I by (auto simp: heap_inv_def)
  obtain u F' where u: "ufree (bp + 1) t = Ret () u" "heap_inv F' A u" "\<exists>y\<in>F'. hsize t bp \<le> hsize u y"
    "\<forall>a\<in>A. hsize u a = hsize t a" "hend u = hend t" "mbase u = mbase t" using ufree_ok [OF It nA(1)] by blast
  obtain f where f: "freep u = Some f" "f \<in> F'" using u(2) by (auto simp: heap_inv_def free_list_def)
  have "morecore grow nu s = (if grow (hend s) n then Ret (Some f) u else Ret None s)"
    using u(1) f unfolding morecore_def n_def [symmetric] Let_def bp_def [symmetric] t_def by simp
  moreover have "\<exists>y\<in>F'. nu \<le> hsize u y" using u(3) n(2) by (force simp: t_def)
  moreover have "\<forall>a\<in>A. hsize u a = hsize s a" using u(4) nA by (auto simp: t_def)
  ultimately show ?thesis using u f n by (auto simp: t_def)
qed

lemma take_block_ok:
  assumes I: "heap_inv F A s" and v: "prevp \<in> F" "hptr s prevp = p" "0 < nunits" "nunits \<le> hsize s p"
    and t: "take_block nunits prevp p s = (q, t)"
  shows "q \<notin> A \<and> q \<noteq> mbase s \<and> hsize t q = nunits \<and> (\<exists>F'. heap_inv F' (insert q A) t) \<and> (\<forall>a\<in>A. hsize t a = hsize s a) \<and> mbase t = mbase s"
proof -
  have fl: "free_list F s" using I by (simp add: heap_inv_def)
  have p: "p \<in> F" using fl v by (auto simp: free_list_def follows_def)
  have pb: "p \<noteq> mbase s" using v I by (auto simp: heap_inv_def blocks_ok_def)
  have pA: "p \<notin> A" using I p by (auto simp: heap_inv_def)
  show ?thesis
  proof (cases "hsize s p = nunits")
    case True
    have fp: "follows F prevp p" "mbase s \<in> F" using fl v(1,2) by (auto simp: free_list_def)
    have "prevp \<noteq> p" using fp(1) by (cases rule: followsE) (use fp(2) pb in \<open>force+\<close>)
    then have "free_list (F - {p}) (s\<lparr>hptr := (hptr s)(prevp := hptr s p), hsize := hsize s, freep := Some prevp\<rparr>)"
      using v pb by (intro remove_list [OF fl]) auto
    with True t have f: "free_list (F - {p}) t" "q = p" "hsize t = hsize s" "hend t = hend s" "mbase t = mbase s" by (auto simp: take_block_def free_list_def)
    moreover have "F - {p} \<union> insert p A = F \<union> A" using p by auto
    ultimately have "heap_inv (F - {p}) (insert q A) t" using I by (auto simp: heap_inv_def blocks_ok_def)
    with f True pA pb show ?thesis by auto
  next
    case False
    define r where "r = hsize s p - nunits"
    have r: "0 < r" "hsize s p = r + nunits" using v False by (simp_all add: r_def)
    have tq: "q = p + r" "t = s\<lparr>hsize := (hsize s)(p := r, q := nunits), freep := Some prevp\<rparr>"
      using t False by (auto simp: take_block_def Let_def r_def)
    have end_p: "p + hsize s p \<le> hend s" "mbase s < p" using heap_block [OF I, of p] p pb by auto
    have between: "x \<le> p \<or> p + hsize s p \<le> x" if "x \<in> F \<union> A" for x using heap_apart [OF I, of p x] p that by force
    have q: "q \<notin> F \<union> A" using between [of q] r v(3) tq(1) by auto
    have "free_list F t" using fl v(1) by (auto simp: free_list_def tq(2))
    moreover have "blocks_ok (F \<union> insert q A) t"
    proof -
      have "mbase s < x \<and> 0 < hsize t x \<and> x + hsize t x \<le> hend s" if "x \<in> F \<union> insert q A" "x \<noteq> mbase s" for x
        using heap_block [OF I, of x] that end_p r v(3) tq(1) by (auto simp: tq(2))
      moreover have "x + hsize t x \<le> y" if xy: "x \<in> F \<union> insert q A" "y \<in> F \<union> insert q A" "x < y" for x y
      proof -
        consider "x = q" "y \<in> F \<union> A" | "x = p" "y = q" | "x \<noteq> q" "x \<noteq> p" "y = q" | "x \<noteq> q" "y \<noteq> q" using xy by auto
        then show ?thesis
        proof cases
          case 1
          then show ?thesis using between [of y] xy r tq(1) v(3) by (auto simp: tq(2))
        next
          case 2
          then show ?thesis using r v(3) tq(1) by (simp add: tq(2))
        next
          case 3
          then have "x < p" using between [of x] xy r tq(1) v(3) by auto
          then show ?thesis using 3 heap_apart [OF I, of x p] xy p tq(1) by (auto simp: tq(2))
        next
          case 4
          then show ?thesis using heap_apart [OF I, of x y] xy r by (auto simp: tq(2))
        qed
      qed
      moreover have "hsize t (mbase s) = 0" using I pb end_p(2) tq(1) by (auto simp: heap_inv_def blocks_ok_def tq(2))
      ultimately show ?thesis using I by (simp add: blocks_ok_def heap_inv_def tq(2))
    qed
    ultimately have "heap_inv F (insert q A) t" using I q by (auto simp: heap_inv_def)
    moreover have "q \<noteq> mbase s" using end_p tq(1) by simp
    ultimately show ?thesis using q pA by (auto simp: tq(2))
  qed
qed


section \<open>Allocating\<close>

lemma way_le: "p < e \<Longrightarrow> y < e \<Longrightarrow> way e p y \<le> e"
  by (auto simp: way_def)

lemma way_last:
  assumes I: "heap_inv F A s" and "f \<in> F" "y \<in> F"
  shows "way (hend s) (hptr s f) y \<le> way (hend s) (hptr s f) f"
proof -
  have f: "follows F f (hptr s f)" using I assms(2) by (simp add: heap_inv_def free_list_def)
  have e: "f < hend s" "y < hend s" using heap_base [OF I] assms by auto
  show ?thesis
    using f
  proof (cases rule: followsE)
    case up
    with up(3) [OF assms(3)] e heap_base [OF I, of "hptr s f"] show ?thesis by (auto simp: way_def)
  next
    case wrap
    with wrap(3) [OF assms(3)] show ?thesis by (auto simp: way_def)
  qed
qed

lemma way_shift:
  assumes I: "heap_inv F A s" and "p \<in> F" "y \<in> F" "f \<in> F" "y \<noteq> p" "f \<noteq> p" "way (hend s) p y \<le> way (hend s) p f"
  shows "way (hend s) (hptr s p) y \<le> way (hend s) (hptr s p) f"
proof -
  have f: "follows F p (hptr s p)" using I assms(2) by (simp add: heap_inv_def free_list_def)
  have e: "p < hend s" "y < hend s" "f < hend s" using heap_base [OF I] assms by auto
  show ?thesis
    using f
  proof (cases rule: followsE)
    case up
    with up(3) [OF assms(3)] up(3) [OF assms(4)] e heap_base [OF I, of "hptr s p"] assms(5-7) show ?thesis by (auto simp: way_def split: if_splits)
  next
    case wrap
    with wrap(3) [OF assms(3)] wrap(3) [OF assms(4)] e assms(5-7) show ?thesis by (auto simp: way_def split: if_splits)
  qed
qed

definition malloc_result :: "nat \<Rightarrow> nat set \<Rightarrow> mheap \<Rightarrow> nat option \<Rightarrow> mheap \<Rightarrow> bool" where
  "malloc_result nunits A s r t \<longleftrightarrow> (\<forall>a\<in>A. hsize t a = hsize s a) \<and> mbase t = mbase s \<and>
     (case r of
        None \<Rightarrow> \<exists>F. heap_inv F A t
      | Some q \<Rightarrow> \<exists>b F. q = b + 1 \<and> b \<notin> A \<and> b \<noteq> mbase s \<and> hsize t b = nunits \<and> heap_inv F (insert b A) t)"

definition malloc_body :: "(nat \<Rightarrow> nat \<Rightarrow> bool) \<Rightarrow> nat \<Rightarrow> nat \<times> nat \<Rightarrow> mheap \<Rightarrow> ((nat \<times> nat) + nat option, mheap) run" where
  "malloc_body grow nunits =
     (\<lambda>(prevp, p) s.
       if nunits \<le> hsize s p
       then let (q, s) = take_block nunits prevp p s in Ret (Inr (Some (q + 1))) s
       else if Some p = freep s
       then bnd (morecore grow nunits s) (\<lambda>r s.
              case r of
                None \<Rightarrow> Ret (Inr None) s
              | Some p \<Rightarrow> Ret (Inl (p, hptr s p)) s)
       else Ret (Inl (p, hptr s p)) s)"

lemma malloc_take:
  assumes I: "heap_inv F A s" and v: "prevp \<in> F" "p = hptr s prevp" "0 < nunits" "nunits \<le> hsize s p"
  shows "returns (loop (Suc k) (malloc_body grow nunits) (prevp, p) s) (malloc_result nunits A s)"
proof -
  obtain q t where t: "take_block nunits prevp p s = (q, t)" by fastforce
  from take_block_ok [OF I v(1) v(2) [symmetric] v(3,4) t] show ?thesis
    using v(4) by (auto simp: malloc_body_def malloc_result_def t)
qed

lemma malloc_found:
  assumes "heap_inv F A s" "prevp \<in> F" "p = hptr s prevp" "freep s = Some f" "0 < nunits" "y \<in> F" "nunits \<le> hsize s y"
    "way (hend s) p y \<le> way (hend s) p f" "way (hend s) p y < k"
  shows "returns (loop k (malloc_body grow nunits) (prevp, p) s) (malloc_result nunits A s)"
  using assms
proof (induction k arbitrary: prevp p)
  case (Suc k)
  note I = Suc.prems(1)
  have p: "p \<in> F" using I Suc.prems(2,3) by (auto simp: heap_inv_def free_list_def follows_def)
  have f: "f \<in> F" using I Suc.prems(4) by (auto simp: heap_inv_def free_list_def)
  show ?case
  proof (cases "nunits \<le> hsize s p")
    case True
    then show ?thesis by (rule malloc_take [OF I Suc.prems(2,3,5)])
  next
    case False
    then have py: "p \<noteq> y" using Suc.prems(7) by auto
    moreover have pf: "p \<noteq> f"
    proof
      assume "p = f"
      then have "way (hend s) p y = 0" using Suc.prems(8) by (simp add: way_def)
      with py show False by (auto simp: way_def split: if_splits)
    qed
    ultimately have "way (hend s) (hptr s p) y \<le> way (hend s) (hptr s p) f"
      using way_shift [OF I p Suc.prems(6) f] Suc.prems(8) by auto
    moreover have "way (hend s) (hptr s p) y < k" using way_step [OF I p Suc.prems(6) py] Suc.prems(9) by simp
    ultimately have "returns (loop k (malloc_body grow nunits) (p, hptr s p) s) (malloc_result nunits A s)"
      using Suc.prems p by (intro Suc.IH) auto
    with False pf Suc.prems(4) show ?thesis by (simp add: malloc_body_def)
  qed
qed simp

lemma malloc_search:
  assumes "heap_inv F A s" "prevp \<in> F" "p = hptr s prevp" "freep s = Some f" "0 < nunits"
    "way (hend s) p f + hend s + nunits + 4097 < k"
  shows "returns (loop k (malloc_body grow nunits) (prevp, p) s) (malloc_result nunits A s)"
  using assms
proof (induction k arbitrary: prevp p)
  case (Suc k)
  note I = Suc.prems(1)
  have p: "p \<in> F" using I Suc.prems(2,3) by (auto simp: heap_inv_def free_list_def follows_def)
  have f: "f \<in> F" using I Suc.prems(4) by (auto simp: heap_inv_def free_list_def)
  consider "nunits \<le> hsize s p" | "hsize s p < nunits" "p = f" | "hsize s p < nunits" "p \<noteq> f" by linarith
  then show ?case
  proof cases
    case 1
    then show ?thesis by (rule malloc_take [OF I Suc.prems(2,3,5)])
  next
    case 2
    from morecore_ok [OF I, of grow nunits] show ?thesis
    proof (elim disjE exE conjE bexE)
      assume "morecore grow nunits s = Ret None s"
      with 2 Suc.prems(1,4) show ?thesis by (auto simp: malloc_body_def malloc_result_def)
    next
      fix t F' g y
      assume m: "morecore grow nunits s = Ret (Some g) t" "g \<in> F'" "freep t = Some g" "heap_inv F' A t" "y \<in> F'" "nunits \<le> hsize t y"
        "\<forall>a\<in>A. hsize t a = hsize s a" "hend t \<le> hend s + nunits + 4096" "mbase t = mbase s"
      have gF: "hptr t g \<in> F'" using m(2,4) by (auto simp: heap_inv_def free_list_def follows_def)
      have "way (hend t) (hptr t g) y \<le> hend t" using heap_base [OF m(4), of y] heap_base [OF m(4), of "hptr t g"] m(5) gF by (intro way_le) auto
      then have "way (hend t) (hptr t g) y < k" using Suc.prems(6) m(8) by linarith
      then have "returns (loop k (malloc_body grow nunits) (g, hptr t g) t) (malloc_result nunits A t)"
        by (intro malloc_found [OF m(4,2) refl m(3) Suc.prems(5) m(5,6)] way_last [OF m(4,2,5)])
      then have "returns (loop k (malloc_body grow nunits) (g, hptr t g) t) (malloc_result nunits A s)"
        by (rule returns_mono) (use m(7,9) in \<open>auto simp: malloc_result_def split: option.splits\<close>)
      with 2 m(1) Suc.prems(4) show ?thesis by (simp add: malloc_body_def)
    qed
  next
    case 3
    have "way (hend s) (hptr s p) f < way (hend s) p f" by (rule way_step [OF I p f 3(2)])
    then have "returns (loop k (malloc_body grow nunits) (p, hptr s p) s) (malloc_result nunits A s)"
      using Suc.prems p by (intro Suc.IH) auto
    with 3 Suc.prems(4) show ?thesis by (simp add: malloc_body_def)
  qed
qed simp


definition units :: "nat \<Rightarrow> nat" where
  "units nbytes = (nbytes + 16 - 1) div 16 + 1"

lemma malloc_loop_ok:
  assumes I: "heap_inv F A s" and f: "freep s = Some f" and n: "0 < nunits"
  shows "returns (malloc_loop grow nunits f s) (malloc_result nunits A s)"
proof -
  have "f \<in> F" using I f by (auto simp: heap_inv_def free_list_def)
  moreover have "way (hend s) (hptr s f) f \<le> hend s"
    using heap_base [OF I, of f] heap_base [OF I, of "hptr s f"] I \<open>f \<in> F\<close>
    by (intro way_le) (auto simp: heap_inv_def free_list_def follows_def)
  ultimately show ?thesis
    unfolding malloc_loop_def malloc_body_def [symmetric] by (intro malloc_search [OF I _ refl f n]) simp_all
qed

lemma malloc_ok:
  assumes "heap_inv F A s"
  shows "returns (malloc grow nbytes s) (malloc_result (units nbytes) A s)"
proof -
  obtain f where f: "freep s = Some f" using assms by (auto simp: heap_inv_def free_list_def)
  then show ?thesis using malloc_loop_ok [OF assms f, of "units nbytes"] by (simp add: malloc_def units_def)
qed

lemma malloc_first:
  assumes "freep s = None" "mbase s < hend s"
  shows "returns (malloc grow nbytes s) (malloc_result (units nbytes) {} s)"
proof -
  let ?t = "s\<lparr>hptr := (hptr s)(mbase s := mbase s), freep := Some (mbase s), hsize := (hsize s)(mbase s := 0)\<rparr>"
  have "heap_inv {mbase s} {} ?t" using assms(2) by (simp add: heap_inv_def free_list_def blocks_ok_def follows_def)
  then have "returns (malloc_loop grow (units nbytes) (mbase s) ?t) (malloc_result (units nbytes) {} ?t)"
    by (rule malloc_loop_ok) (simp_all add: units_def)
  then have "returns (malloc_loop grow (units nbytes) (mbase s) ?t) (malloc_result (units nbytes) {} s)"
    by (rule returns_mono) (auto simp: malloc_result_def split: option.splits)
  then show ?thesis using assms(1) by (simp add: malloc_def units_def Let_def)
qed

text \<open>The states a program reaches with \<open>malloc\<close> and \<open>free\<close>, and the headers of the blocks it holds.\<close>

inductive heap_run :: "(nat \<Rightarrow> nat \<Rightarrow> bool) \<Rightarrow> nat set \<Rightarrow> mheap \<Rightarrow> bool" for grow where
  start: "freep s = None \<Longrightarrow> mbase s < hend s \<Longrightarrow> heap_run grow {} s"
| got: "heap_run grow A s \<Longrightarrow> malloc grow nbytes s = Ret (Some q) t \<Longrightarrow> heap_run grow (insert (q - 1) A) t"
| refused: "heap_run grow A s \<Longrightarrow> malloc grow nbytes s = Ret None t \<Longrightarrow> heap_run grow A t"
| released: "heap_run grow A s \<Longrightarrow> b \<in> A \<Longrightarrow> ufree (b + 1) s = Ret () t \<Longrightarrow> heap_run grow (A - {b}) t"

lemma malloc_any:
  assumes "A = {} \<and> freep s = None \<and> mbase s < hend s \<or> (\<exists>F. heap_inv F A s)"
  shows "returns (malloc grow nbytes s) (malloc_result (units nbytes) A s)"
  using assms malloc_ok malloc_first by blast

lemma heap_run_inv:
  assumes "heap_run grow A s"
  shows "A = {} \<and> freep s = None \<and> mbase s < hend s \<or> (\<exists>F. heap_inv F A s)"
  using assms
proof (induction rule: heap_run.induct)
  case (got A s nbytes q t)
  from malloc_any [OF got.IH, of grow nbytes] got.hyps(2) show ?case by (auto simp: malloc_result_def)
next
  case (refused A s nbytes t)
  from malloc_any [OF refused.IH, of grow nbytes] refused.hyps(2) show ?case by (auto simp: malloc_result_def)
next
  case (released A s b t)
  from released.IH released.hyps(2) obtain F where "heap_inv F A s" by auto
  then have "heap_inv F (insert b (A - {b})) s" using released.hyps(2) by (simp add: insert_absorb)
  from ufree_ok [OF this] released.hyps(3) show ?case by auto
qed auto



end
