(* ===== verification/Shell.thy ===== *)
theory Shell
  imports Ulib
begin

text \<open>
  The parser of the shell (user/sh.c). Its state is the rest of the line; the line ends where its string ends. An argument is
  the text between the pointers \<open>q\<close> and \<open>eq\<close>, which is what \<open>nulterminate\<close> makes of it. A call of \<open>panic\<close>
  ends the parser with its message. \<open>malloc\<close> is taken to succeed.
\<close>

section \<open>Commands\<close>

datatype cmd =
    Exec "u8 list list"
  | Redir cmd "u8 list" nat nat
  | Pipe cmd cmd
  | Lst cmd cmd
  | Back cmd

definition MAXARGS :: nat where "MAXARGS = 10"

section \<open>Tokens\<close>

definition whitespace :: "u8 list" where
  "whitespace = [32, 9, 13, 10, 11]"

definition symbols :: "u8 list" where
  "symbols = [60, 124, 62, 38, 59, 40, 41]"

definition blank :: "u8 \<Rightarrow> bool" where
  "blank c \<longleftrightarrow> strchr whitespace c \<noteq> None"

definition skip :: "u8 list \<Rightarrow> u8 list" where
  "skip s = dropWhile blank s"

definition wordchar :: "u8 \<Rightarrow> bool" where
  "wordchar c \<longleftrightarrow> strchr whitespace c = None \<and> strchr symbols c = None"

text \<open>The token (97 for a word, 43 for the double redirection, 0 at the end), its text, and the rest of the line.\<close>

definition gettoken :: "u8 list \<Rightarrow> u8 \<times> u8 list \<times> u8 list" where
  "gettoken s =
     (let s = skip s
      in case s of
           [] \<Rightarrow> (0, [], [])
         | c # t \<Rightarrow>
             if c = 0 then (0, [], skip s)
             else if c \<in> {124, 40, 41, 59, 38, 60} then (c, [c], skip t)
             else if c = 62 then
               (if char_at t 0 = 62 then (43, [62, 62], skip (drop 1 t)) else (62, [62], skip t))
             else (97, takeWhile wordchar s, skip (dropWhile wordchar s)))"

definition peek :: "u8 list \<Rightarrow> u8 list \<Rightarrow> bool \<times> u8 list" where
  "peek s toks = (let s = skip s in (char_at s 0 \<noteq> 0 \<and> strchr toks (char_at s 0) \<noteq> None, s))"

section \<open>The parser\<close>

type_synonym parser = "u8 list \<Rightarrow> (cmd, u8 list) run"

text \<open>
  The loop of \<open>parseredirs\<close> takes at least one byte in a round. The redirections wrap the command from the inside to the
  outside; \<open>O_RDONLY\<close> is 0, \<open>O_WRONLY\<close> 1, \<open>O_CREATE\<close> 0x200 and \<open>O_TRUNC\<close> 0x400.
\<close>

definition redircmd :: "u8 \<Rightarrow> u8 list \<Rightarrow> cmd \<Rightarrow> cmd" where
  "redircmd tok f c =
     (if tok = 60 then Redir c f 0 0
      else if tok = 62 then Redir c f (1 + 0x200 + 0x400) 1
      else Redir c f (1 + 0x200) 1)"

definition parseredirs :: "(u8 \<times> u8 list) list \<Rightarrow> u8 list \<Rightarrow> ((u8 \<times> u8 list) list, u8 list) run" where
  "parseredirs rs s =
     loop (Suc (length s)) (\<lambda>rs s.
       let (more, s) = peek s [60, 62]
       in if \<not> more then Ret (Inr rs) s
          else let (tok, _, s) = gettoken s; (kind, q, s) = gettoken s
               in if kind \<noteq> 97 then Panic ''missing file for redirection''
                  else Ret (Inl (rs @ [(tok, q)])) s) rs s"

definition wrap :: "(u8 \<times> u8 list) list \<Rightarrow> cmd \<Rightarrow> cmd" where
  "wrap rs c = fold (\<lambda>(tok, f) c. redircmd tok f c) rs c"

text \<open>The arguments and the redirections between them, which all go around the command.\<close>

type_synonym args = "u8 list list \<times> (u8 \<times> u8 list) list"

definition argstep :: "args \<Rightarrow> u8 list \<Rightarrow> (args + cmd, u8 list) run" where
  "argstep l s =
     (let (args, rs) = l; (stop, s) = peek s [124, 41, 38, 59]
      in if stop then Ret (Inr (wrap rs (Exec args))) s
         else let (tok, q, s) = gettoken s
              in if tok = 0 then Ret (Inr (wrap rs (Exec args))) s
                 else if tok \<noteq> 97 then Panic ''syntax''
                 else let args = args @ [q]
                      in if MAXARGS \<le> length args then Panic ''too many args''
                         else bnd (parseredirs rs s) (\<lambda>rs s. Ret (Inl (args, rs)) s))"

definition parseargs :: "(u8 \<times> u8 list) list \<Rightarrow> u8 list \<Rightarrow> (cmd, u8 list) run" where
  "parseargs rs s = loop (Suc (length s)) argstep ([], rs) s"

definition parseblock :: "parser \<Rightarrow> parser" where
  "parseblock line s =
     (let (open_p, s) = peek s [40]
      in if \<not> open_p then Panic ''parseblock''
         else let (_, _, s) = gettoken s
              in bnd (line s) (\<lambda>c s.
                 let (close_p, s) = peek s [41]
                 in if \<not> close_p then Panic ''syntax - missing )''
                    else let (_, _, s) = gettoken s
                         in bnd (parseredirs [] s) (\<lambda>rs s. Ret (wrap rs c) s)))"

definition parseexec :: "parser \<Rightarrow> parser" where
  "parseexec line s =
     (let (open_p, s) = peek s [40]
      in if open_p then parseblock line s
         else bnd (parseredirs [] s) (\<lambda>rs s. parseargs rs s))"

text \<open>The numbers bound the depth of the recursion: each level takes at least one byte of the line.\<close>

primrec parsepipe :: "nat \<Rightarrow> parser \<Rightarrow> parser" where
  "parsepipe 0 line s = Diverge"
| "parsepipe (Suc k) line s =
     bnd (parseexec line s) (\<lambda>c s.
       let (more, s) = peek s [124]
       in if more then let (_, _, s) = gettoken s in bnd (parsepipe k line s) (\<lambda>d s. Ret (Pipe c d) s)
          else Ret c s)"

definition parseback :: "cmd \<Rightarrow> u8 list \<Rightarrow> (cmd, u8 list) run" where
  "parseback c s =
     loop (Suc (length s)) (\<lambda>c s.
       let (more, s) = peek s [38]
       in if more then let (_, _, s) = gettoken s in Ret (Inl (Back c)) s
          else Ret (Inr c) s) c s"

primrec parseline :: "nat \<Rightarrow> parser" where
  "parseline 0 s = Diverge"
| "parseline (Suc k) s =
     bnd (parsepipe (Suc (length s)) (parseline k) s) (\<lambda>c s.
     bnd (parseback c s) (\<lambda>c s.
       let (more, s) = peek s [59]
       in if more then let (_, _, s) = gettoken s in bnd (parseline k s) (\<lambda>d s. Ret (Lst c d) s)
          else Ret c s))"

definition parsecmd :: parser where
  "parsecmd s =
     bnd (parseline (Suc (length s)) s) (\<lambda>c s.
       let (_, s) = peek s []
       in if s \<noteq> [] then Panic ''syntax'' else Ret c s)"

section \<open>Well-formed commands\<close>

definition is_word :: "u8 list \<Rightarrow> bool" where
  "is_word w \<longleftrightarrow> w \<noteq> [] \<and> (\<forall>c\<in>set w. wordchar c \<and> c \<noteq> 0)"

fun wf_cmd :: "cmd \<Rightarrow> bool" where
  "wf_cmd (Exec args) \<longleftrightarrow> length args < MAXARGS \<and> (\<forall>w\<in>set args. is_word w)"
| "wf_cmd (Redir c f mode fd) \<longleftrightarrow> wf_cmd c \<and> is_word f \<and> (mode, fd) \<in> {(0, 0), (1 + 0x200 + 0x400, 1), (1 + 0x200, 1)}"
| "wf_cmd (Pipe c d) \<longleftrightarrow> wf_cmd c \<and> wf_cmd d"
| "wf_cmd (Lst c d) \<longleftrightarrow> wf_cmd c \<and> wf_cmd d"
| "wf_cmd (Back c) \<longleftrightarrow> wf_cmd c"

definition redirs_ok :: "(u8 \<times> u8 list) list \<Rightarrow> bool" where
  "redirs_ok rs \<longleftrightarrow> (\<forall>r\<in>set rs. is_word (snd r))"

lemma wf_wrap: "redirs_ok rs \<Longrightarrow> wf_cmd c \<Longrightarrow> wf_cmd (wrap rs c)"
  by (induction rs arbitrary: c) (auto simp: wrap_def redirs_ok_def redircmd_def)

text \<open>What is left of a line: a shorter one without zero bytes.\<close>

definition left :: "nat \<Rightarrow> u8 list \<Rightarrow> bool" where
  "left n s \<longleftrightarrow> length s \<le> n \<and> 0 \<notin> set s"

lemma left_mono: "left n s \<Longrightarrow> n \<le> m \<Longrightarrow> left m s"
  by (simp add: left_def)

lemma left_skip: "left n s \<Longrightarrow> left n (skip s)"
  using length_dropWhile_le [of blank s] set_dropWhileD [of 0 blank s] by (auto simp: left_def skip_def)

lemma left_drop: "left n (dropWhile P s)" if "left n s"
  using that length_dropWhile_le [of P s] set_dropWhileD [of 0 P s] by (auto simp: left_def)

lemma peek_left: "left n s \<Longrightarrow> left n (snd (peek s toks))"
  by (simp add: peek_def Let_def left_skip)

lemma skip_not_blank: "skip s = c # t \<Longrightarrow> \<not> blank c"
  using hd_dropWhile [of blank s] by (auto simp: skip_def)

lemma symbols_iff: "c \<noteq> 0 \<Longrightarrow> strchr symbols c = None \<longleftrightarrow> c \<notin> {60, 124, 62, 38, 59, 40, 41}"
  by (auto simp: symbols_def)

lemma gettoken_left:
  assumes "left n s" "gettoken s = (tok, q, r)"
  shows "left n r" and "tok \<noteq> 0 \<Longrightarrow> length r < length (skip s)" and "tok = 97 \<Longrightarrow> is_word q"
proof -
  have l: "left n (skip s)" by (rule left_skip [OF assms(1)])
  have "left n r \<and> (tok \<noteq> 0 \<longrightarrow> length r < length (skip s)) \<and> (tok = 97 \<longrightarrow> is_word q)"
  proof (cases "skip s")
    case Nil
    with assms(2) show ?thesis by (auto simp: gettoken_def left_def)
  next
    case (Cons c t)
    with l have c: "c \<noteq> 0" "0 \<notin> set t" "Suc (length t) \<le> n" by (auto simp: left_def)
    have sk: "left (length t) (skip u)" if "length u \<le> length t" "set u \<subseteq> set t" for u
      using that c(2) by (intro left_skip) (auto simp: left_def)
    have d: "left (length t) (skip (drop 1 t))" by (rule sk) (auto dest: in_set_dropD)
    show ?thesis
    proof (cases "c \<in> {124, 40, 41, 59, 38, 60, 62}")
      case True
      with assms(2) Cons c sk [of t] d show ?thesis
        by (auto simp: gettoken_def left_def split: if_splits)
    next
      case False
      then have w: "wordchar c" using skip_not_blank [OF Cons] c(1) by (auto simp: wordchar_def blank_def symbols_iff)
      then have r: "tok = 97" "q = takeWhile wordchar (c # t)" "r = skip (dropWhile wordchar t)"
        using assms(2) Cons False c(1) by (auto simp: gettoken_def)
      have "left (length t) r" unfolding r(3) by (rule sk) (auto simp: length_dropWhile_le dest: set_dropWhileD)
      moreover have "is_word q" using w c unfolding r(2) is_word_def by (auto dest: set_takeWhileD)
      ultimately show ?thesis using Cons c by (auto simp: left_def)
    qed
  qed
  then show "left n r" and "tok \<noteq> 0 \<Longrightarrow> length r < length (skip s)" and "tok = 97 \<Longrightarrow> is_word q" by auto
qed


lemma skip_skip [simp]: "skip (skip s) = skip s"
  by (simp add: skip_def)

lemma gettoken_skip [simp]: "gettoken (skip s) = gettoken s"
  by (simp add: gettoken_def)

lemma gettoken_more: "left n s \<Longrightarrow> skip s \<noteq> [] \<Longrightarrow> fst (gettoken s) \<noteq> 0"
  using left_skip [of n s] by (cases "skip s") (auto simp: gettoken_def left_def Let_def)

lemma peek_gettoken:
  assumes "left n s" "peek s toks = (True, s')" "gettoken s' = (tok, q, r)"
  shows "left n r" "length r < length s" "tok \<noteq> 0" "tok = 97 \<Longrightarrow> is_word q"
proof -
  have s': "s' = skip s" "skip s \<noteq> []" using assms(2) by (auto simp: peek_def Let_def char_at_def)
  have g: "gettoken s = (tok, q, r)" using assms(3) s' by simp
  show "left n r" "tok = 97 \<Longrightarrow> is_word q" using gettoken_left(1,3) [OF assms(1) g] by auto
  show t: "tok \<noteq> 0" using gettoken_more [OF assms(1) s'(2)] g by simp
  show "length r < length s" using gettoken_left(2) [OF assms(1) g t] length_dropWhile_le [of blank s] by (simp add: skip_def)
qed

lemma parseredirs_ok:
  assumes "left n s" "redirs_ok rs"
  shows "meets (parseredirs rs s) (\<lambda>rs t. redirs_ok rs \<and> left n t \<and> length t \<le> length s) (\<lambda>_. False)"
  unfolding parseredirs_def
proof (rule loop_meets [where I = "\<lambda>rs t. redirs_ok rs \<and> left n t \<and> length t \<le> length s" and \<mu> = "\<lambda>_ t. length t"])
  show "redirs_ok rs \<and> left n s \<and> length s \<le> length s" using assms by simp
  show "length s < Suc (length s)" by simp
  fix rs t
  assume I: "redirs_ok rs \<and> left n t \<and> length t \<le> length s"
  obtain more t1 where p: "peek t [60, 62] = (more, t1)" by fastforce
  have t1: "left n t1" "length t1 \<le> length t" using peek_left [of n t "[60, 62]"] I p length_dropWhile_le [of blank t] by (auto simp: peek_def Let_def skip_def)
  obtain tok q1 t2 where g1: "gettoken t1 = (tok, q1, t2)" by (cases "gettoken t1")
  obtain kind q t3 where g2: "gettoken t2 = (kind, q, t3)" by (cases "gettoken t2")
  show "meets (let (more, s) = peek t [60, 62]
       in if \<not> more then Ret (Inr rs) s
          else let (tok, _, s) = gettoken s; (kind, q, s) = gettoken s
               in if kind \<noteq> 97 then Panic ''missing file for redirection'' else Ret (Inl (rs @ [(tok, q)])) s)
     (\<lambda>r u. case r of Inl rs' \<Rightarrow> (redirs_ok rs' \<and> left n u \<and> length u \<le> length s) \<and> length u < length t
        | Inr rs' \<Rightarrow> redirs_ok rs' \<and> left n u \<and> length u \<le> length s) (\<lambda>_. False)"
  proof (cases more)
    case True
    then have 2: "left n t2" "length t2 < length t" using peek_gettoken [of n t "[60, 62]" t1 tok q1 t2] I p g1 by auto
    have "left n t3" "length t3 \<le> length t2 \<or> kind = 0" "kind = 97 \<Longrightarrow> is_word q"
      using gettoken_left [OF 2(1) g2] length_dropWhile_le [of blank t2] by (auto simp: skip_def)
    with True p g1 g2 2 I show ?thesis by (auto simp: redirs_ok_def)
  qed (use p t1 I in auto)
qed


text \<open>A parser that gives a well-formed command and a rest no longer than the line, or panics.\<close>

definition sound :: "nat \<Rightarrow> (cmd, u8 list) run \<Rightarrow> bool" where
  "sound n r \<longleftrightarrow> meets r (\<lambda>c t. wf_cmd c \<and> left n t) (\<lambda>_. False)"

lemma sound_mono: "sound n r \<Longrightarrow> n \<le> m \<Longrightarrow> sound m r"
  unfolding sound_def by (erule meets_mono) (auto intro: left_mono)

lemma peek_cases:
  assumes "left n s"
  obtains b where "peek s toks = (b, skip s)" "left n (skip s)" "length (skip s) \<le> length s"
  using assms left_skip [of n s] length_dropWhile_le [of blank s] by (auto simp: peek_def Let_def skip_def)

lemma parseargs_ok:
  assumes "left n s" "redirs_ok rs"
  shows "sound n (parseargs rs s)"
  unfolding parseargs_def sound_def
proof (rule loop_meets [where I = "\<lambda>(args, rs) t. redirs_ok rs \<and> left n t \<and> length t \<le> length s \<and> wf_cmd (Exec args)" and \<mu> = "\<lambda>_ t. length t"])
  show "(\<lambda>(args, rs) t. redirs_ok rs \<and> left n t \<and> length t \<le> length s \<and> wf_cmd (Exec args)) ([], rs) s" using assms by (simp add: MAXARGS_def)
  show "length s < Suc (length s)" by simp
  fix l t
  assume I: "(\<lambda>(args, rs) t. redirs_ok rs \<and> left n t \<and> length t \<le> length s \<and> wf_cmd (Exec args)) l t"
  obtain args rs where l: "l = (args, rs)" by (cases l)
  have r: "redirs_ok rs" and t: "left n t" "length t \<le> length s" and w: "wf_cmd (Exec args)" using I by (simp_all add: l)
  obtain stop where p: "peek t [124, 41, 38, 59] = (stop, skip t)" "left n (skip t)" "length (skip t) \<le> length t" by (rule peek_cases [OF t(1)])
  obtain tok q t2 where g: "gettoken t = (tok, q, t2)" by (cases "gettoken t")
  note gl = gettoken_left [OF t(1) g]
  have "meets (parseredirs rs t2) (\<lambda>rs' u. redirs_ok rs' \<and> left n u \<and> length u \<le> length t2) (\<lambda>_. False)"
    by (rule parseredirs_ok [OF gl(1) r])
  then have more: "meets (bnd (parseredirs rs t2) (\<lambda>rs s. Ret (Inl (args @ [q], rs)) s))
      (\<lambda>r u. case r of Inl l' \<Rightarrow> (\<lambda>(args, rs) t. redirs_ok rs \<and> left n t \<and> length t \<le> length s \<and> wf_cmd (Exec args)) l' u \<and> length u < length t
        | Inr c \<Rightarrow> wf_cmd c \<and> left n u) (\<lambda>_. False)"
    if "tok = 97" "\<not> MAXARGS \<le> length (args @ [q])"
    unfolding meets_bnd by (rule meets_mono) (use that gl p t w in auto)
  show "meets (argstep l t)
     (\<lambda>r u. case r of Inl l' \<Rightarrow> (\<lambda>(args, rs) t. redirs_ok rs \<and> left n t \<and> length t \<le> length s \<and> wf_cmd (Exec args)) l' u \<and> length u < length t
        | Inr c \<Rightarrow> wf_cmd c \<and> left n u) (\<lambda>_. False)"
    using p g more gl(1) wf_wrap [OF r w] by (auto simp: l argstep_def Let_def)
qed

lemma parseblock_ok:
  assumes s: "left n s" and line: "\<And>t. left n t \<Longrightarrow> length t < length s \<Longrightarrow> sound n (line t)"
  shows "sound n (parseblock line s)"
proof -
  obtain b where p: "peek s [40] = (b, skip s)" "left n (skip s)" by (rule peek_cases [OF s])
  obtain tok q t where g: "gettoken (skip s) = (tok, q, t)" by (cases "gettoken (skip s)")
  show ?thesis
  proof (cases b)
    case True
    then have pt: "peek s [40] = (True, skip s)" using p(1) by simp
    note t = peek_gettoken [OF s pt g]
    have rest: "meets (let (close_p, u) = peek u [41]
         in if \<not> close_p then Panic ''syntax - missing )''
            else let (_, _, u) = gettoken u in bnd (parseredirs [] u) (\<lambda>rs u. Ret (wrap rs c) u))
       (\<lambda>c t. wf_cmd c \<and> left n t) (\<lambda>_. False)" if c: "wf_cmd c" and u: "left n u" for c u
    proof -
      obtain b' where p': "peek u [41] = (b', skip u)" "left n (skip u)" by (rule peek_cases [OF u])
      obtain tok' q' v where g': "gettoken (skip u) = (tok', q', v)" by (cases "gettoken (skip u)")
      have "left n v" by (rule gettoken_left(1) [OF p'(2) g'])
      then have "meets (parseredirs [] v) (\<lambda>rs w. redirs_ok rs \<and> left n w \<and> length w \<le> length v) (\<lambda>_. False)"
        by (rule parseredirs_ok) (simp add: redirs_ok_def)
      then have "meets (parseredirs [] v) (\<lambda>rs w. wf_cmd (wrap rs c) \<and> left n w) (\<lambda>_. False)"
        by (rule meets_mono) (auto intro: wf_wrap [OF _ c])
      then show ?thesis using p' g' by auto
    qed
    have "meets (line t) (\<lambda>c t. wf_cmd c \<and> left n t) (\<lambda>_. False)"
      using line [OF t(1,2)] by (simp add: sound_def)
    then show ?thesis
      using p g True unfolding parseblock_def sound_def
      by (simp del: gettoken_skip) (erule meets_mono, use rest in \<open>auto simp: Let_def\<close>)
  qed (simp add: parseblock_def sound_def p)
qed

lemma parseexec_ok:
  assumes s: "left n s" and line: "\<And>t. left n t \<Longrightarrow> length t < length s \<Longrightarrow> sound n (line t)"
  shows "sound n (parseexec line s)"
proof -
  obtain b where p: "peek s [40] = (b, skip s)" "left n (skip s)" "length (skip s) \<le> length s" by (rule peek_cases [OF s])
  have "sound n (parseblock line (skip s))" using line p by (intro parseblock_ok) auto
  moreover have "meets (parseredirs [] (skip s)) (\<lambda>rs t. redirs_ok rs \<and> left n t \<and> length t \<le> length (skip s)) (\<lambda>_. False)"
    by (rule parseredirs_ok [OF p(2)]) (simp add: redirs_ok_def)
  then have "meets (parseredirs [] (skip s)) (\<lambda>rs t. meets (parseargs rs t) (\<lambda>c t. wf_cmd c \<and> left n t) (\<lambda>_. False)) (\<lambda>_. False)"
    by (rule meets_mono) (use parseargs_ok in \<open>auto simp: sound_def\<close>)
  ultimately show ?thesis using p(1) by (auto simp: parseexec_def sound_def)
qed


lemma sound_bnd:
  assumes "sound n r" "\<And>c t. wf_cmd c \<Longrightarrow> left n t \<Longrightarrow> sound m (f c t)"
  shows "sound m (bnd r f)"
  unfolding sound_def meets_bnd by (rule meets_mono [OF assms(1) [unfolded sound_def]]) (use assms(2) in \<open>auto simp: sound_def\<close>)

lemma parsepipe_ok:
  assumes "left n s" "length s < k" and line: "\<And>t. left n t \<Longrightarrow> length t < length s \<Longrightarrow> sound (length t) (line t)"
  shows "sound (length s) (parsepipe k line s)"
  using assms
proof (induction k arbitrary: n s)
  case (Suc k)
  have s: "left (length s) s" using Suc.prems(1) by (simp add: left_def)
  have lines: "sound (length s) (line t)" if "left (length s) t" "length t < length s" for t
    by (rule sound_mono [of "length t"]) (use Suc.prems(1,3) that in \<open>auto simp: left_def\<close>)
  have e: "sound (length s) (parseexec line s)" by (rule parseexec_ok [OF s]) (rule lines)
  show ?case unfolding parsepipe.simps
  proof (rule sound_bnd [OF e])
    fix c t
    assume c: "wf_cmd c" and t: "left (length s) t"
    obtain b where p: "peek t [124] = (b, skip t)" "left (length s) (skip t)" by (rule peek_cases [OF t])
    obtain tok q u where g: "gettoken (skip t) = (tok, q, u)" by (cases "gettoken (skip t)")
    show "sound (length s) (let (more, s) = peek t [124]
       in if more then let (_, _, s) = gettoken s in bnd (parsepipe k line s) (\<lambda>d s. Ret (Pipe c d) s) else Ret c s)"
    proof (cases b)
      case True
      then have pt: "peek t [124] = (True, skip t)" using p(1) by simp
      note u = peek_gettoken [OF t pt g]
      have lu: "length u < length s" using u(2) t by (simp add: left_def)
      have "sound (length u) (parsepipe k line u)"
        by (rule Suc.IH [of n]) (use Suc.prems u(1) lu in \<open>auto simp: left_def\<close>)
      then have "sound (length s) (bnd (parsepipe k line u) (\<lambda>d. Ret (Pipe c d)))"
        by (rule sound_bnd) (use c lu in \<open>auto simp: sound_def left_def\<close>)
      with pt g show ?thesis by simp
    qed (use p c in \<open>simp add: sound_def\<close>)
  qed
qed simp

lemma parseback_ok:
  assumes "wf_cmd c" "left n s"
  shows "sound n (parseback c s)"
  unfolding parseback_def sound_def
proof (rule loop_meets [where I = "\<lambda>c t. wf_cmd c \<and> left n t" and \<mu> = "\<lambda>_ t. length t"])
  show "wf_cmd c \<and> left n s" using assms by simp
  show "length s < Suc (length s)" by simp
  fix c t
  assume I: "wf_cmd c \<and> left n t"
  then have t: "left n t" by simp
  obtain b where p: "peek t [38] = (b, skip t)" "left n (skip t)" by (rule peek_cases [OF t])
  obtain tok q u where g: "gettoken (skip t) = (tok, q, u)" by (cases "gettoken (skip t)")
  show "meets (let (more, s) = peek t [38]
       in if more then let (_, _, s) = gettoken s in Ret (Inl (Back c)) s else Ret (Inr c) s)
     (\<lambda>r u. case r of Inl c' \<Rightarrow> (wf_cmd c' \<and> left n u) \<and> length u < length t | Inr c' \<Rightarrow> wf_cmd c' \<and> left n u) (\<lambda>_. False)"
  proof (cases b)
    case True
    then have pt: "peek t [38] = (True, skip t)" using p(1) by simp
    show ?thesis using peek_gettoken [OF t pt g] pt g I by simp
  qed (use p I in simp)
qed

lemma parseline_ok:
  assumes "0 \<notin> set s" "length s < k"
  shows "sound (length s) (parseline k s)"
  using assms
proof (induction k arbitrary: s)
  case (Suc k)
  have s: "left (length s) s" using Suc.prems(1) by (simp add: left_def)
  have pp: "sound (length s) (parsepipe (Suc (length s)) (parseline k) s)"
    by (rule parsepipe_ok [OF s]) (use Suc in \<open>auto simp: left_def\<close>)
  show ?case unfolding parseline.simps
  proof (rule sound_bnd [OF pp], rule sound_bnd [OF parseback_ok], assumption+)
    fix c t
    assume c: "wf_cmd c" and t: "left (length s) t"
    obtain b where p: "peek t [59] = (b, skip t)" "left (length s) (skip t)" by (rule peek_cases [OF t])
    obtain tok q u where g: "gettoken (skip t) = (tok, q, u)" by (cases "gettoken (skip t)")
    show "sound (length s) (let (more, s) = peek t [59]
       in if more then let (_, _, s) = gettoken s in bnd (parseline k s) (\<lambda>d s. Ret (Lst c d) s) else Ret c s)"
    proof (cases b)
      case True
      then have pt: "peek t [59] = (True, skip t)" using p(1) by simp
      note u = peek_gettoken [OF t pt g]
      have lu: "length u < length s" using u(2) t by (simp add: left_def)
      have "sound (length u) (parseline k u)" using u(1) lu Suc.prems(2) by (intro Suc.IH) (auto simp: left_def)
      then have "sound (length s) (bnd (parseline k u) (\<lambda>d. Ret (Lst c d)))"
        by (rule sound_bnd) (use c lu in \<open>auto simp: sound_def left_def\<close>)
      with pt g show ?thesis by simp
    qed (use p c in \<open>simp add: sound_def\<close>)
  qed
qed simp

text \<open>
  C31. On every line without a zero byte the parser of the shell ends: either it panics with a message, or it consumes the
  whole line and gives a well-formed command, with fewer than MAXARGS arguments in each simple command, each of them a
  non-empty word without separators, and each redirection to a word with one of the three modes.
\<close>

theorem parsecmd_well_formed:
  assumes "0 \<notin> set s"
  shows "meets (parsecmd s) (\<lambda>c t. wf_cmd c \<and> t = []) (\<lambda>_. False)"
  using parseline_ok [OF assms lessI] unfolding parsecmd_def sound_def meets_bnd
  by (rule meets_mono) (auto simp: peek_def Let_def)

theorem parsecmd_well_formed_witness:
  "0 \<notin> set [97 :: u8, 60, 98, 124, 99, 32, 38] \<and>
   meets (parsecmd [97, 60, 98, 124, 99, 32, 38]) (\<lambda>c t. wf_cmd c \<and> t = []) (\<lambda>_. False)"
  using parsecmd_well_formed [of "[97, 60, 98, 124, 99, 32, 38]"] by simp


section \<open>The printed form of a command\<close>

fun pr :: "cmd \<Rightarrow> u8 list" where
  "pr (Exec args) = concat (map (\<lambda>w. w @ [32]) args)"
| "pr (Redir c f mode fd) = 40 # pr c @ 41 # (if fd = 0 then [60] else if mode = 1 + 0x200 then [62, 62] else [62]) @ f"
| "pr (Pipe c d) = 40 # pr c @ 41 # 124 # 40 # pr d @ [41]"
| "pr (Lst c d) = 40 # pr c @ 41 # 59 # 40 # pr d @ [41]"
| "pr (Back c) = 40 # pr c @ [41, 38]"

definition closes :: "u8 list \<Rightarrow> bool" where
  "closes r \<longleftrightarrow> r = [] \<or> (\<exists>t. r = 41 # t)"

lemma skip_Cons [simp]: "\<not> blank c \<Longrightarrow> skip (c # t) = c # t"
  by (simp add: skip_def)

lemma skip_Nil [simp]: "skip [] = []"
  by (simp add: skip_def)

lemma blank_iff: "blank c \<longleftrightarrow> c \<in> {32, 9, 13, 10, 11}"
  by (auto simp: blank_def whitespace_def)

lemma wordchar_iff: "wordchar c \<longleftrightarrow> \<not> blank c \<and> c \<notin> {60, 124, 62, 38, 59, 40, 41}"
  by (auto simp: wordchar_def blank_def symbols_def)

lemma skip_closes [simp]: "closes r \<Longrightarrow> skip r = r"
  by (auto simp: closes_def blank_iff)

lemma peek_Cons [simp]: "\<not> blank c \<Longrightarrow> c \<noteq> 0 \<Longrightarrow> peek (c # t) toks = (strchr toks c \<noteq> None, c # t)"
  by (simp add: peek_def char_at_def)

lemma peek_closes: "closes r \<Longrightarrow> strchr toks 41 = None \<Longrightarrow> peek r toks = (False, r)"
  by (auto simp: closes_def blank_iff peek_def char_at_def)

lemma gettoken_punct [simp]: "c \<in> {124, 40, 41, 59, 38, 60} \<Longrightarrow> gettoken (c # t) = (c, [c], skip t)"
  by (auto simp: gettoken_def blank_iff)

lemma gettoken_word:
  assumes "is_word w" "t = [] \<or> \<not> wordchar (hd t)"
  shows "gettoken (w @ t) = (97, w, skip t)"
proof -
  obtain c v where w: "w = c # v" using assms(1) by (cases w) (auto simp: is_word_def)
  have c: "\<not> blank c" "c \<noteq> 0" "c \<notin> {60, 124, 62, 38, 59, 40, 41}" and v: "\<forall>x\<in>set v. wordchar x" "wordchar c"
    using assms(1) by (auto simp: w is_word_def wordchar_iff)
  have "takeWhile wordchar (w @ t) = w" "dropWhile wordchar (w @ t) = t"
    using assms(2) v by (cases t; simp add: w)+
  then show ?thesis using c by (auto simp: gettoken_def w)
qed

lemma word_start:
  assumes "is_word w"
  obtains c v where "w = c # v" "\<not> blank c" "c \<noteq> 0" "c \<notin> {60, 124, 62, 38, 59, 40, 41}"
  using assms by (cases w) (auto simp: is_word_def wordchar_iff)

lemma peek_word: "is_word w \<Longrightarrow> set toks \<subseteq> {60, 124, 62, 38, 59, 40, 41} \<Longrightarrow> peek (w @ t) toks = (False, w @ t)"
proof -
  assume w: "is_word w" and t: "set toks \<subseteq> {60, 124, 62, 38, 59, 40, 41}"
  obtain c v where c: "w = c # v" "\<not> blank c" "c \<noteq> 0" "c \<notin> {60, 124, 62, 38, 59, 40, 41}" by (rule word_start [OF w])
  have "strchr toks c = None" using t c(4) by (induction toks) auto
  with c show ?thesis by simp
qed

text \<open>The words of a simple command.\<close>

abbreviation spaced :: "u8 list list \<Rightarrow> u8 list" where
  "spaced args \<equiv> concat (map (\<lambda>w. w @ [32]) args)"

lemma skip_spaced [simp]: "\<forall>w\<in>set args. is_word w \<Longrightarrow> closes r \<Longrightarrow> skip (spaced args @ r) = spaced args @ r"
  by (cases args) (auto elim: word_start)

lemma peek_spaced: "\<forall>w\<in>set args. is_word w \<Longrightarrow> closes r \<Longrightarrow> set toks \<subseteq> {60, 124, 62, 38, 59, 40} \<Longrightarrow>
    peek (spaced args @ r) toks = (False, spaced args @ r)"
proof (cases args)
  case Nil
  assume "closes r" "set toks \<subseteq> {60, 124, 62, 38, 59, 40}"
  moreover have "strchr toks 41 = None" if "set toks \<subseteq> {60, 124, 62, 38, 59, 40}" using that by (induction toks) auto
  ultimately show ?thesis by (simp add: Nil peek_closes)
next
  case (Cons w ws)
  assume "\<forall>w\<in>set args. is_word w" "set toks \<subseteq> {60, 124, 62, 38, 59, 40}"
  then show ?thesis using peek_word [of w toks "32 # spaced ws @ r"] by (auto simp: Cons)
qed

lemma parseredirs_none: "peek s [60, 62] = (False, s) \<Longrightarrow> parseredirs rs s = Ret rs s"
  by (simp add: parseredirs_def)

lemma argloop_spaced:
  assumes "length args < k" "\<forall>w\<in>set args. is_word w" "closes r" "length (as @ args) < MAXARGS"
  shows "loop k argstep (as, []) (spaced args @ r) = Ret (Exec (as @ args)) r"
  using assms
proof (induction args arbitrary: k as)
  case Nil
  then obtain j where k: "k = Suc j" by (cases k) auto
  from Nil(3) show ?case
    by (auto simp: closes_def k argstep_def wrap_def blank_iff peek_def char_at_def gettoken_def)
next
  case (Cons w ws)
  then obtain j where k: "k = Suc j" by (cases k) auto
  have w: "is_word w" and ws: "\<forall>w\<in>set ws. is_word w" using Cons.prems by auto
  have p: "peek (w @ 32 # spaced ws @ r) [124, 41, 38, 59] = (False, w @ 32 # spaced ws @ r)" by (rule peek_word [OF w]) auto
  have "skip (32 # spaced ws @ r) = skip (spaced ws @ r)" by (simp add: skip_def blank_iff)
  then have g: "gettoken (w @ 32 # spaced ws @ r) = (97, w, spaced ws @ r)"
    using gettoken_word [OF w, of "32 # spaced ws @ r"] ws Cons.prems(3) by (simp add: wordchar_iff blank_iff)
  have "parseredirs [] (spaced ws @ r) = Ret [] (spaced ws @ r)"
    by (rule parseredirs_none) (rule peek_spaced [OF ws Cons.prems(3)], auto)
  then have "argstep (as, []) (w @ 32 # spaced ws @ r) = Ret (Inl (as @ [w], [])) (spaced ws @ r)"
    using p g Cons.prems(4) by (simp add: argstep_def)
  then show ?case using Cons.IH [of j "as @ [w]"] Cons.prems ws by (simp add: k)
qed

lemma length_spaced: "length args \<le> length (spaced args)"
  by (induction args) auto

lemma parseexec_Exec:
  assumes "wf_cmd (Exec args)" "closes r"
  shows "parseexec line (pr (Exec args) @ r) = Ret (Exec args) r"
proof -
  have w: "\<forall>w\<in>set args. is_word w" and l: "length ([] @ args) < MAXARGS" using assms(1) by auto
  have "parseargs [] (spaced args @ r) = Ret (Exec ([] @ args)) r" unfolding parseargs_def
    by (rule argloop_spaced [OF _ w assms(2) l]) (use length_spaced [of args] in simp)
  moreover have "peek (spaced args @ r) [40] = (False, spaced args @ r)" by (rule peek_spaced [OF w assms(2)]) auto
  moreover have "parseredirs [] (spaced args @ r) = Ret [] (spaced args @ r)"
    by (rule parseredirs_none) (rule peek_spaced [OF w assms(2)], auto)
  ultimately show ?thesis by (simp add: parseexec_def)
qed

lemma skip_pr [simp]: "wf_cmd c \<Longrightarrow> closes r \<Longrightarrow> skip (pr c @ r) = pr c @ r"
  by (cases c) (auto simp: blank_iff)

lemma parseexec_block:
  assumes "wf_cmd c" "line (pr c @ 41 # r) = Ret c (41 # r)"
  shows "parseexec line (40 # pr c @ 41 # r) = bnd (parseredirs [] (skip r)) (\<lambda>rs s. Ret (wrap rs c) s)"
proof -
  have "skip (pr c @ 41 # r) = pr c @ 41 # r" by (rule skip_pr [OF assms(1)]) (simp add: closes_def)
  with assms(2) show ?thesis by (simp add: parseexec_def parseblock_def blank_iff)
qed

lemma parseredirs_one:
  assumes f: "is_word f" and r: "closes r" and op: "(tok, op) \<in> {(60, [60]), (62, [62]), (43, [62, 62])}"
  shows "parseredirs [] (op @ f @ r) = Ret [(tok, f)] r"
proof -
  obtain c v where c: "f = c # v" "\<not> blank c" "c \<noteq> 0" "c \<notin> {60, 124, 62, 38, 59, 40, 41}" by (rule word_start [OF f])
  have g: "gettoken (op @ f @ r) = (tok, op, f @ r)"
    using op c by (auto simp: gettoken_def blank_iff char_at_def)
  have g2: "gettoken (f @ r) = (97, f, r)"
    using gettoken_word [OF f, of r] r by (auto simp: closes_def wordchar_iff)
  have p: "peek (op @ f @ r) [60, 62] = (True, op @ f @ r)" using op by (auto simp: blank_iff)
  have p2: "peek r [60, 62] = (False, r)" by (rule peek_closes [OF r]) simp
  obtain n where n: "length (op @ f @ r) = Suc n" using c by simp
  show ?thesis unfolding parseredirs_def n by (simp add: p g g2 p2 del: append_assoc)
qed

lemma parseexec_redir:
  assumes "wf_cmd (Redir c f mode fd)" "closes r"
    and line: "\<And>t. line (pr c @ 41 # t) = Ret c (41 # t)"
  shows "parseexec line (pr (Redir c f mode fd) @ r) = Ret (Redir c f mode fd) r"
proof -
  have f: "is_word f" and c: "wf_cmd c" and m: "(mode, fd) \<in> {(0, 0), (1 + 0x200 + 0x400, 1), (1 + 0x200, 1)}"
    using assms(1) by auto
  define op :: "u8 list" where "op = (if fd = 0 then [60] else if mode = 1 + 0x200 then [62, 62] else [62])"
  define tok :: u8 where "tok = (if fd = 0 then 60 else if mode = 1 + 0x200 then 43 else 62)"
  have o: "(tok, op) \<in> {(60, [60]), (62, [62]), (43, [62, 62])}" by (simp add: op_def tok_def)
  have "wrap [(tok, f)] c = Redir c f mode fd" using m by (auto simp: wrap_def redircmd_def tok_def)
  moreover have "skip (op @ f @ r) = op @ f @ r" by (simp add: op_def blank_iff)
  ultimately have "parseexec line (40 # pr c @ 41 # op @ f @ r) = Ret (Redir c f mode fd) r"
    using parseexec_block [of c line "op @ f @ r", OF c line] parseredirs_one [OF f assms(2) o] by simp
  then show ?thesis by (simp add: op_def)
qed

lemma parseexec_paren:
  assumes "wf_cmd c" "line (pr c @ 41 # r) = Ret c (41 # r)" "skip r = r" "peek r [60, 62] = (False, r)"
  shows "parseexec line (40 # pr c @ 41 # r) = Ret c r"
  using parseexec_block [of c line r, OF assms(1,2)] parseredirs_none [OF assms(4)] assms(3) by (simp add: wrap_def)

lemma parseback_none: "peek s [38] = (False, s) \<Longrightarrow> parseback c s = Ret c s"
  by (simp add: parseback_def)

lemma closes_41 [simp]: "closes (41 # t)"
  by (simp add: closes_def)

lemma parseline_pr: "wf_cmd c \<Longrightarrow> closes r \<Longrightarrow> length (pr c) < k \<Longrightarrow> parseline k (pr c @ r) = Ret c r"
proof (induction c arbitrary: k r)
  case (Exec args)
  then obtain j where k: "k = Suc j" by (cases k) auto
  show ?case using parseexec_Exec [OF Exec(1,2)] peek_closes [OF Exec(2)] by (simp add: k parseback_none)
next
  case (Redir c f mode fd)
  then obtain j where k: "k = Suc j" by (cases k) auto
  have "parseline j (pr c @ 41 # t) = Ret c (41 # t)" for t using Redir by (simp add: k)
  from parseexec_redir [of c f mode fd r "parseline j", OF Redir.prems(1,2) this] show ?case
    using peek_closes [OF Redir.prems(2)] by (simp add: k parseback_none)
next
  case (Pipe c d)
  then obtain j where k: "k = Suc j" by (cases k) auto
  have c: "parseline j (pr c @ 41 # t) = Ret c (41 # t)" and d: "parseline j (pr d @ 41 # t) = Ret d (41 # t)" for t
    using Pipe by (simp_all add: k)
  have "parseexec (parseline j) (40 # pr c @ 41 # 124 # 40 # pr d @ 41 # r) = Ret c (124 # 40 # pr d @ 41 # r)"
    by (rule parseexec_paren) (use c Pipe.prems in \<open>auto simp: blank_iff\<close>)
  moreover have "parseexec (parseline j) (40 # pr d @ 41 # r) = Ret d r"
    by (rule parseexec_paren) (use d Pipe.prems peek_closes [OF Pipe.prems(2)] in auto)
  ultimately show ?case using peek_closes [OF Pipe.prems(2)] by (simp add: k parseback_none blank_iff)
next
  case (Lst c d)
  then obtain j where k: "k = Suc j" by (cases k) auto
  obtain i where j: "j = Suc i" using Lst.prems(3) k by (cases j) auto
  have c: "parseline j (pr c @ 41 # t) = Ret c (41 # t)" and d: "parseline i (pr d @ 41 # t) = Ret d (41 # t)" for t
    using Lst by (simp_all add: k j del: parseline.simps)
  have "parseexec (parseline j) (40 # pr c @ 41 # 59 # 40 # pr d @ 41 # r) = Ret c (59 # 40 # pr d @ 41 # r)"
    by (rule parseexec_paren) (use c Lst.prems in \<open>auto simp: blank_iff\<close>)
  moreover have "parseexec (parseline i) (40 # pr d @ 41 # r) = Ret d r"
    by (rule parseexec_paren) (use d Lst.prems peek_closes [OF Lst.prems(2)] in auto)
  then have "parseline j (40 # pr d @ 41 # r) = Ret d r"
    using peek_closes [OF Lst.prems(2)] by (simp add: j parseback_none)
  ultimately show ?case by (simp add: k parseback_none blank_iff)
next
  case (Back c)
  then obtain j where k: "k = Suc j" by (cases k) auto
  have c: "parseline j (pr c @ 41 # t) = Ret c (41 # t)" for t using Back by (simp add: k)
  have "parseexec (parseline j) (40 # pr c @ 41 # 38 # r) = Ret c (38 # r)"
    by (rule parseexec_paren) (use c Back.prems in \<open>auto simp: blank_iff\<close>)
  moreover have "parseback c (38 # r) = Ret (Back c) r"
    using peek_closes [OF Back.prems(2)] Back.prems(2) by (simp add: parseback_def blank_iff)
  ultimately show ?case using peek_closes [OF Back.prems(2)] by (simp add: k blank_iff)
qed

text \<open>
  C32. Every well-formed command has a line that the parser of the shell reads back as exactly that command: its printed
  form, with the components of a pipe, a list, a background command or a redirection in parentheses.
\<close>

theorem parsecmd_roundtrip:
  assumes "wf_cmd c"
  shows "parsecmd (pr c) = Ret c []"
  using parseline_pr [OF assms, of "[]" "Suc (length (pr c))"] by (simp add: parsecmd_def closes_def peek_def del: parseline.simps)

theorem parsecmd_roundtrip_witness:
  "wf_cmd (Back (Pipe (Redir (Exec [[97]]) [98] 0 0) (Exec [[99], [100]]))) \<and>
   parsecmd (pr (Back (Pipe (Redir (Exec [[97]]) [98] 0 0) (Exec [[99], [100]])))) =
     Ret (Back (Pipe (Redir (Exec [[97]]) [98] 0 0) (Exec [[99], [100]]))) []"
proof -
  have w: "wf_cmd (Back (Pipe (Redir (Exec [[97]]) [98] 0 0) (Exec [[99], [100]])))"
    by (simp add: MAXARGS_def is_word_def wordchar_iff blank_iff)
  show ?thesis using w parsecmd_roundtrip [OF w] by (rule conjI)
qed

end
