(* ===== verification/Spec2Isabelle.thy ===== *)
theory Spec2Isabelle
  imports Recovery Boot Pipefifo Lineedit Layout Diskdriver Callspec Graphs Experiment Rows Grep Umalloc Shell
begin

text \<open>
  Verification of MC504: an xv6-style teaching kernel for RISC-V whose scheduler prefers I/O-bound
  processes, with system calls that measure the scheduler and user programs that run the
  experiment. The development is a shallow embedding of the C sources under src/: pure routines are HOL
  functions, routines with state are functions from a state to an outcome.

  \<^bold>\<open>Outcomes and state.\<close> Prelude has the outcome type \<open>run\<close>: a routine returns, panics, goes to sleep on a
  channel, ends its process, runs past the bound of a loop, or does what C leaves undefined. Integers keep
  their width as words. The state is a chain of records, each theory adding the variables of its source file:
  \<open>kmem\<close> (kalloc.c, with physical memory as a function from addresses to bytes), \<open>pstate\<close> (proc.c),
  \<open>bstate\<close> (bio.c, with the disk), \<open>lstate\<close> (log.c), \<open>fstate\<close> (fs.c), \<open>ustate\<close> (uart.c), \<open>cstate\<close>
  (console.c), \<open>kstate\<close> (file.c, pipe.c), \<open>vstate\<close> (virtio_disk.c), \<open>tstate\<close> (trap.c, plic.c) and
  \<open>gstate\<close> (vm.c's kernel page table, main.c). A routine is stated for every extension of the record it needs.

  \<^bold>\<open>The kernel.\<close> Machine has the constants of param.h, riscv.h and memlayout.h; Memory and Bytes are loads and
  stores; Cstring is string.c; Kalloc is kalloc.c; Vm and Pagetable are vm.c; Spinlock is spinlock.c as the
  steps between which other processors act; Proc and Process are the process table, fork, exit and wait of
  proc.c; Sched is the scheduler as a state machine of each processor; Bio and Bcache are sleeplock.c and bio.c;
  Log and Recovery are log.c; Fs and Layout are fs.c; Ring is the index arithmetic of the ring buffers; Uart, Kprintf,
  Console and Lineedit are uart.c, printf.c and console.c; Pipe, Usermem and Pipefifo are pipe.c; File is file.c;
  Sysproc, Exec, Sysfile, Syscall and Callspec are the system calls; Virtio and Diskdriver are virtio_disk.c; Trap
  is trap.c and plic.c; Boot is start.c and main.c. The user side: Randgen, Graphs, Experiment and Rows are the
  experiment (graphs.c, run_experiment.c, rows.c), Ulib is ulib.c and printf.c, Umalloc is umalloc.c, Grep is
  grep.c and wc.c, Shell is the parser of sh.c.

  \<^bold>\<open>What is shown.\<close> Memory: the allocator hands out only pages no one holds, and frees all memory at boot; page tables map
  exactly what was asked, and copies to user memory stay where the user may write. Processors: the spin lock excludes,
  no process runs on two processors under any interleaving, the scheduler picks by type within a bounded number of steps, and a process
  that yields keeps its processor. Disk: a crash at any point of a commit leaves none or all of a transaction; the buffer
  cache behaves as an array of blocks and recycles the least recently used buffer; the virtio driver, with a device that serves
  its queue, does what the cache relies on. Files: inodes and the bit map are read back as written, the inode
  table is unique, paths are taken apart into their elements. Devices: console, pipe and UART buffers are queues of the
  right order; printf prints the text of its format, and which conversions overrun its buffer. Calls: unknown numbers fail
  cleanly, indices of the metrics calls are not checked. User side: the generator, the search, the matcher, the
  memory allocator, number conversion, the figures of the experiment, and the shell's parser, which
  ends on every line with a well-formed command or a panic and reads printed commands back.

  \<^bold>\<open>Interfaces.\<close> The locale \<open>page_allocator\<close> (Kalloc) is the contract of \<open>kalloc\<close> and \<open>kfree\<close>, interpreted on
  them; \<open>block_store\<close> (Bcache) is the contract of \<open>bread\<close>, \<open>bwrite\<close>, \<open>brelse\<close>, \<open>bpin\<close> and
  \<open>bunpin\<close>, interpreted on them, and the proofs of Recovery use the log through it; \<open>ring_buffer\<close> (Ring) is the
  contract of an array with two free-running counters, interpreted on the buffers of the UART and of a pipe.

  \<^bold>\<open>Bounds.\<close> A loop with no bound in the source is \<open>loop k\<close> with a number of rounds that is enough, and the theorems
  show that it returns: 2 MAX_VERT rounds of the search, as a vertex enters the queue once more at most; twice
  round the list of free blocks in malloc; as many levels of the shell's recursive descent as its line has bytes, since each takes
  one; \<open>2^16\<close> completions in \<open>virtio_disk_intr\<close>, whose counter has 16 bits.
  Waiting for a device register is bounded by \<open>spin\<close> and counts as divergence beyond it. What a device register returns
  is a function of time; register writes are a trace.

  \<^bold>\<open>Concurrency.\<close> Spinlock and Sched interleave processors step by step. The other theories take a critical
  section as one step, which the spin lock justifies; a routine that sleeps ends with the outcome \<open>Sleep\<close>
  and the state it leaves, and goes on from there in a routine of its own (\<open>sys_sleep_from\<close>, \<open>pipewrite_from\<close>).

  \<^bold>\<open>Not modelled.\<close> The assembly (entry.S, swtch.S, trampoline.S, kernelvec.S, initcode.S, usys) has no C semantics: its
  effect on registers is part of the steps of Sched and Trap. Programs that only issue system calls and print
  (cat, echo, init, kill, ln, ls, mkdir, rm, zombie, the running half of sh) and the tests (usertests, grind, forktest, stressfs) have
  no state of their own to speak of. mkfs runs on the host and its effects are calls of the host's C library. The clock
  readings of graphs.c and rows.c, and the copies of unterminated lines in rows.c, which C leaves undefined, are left out.
\<close>

end
